(* ===== verification/Huc_Prelude.thy ===== *)
theory Huc_Prelude
  imports Main "HOL-Library.Word"
begin

text \<open>
  Shared vocabulary of the development: the C integer types as machine words, the
  little-endian byte view of a 32-bit word (the guest and the host are both x86), a
  byte-addressed memory block with bulk loads and stores, and the sum type that the
  component models use for faults.  The named collections \<open>mem_simps\<close>,
  \<open>le_simps\<close> and \<open>res_simps\<close> carry most component proofs.
\<close>

unbundle bit_operations_syntax

named_theorems mem_simps "loads from and stores to a block of bytes"
named_theorems le_simps "little-endian encoding of words"
named_theorems res_simps "sequencing of operations that may fault"

section \<open>Machine types\<close>

type_synonym u8 = "8 word"
type_synonym u16 = "16 word"
type_synonym u32 = "32 word"
type_synonym u64 = "64 word"
type_synonym bytes = "u8 list"

section \<open>Fallible results\<close>

text \<open>
  A fault is undefined behaviour or an abort of the C program: the run has no later
  state.  \<open>NoReturn\<close> stands for a call that never returns.
\<close>

datatype c_fault =
    NullDeref | WildPointer | UseAfterFree | DoubleFree
  | OutOfBounds | SignedOverflow | DivByZero | BadConversion | AssertFailed | NoReturn

text \<open>\<open>Inl e\<close> is the fault \<open>e\<close>, \<open>Inr x\<close> the value.\<close>

definition rbind :: "'e + 'a \<Rightarrow> ('a \<Rightarrow> 'e + 'b) \<Rightarrow> 'e + 'b" where
  "rbind r f = (case r of Inl e \<Rightarrow> Inl e | Inr x \<Rightarrow> f x)"

lemma rbind_Inl [simp, res_simps]: "rbind (Inl e) f = Inl e"
  by (simp add: rbind_def)

lemma rbind_Inr [simp, res_simps]: "rbind (Inr x) f = f x"
  by (simp add: rbind_def)

lemma rbind_eq_Inr [res_simps]: "rbind r f = Inr y \<longleftrightarrow> (\<exists>x. r = Inr x \<and> f x = Inr y)"
  by (cases r) auto

lemma rbind_eq_Inl [res_simps]:
  "rbind r f = Inl e \<longleftrightarrow> r = Inl e \<or> (\<exists>x. r = Inr x \<and> f x = Inl e)"
  by (cases r) auto

lemma rbind_assoc: "rbind (rbind r f) g = rbind r (\<lambda>x. rbind (f x) g)"
  by (cases r) auto

section \<open>Little-endian words\<close>

definition le16 :: "u16 \<Rightarrow> bytes" where
  "le16 w = [ucast w, ucast (drop_bit 8 w)]"

definition un_le16 :: "u8 \<Rightarrow> u8 \<Rightarrow> u16" where
  "un_le16 b0 b1 = ucast b0 OR push_bit 8 (ucast b1)"

definition le32 :: "u32 \<Rightarrow> bytes" where
  "le32 w = [ucast w, ucast (drop_bit 8 w), ucast (drop_bit 16 w), ucast (drop_bit 24 w)]"

definition un_le32 :: "u8 \<Rightarrow> u8 \<Rightarrow> u8 \<Rightarrow> u8 \<Rightarrow> u32" where
  "un_le32 b0 b1 b2 b3 =
     ucast b0 OR push_bit 8 (ucast b1) OR push_bit 16 (ucast b2) OR push_bit 24 (ucast b3)"

definition le64 :: "u64 \<Rightarrow> bytes" where
  "le64 w = le32 (ucast w) @ le32 (ucast (drop_bit 32 w))"

lemma length_le16 [simp]: "length (le16 w) = 2"
  by (simp add: le16_def)

lemma length_le32 [simp]: "length (le32 w) = 4"
  by (simp add: le32_def)

lemma length_le64 [simp]: "length (le64 w) = 8"
  by (simp add: le64_def)

lemma bit_u8_bound: "bit (b :: u8) n \<Longrightarrow> n < 8"
  using bit_imp_le_length [of b n] by simp

lemma un_le16_bytes [simp, le_simps]:
  "ucast (un_le16 b0 b1) = b0" "ucast (drop_bit 8 (un_le16 b0 b1)) = b1"
  by (rule bit_word_eqI; auto simp: un_le16_def bit_simps dest: bit_u8_bound)+

lemma un_le32_bytes [simp, le_simps]:
  "ucast (un_le32 b0 b1 b2 b3) = b0" "ucast (drop_bit 8 (un_le32 b0 b1 b2 b3)) = b1"
  "ucast (drop_bit 16 (un_le32 b0 b1 b2 b3)) = b2" "ucast (drop_bit 24 (un_le32 b0 b1 b2 b3)) = b3"
  by (rule bit_word_eqI; auto simp: un_le32_def bit_simps dest: bit_u8_bound)+

lemma le16_un_le16 [simp, le_simps]: "le16 (un_le16 b0 b1) = [b0, b1]"
  by (simp add: le16_def)

lemma le32_un_le32 [simp, le_simps]: "le32 (un_le32 b0 b1 b2 b3) = [b0, b1, b2, b3]"
  by (simp add: le32_def)

lemma un_le16_le16 [simp, le_simps]: "un_le16 (ucast w) (ucast (drop_bit 8 w)) = w"
proof (rule bit_word_eqI)
  fix n assume "n < LENGTH(16)"
  then show "bit (un_le16 (ucast w) (ucast (drop_bit 8 w))) n = bit w n"
    by (cases "n < 8") (auto simp: un_le16_def bit_simps)
qed

lemma un_le32_le32 [simp, le_simps]:
  "un_le32 (ucast w) (ucast (drop_bit 8 w)) (ucast (drop_bit 16 w)) (ucast (drop_bit 24 w)) = w"
proof (rule bit_word_eqI)
  fix n assume "n < LENGTH(32)"
  then consider "n < 8" | "8 \<le> n" "n < 16" | "16 \<le> n" "n < 24" | "24 \<le> n" "n < 32"
    by force
  then show "bit (un_le32 (ucast w) (ucast (drop_bit 8 w)) (ucast (drop_bit 16 w))
      (ucast (drop_bit 24 w))) n = bit w n"
    by cases (auto simp: un_le32_def bit_simps)
qed

lemma un_le32_halves [le_simps]:
  "un_le32 b0 b1 b2 b3 = ucast (un_le16 b0 b1) OR push_bit 16 (ucast (un_le16 b2 b3))"
  by (rule bit_word_eqI) (auto simp: un_le32_def un_le16_def bit_simps dest: bit_u8_bound)

lemma ucast_high_half [simp, le_simps]: "ucast (drop_bit 16 (un_le32 b0 b1 b2 b3)) = un_le16 b2 b3"
  by (rule bit_word_eqI) (auto simp: un_le32_def un_le16_def bit_simps dest: bit_u8_bound)

lemma word_or_eq_0 [simp]: "(a :: 'a::len word) OR b = 0 \<longleftrightarrow> a = 0 \<and> b = 0"
  by (auto simp: bit_eq_iff bit_or_iff)

lemma ucast_u64_u32 [simp]: "ucast (ucast (w :: u32) :: u64) = w"
  by (rule bit_word_eqI) (auto simp: bit_simps)

lemma unat_u16_less: "unat (p :: u16) < 65536" "uint (p :: u16) < 65536"
proof -
  have "unat p < 2 ^ LENGTH(16)" "uint p < 2 ^ LENGTH(16)" by (rule unsigned_less)+
  then show "unat p < 65536" "uint p < 65536" by simp_all
qed

section \<open>Words with one bit set\<close>

lemma low_bit_exists:
  assumes "(n :: 'a::len word) \<noteq> 0"
  obtains i where "i < LENGTH('a)" "bit n i" "\<And>j. j < i \<Longrightarrow> \<not> bit n j"
proof -
  from assms obtain b where "bit n b" by (auto simp: bit_eq_iff)
  then have "bit n (LEAST i. bit n i)" by (rule LeastI)
  moreover from this have "(LEAST i. bit n i) < LENGTH('a)" using bit_imp_le_length by fastforce
  moreover have "\<not> bit n j" if "j < (LEAST i. bit n i)" for j
    using that by (rule not_less_Least)
  ultimately show ?thesis using that by blast
qed

lemma clear_low_bit:
  assumes "i < LENGTH('a)" "bit (n :: 'a::len word) i" "\<And>j. j < i \<Longrightarrow> \<not> bit n j"
  shows "n AND (n - 1) = n AND NOT (mask (Suc i))"
proof -
  let ?q = "n AND NOT (mask (Suc i))"
  have n: "n = ?q OR push_bit i 1"
    by (rule bit_word_eqI, use assms in \<open>auto simp: bit_simps\<close>)
  have sum: "?q OR push_bit i 1 = ?q + push_bit i 1" "?q OR mask i = ?q + mask i"
    by (rule disjunctive_add [symmetric]; auto simp: bit_simps)+
  have "n = ?q + push_bit i 1" using n sum(1) by simp
  then have "n - 1 = ?q + mask i"
    by (simp add: mask_eq_exp_minus_1 push_bit_eq_mult algebra_simps)
  then have "n - 1 = ?q OR mask i" using sum(2) by simp
  moreover have "(?q OR push_bit i 1) AND (?q OR mask i) = ?q"
    by (auto intro!: bit_word_eqI simp: bit_simps)
  ultimately show ?thesis using n by metis
qed

lemma word_single_bit_iff: "(n :: 'a::len word) \<noteq> 0 \<and> n AND (n - 1) = 0 \<longleftrightarrow> (\<exists>i < LENGTH('a). n = push_bit i 1)"
proof
  assume p: "n \<noteq> 0 \<and> n AND (n - 1) = 0"
  then have "n \<noteq> 0" by simp
  then obtain i where i: "i < LENGTH('a)" "bit n i" "\<And>j. j < i \<Longrightarrow> \<not> bit n j"
    using low_bit_exists by blast
  from p clear_low_bit [OF i] have z: "n AND NOT (mask (Suc i)) = 0"
    by simp
  have "\<not> bit n j" if "i < j" for j
    using arg_cong [OF z, of "\<lambda>w. bit w j"] that by (auto simp: bit_simps dest: bit_imp_le_length)
  with i have "n = push_bit i 1"
    by (intro bit_word_eqI) (auto simp: bit_simps, metis linorder_neqE_nat)
  with i show "\<exists>i < LENGTH('a). n = push_bit i 1" by blast
next
  assume "\<exists>i < LENGTH('a). n = push_bit i 1"
  then obtain i where i: "i < LENGTH('a)" "n = push_bit i 1" by blast
  then have "n AND (n - 1) = n AND NOT (mask (Suc i))"
    by (intro clear_low_bit) (auto simp: bit_simps)
  also have "\<dots> = 0" using i by (auto intro!: bit_word_eqI simp: bit_simps)
  finally have "n AND (n - 1) = 0" .
  moreover have "n \<noteq> 0"
    using i arg_cong [of n 0 "\<lambda>w. bit w i"] by (auto simp: bit_simps)
  ultimately show "n \<noteq> 0 \<and> n AND (n - 1) = 0" by simp
qed

section \<open>Blocks of bytes\<close>

type_synonym mem = "nat \<Rightarrow> u8"

fun mem_put :: "mem \<Rightarrow> nat \<Rightarrow> bytes \<Rightarrow> mem" where
  "mem_put m off [] = m"
| "mem_put m off (b # bs) = mem_put (m(off := b)) (Suc off) bs"

definition mem_get :: "mem \<Rightarrow> nat \<Rightarrow> nat \<Rightarrow> bytes" where
  "mem_get m off n = map m [off..<off + n]"

definition load16 :: "mem \<Rightarrow> nat \<Rightarrow> u16" where
  "load16 m off = un_le16 (m off) (m (off + 1))"

definition load32 :: "mem \<Rightarrow> nat \<Rightarrow> u32" where
  "load32 m off = un_le32 (m off) (m (off + 1)) (m (off + 2)) (m (off + 3))"

lemma mem_put_nth [mem_simps]:
  "mem_put m off bs a = (if off \<le> a \<and> a < off + length bs then bs ! (a - off) else m a)"
  by (induction m off bs arbitrary: a rule: mem_put.induct)
     (auto simp: nth_Cons' not_less_eq_eq)

lemma mem_put_append: "mem_put (mem_put m off xs) (off + length xs) ys = mem_put m off (xs @ ys)"
  by (induction xs arbitrary: m off) (simp, metis add_Suc add_Suc_right append_Cons length_Cons mem_put.simps(2))

lemma mem_get_take: "n \<le> k \<Longrightarrow> take n (mem_get m off k) = mem_get m off n"
  by (simp add: mem_get_def take_map)

lemma length_mem_get [simp]: "length (mem_get m off n) = n"
  by (simp add: mem_get_def)

lemma mem_get_put_same [mem_simps]: "mem_get (mem_put m off bs) off (length bs) = bs"
  by (rule nth_equalityI) (auto simp: mem_get_def mem_put_nth)

lemma mem_get_put_disjoint [mem_simps]:
  "off + length bs \<le> a \<or> a + n \<le> off \<Longrightarrow> mem_get (mem_put m off bs) a n = mem_get m a n"
  by (auto simp: mem_get_def mem_put_nth)

lemma mem_get_nth [mem_simps]: "i < n \<Longrightarrow> mem_get m off n ! i = m (off + i)"
  by (simp add: mem_get_def)

lemma mem_get_append: "mem_get m off (a + b) = mem_get m off a @ mem_get m (off + a) b"
  using upt_add_eq_append [of off "off + a" b] by (simp add: mem_get_def add.assoc)

lemma load32_put_same [mem_simps]: "load32 (mem_put m off (le32 w)) off = w"
  by (simp add: load32_def mem_put_nth le32_def)

lemma load32_put_disjoint [mem_simps]:
  "off + length bs \<le> a \<or> a + 4 \<le> off \<Longrightarrow> load32 (mem_put m off bs) a = load32 m a"
  by (auto simp: load32_def mem_put_nth)

lemma le32_load32 [mem_simps]: "le32 (load32 m off) = mem_get m off 4"
  by (simp add: load32_def mem_get_def upt_rec numeral_eq_Suc)

section \<open>Simulations\<close>

text \<open>
  A detailed step relation simulates an abstract one through a function on states: under an
  invariant every step is a step of the abstraction or leaves it unchanged.
\<close>

locale stuttering_simulation =
  fixes cstep :: "'c \<Rightarrow> 'c \<Rightarrow> bool" and astep :: "'a \<Rightarrow> 'a \<Rightarrow> bool"
    and absf :: "'c \<Rightarrow> 'a" and inv :: "'c \<Rightarrow> bool"
  assumes step_inv: "cstep c c' \<Longrightarrow> inv c \<Longrightarrow> inv c'"
    and step_sim: "cstep c c' \<Longrightarrow> inv c \<Longrightarrow> astep (absf c) (absf c') \<or> absf c' = absf c"
begin

lemma run_sim:
  assumes "cstep\<^sup>*\<^sup>* c c'" "inv c"
  shows "astep\<^sup>*\<^sup>* (absf c) (absf c')" "inv c'"
proof -
  have "astep\<^sup>*\<^sup>* (absf c) (absf c') \<and> inv c'"
    using assms
  proof (induction rule: rtranclp_induct)
    case (step y z)
    with step_sim [of y z] step_inv [of y z] show ?case
      by (metis rtranclp.rtrancl_into_rtrancl)
  qed simp
  then show "astep\<^sup>*\<^sup>* (absf c) (absf c')" "inv c'" by simp_all
qed

end

end
