(* ===== verification/Huc_Msg.thy ===== *)
theory Huc_Msg
  imports Huc_Prelude
begin

text \<open>
  The injection message of the hyperupcall protocol: the header structs and constants of
  \<^verbatim>\<open>huc_msg.h\<close> and \<^verbatim>\<open>bpf_injection_msg.h\<close> (the host, the device, the driver and the daemon
  each carry a copy with the same layout), the memory image of the header, and the two
  functions that build a message from a bytecode file.
\<close>

named_theorems msg_simps "constants and layout of the injection message"

section \<open>Constants\<close>

definition PROGRAM_INJECTION :: u8 where [msg_simps]: "PROGRAM_INJECTION = 1"
definition PROGRAM_INJECTION_RESULT :: u8 where [msg_simps]: "PROGRAM_INJECTION_RESULT = 2"
definition PROGRAM_INJECTION_AFFINITY :: u8 where [msg_simps]: "PROGRAM_INJECTION_AFFINITY = 3"
definition PROGRAM_INJECTION_AFFINITY_RESULT :: u8 where
  [msg_simps]: "PROGRAM_INJECTION_AFFINITY_RESULT = 4"
definition SHUTDOWN_REQUEST :: u8 where [msg_simps]: "SHUTDOWN_REQUEST = 15"
definition MSG_ERROR :: u8 where [msg_simps]: "MSG_ERROR = 16"
definition RESET :: u8 where [msg_simps]: "RESET = 17"
definition PIN_ON_SAME :: u8 where [msg_simps]: "PIN_ON_SAME = 18"
definition HT_REMAPPING :: u8 where [msg_simps]: "HT_REMAPPING = 19"
definition DEFAULT_VERSION :: u8 where [msg_simps]: "DEFAULT_VERSION = 1"

section \<open>Header and message\<close>

record huc_msg_header =
  version :: u8
  msg_type :: u8
  payload_len :: u16

type_synonym bpf_injection_msg_header = huc_msg_header

text \<open>
  A C pointer as far as these programs use it: never assigned, null, a live block of the
  heap with its contents, or a block that was freed.
\<close>

datatype payload_ptr = PUninit | PNull | PBlock bytes | PFreed

record huc_msg_t =
  header :: huc_msg_header
  payload :: payload_ptr

type_synonym bpf_injection_msg_t = huc_msg_t

record cpu_affinity_infos_t =
  n_pCPU :: u16
  n_vCPU :: u16

text \<open>\<^verbatim>\<open>sizeof(struct huc_msg_header)\<close>: two bytes and an aligned 16-bit field.\<close>

abbreviation (input) header_size :: nat where "header_size \<equiv> 4"

definition header_bytes :: "huc_msg_header \<Rightarrow> bytes" where
  "header_bytes h = [version h, msg_type h] @ le16 (payload_len h)"

definition header_of_mem :: "mem \<Rightarrow> nat \<Rightarrow> huc_msg_header" where
  "header_of_mem m off =
     \<lparr>version = m off, msg_type = m (off + 1), payload_len = load16 m (off + 2)\<rparr>"

text \<open>The header as the driver sees it: the four bytes of one 32-bit register.\<close>

definition header_of_u32 :: "u32 \<Rightarrow> huc_msg_header" where
  "header_of_u32 w =
     \<lparr>version = ucast w, msg_type = ucast (drop_bit 8 w), payload_len = ucast (drop_bit 16 w)\<rparr>"

definition affinity_infos_of_mem :: "mem \<Rightarrow> nat \<Rightarrow> cpu_affinity_infos_t" where
  "affinity_infos_of_mem m off = \<lparr>n_pCPU = load16 m off, n_vCPU = load16 m (off + 2)\<rparr>"

section \<open>Building a message from a file\<close>

text \<open>
  \<open>file\<close> is what \<^verbatim>\<open>fopen\<close> finds (\<open>None\<close>: it fails), \<open>malloc_ok\<close> whether the
  allocation succeeds, \<open>stream_ok\<close> how many bytes the stream delivers before an I/O
  error, and \<open>junk\<close> the stack contents of the uninitialised \<^verbatim>\<open>payload_len\<close>.  The
  result of \<^verbatim>\<open>ftell\<close> is stored in a 16-bit field.
\<close>

definition fread_count :: "bytes \<Rightarrow> nat \<Rightarrow> nat \<Rightarrow> nat" where
  "fread_count content stream_ok n = min n (min stream_ok (length content))"

definition prepare_huc_message :: "bytes option \<Rightarrow> bool \<Rightarrow> nat \<Rightarrow> u16 \<Rightarrow> huc_msg_t" where
  "prepare_huc_message file malloc_ok stream_ok junk =
     (let h = \<lparr>version = DEFAULT_VERSION, msg_type = PROGRAM_INJECTION, payload_len = junk\<rparr> in
      case file of
        None \<Rightarrow> \<lparr>header = h, payload = PUninit\<rparr>
      | Some content \<Rightarrow>
          (let n = of_nat (length content) :: u16;
               h = h\<lparr>payload_len := n\<rparr>;
               len = fread_count content stream_ok (unat n)
           in if \<not> malloc_ok then \<lparr>header = h, payload = PNull\<rparr>
              else if len \<noteq> unat n then
                \<lparr>header = h\<lparr>msg_type := MSG_ERROR\<rparr>, payload = PFreed\<rparr>
              else \<lparr>header = h, payload = PBlock (take len content)\<rparr>))"

text \<open>The older header does not test the result of \<^verbatim>\<open>malloc\<close> before it reads into it.\<close>

definition prepare_bpf_injection_message ::
    "bytes option \<Rightarrow> bool \<Rightarrow> nat \<Rightarrow> u16 \<Rightarrow> c_fault + bpf_injection_msg_t" where
  "prepare_bpf_injection_message file malloc_ok stream_ok junk =
     (let h = \<lparr>version = DEFAULT_VERSION, msg_type = PROGRAM_INJECTION, payload_len = junk\<rparr> in
      case file of
        None \<Rightarrow> Inr \<lparr>header = h, payload = PUninit\<rparr>
      | Some content \<Rightarrow>
          (let n = of_nat (length content) :: u16;
               h = h\<lparr>payload_len := n\<rparr>;
               len = fread_count content stream_ok (unat n)
           in if \<not> malloc_ok \<and> 0 < len then Inl NullDeref
              else if len \<noteq> unat n then
                Inr \<lparr>header = h\<lparr>msg_type := MSG_ERROR\<rparr>, payload = PFreed\<rparr>
              else Inr \<lparr>header = h,
                        payload = (if malloc_ok then PBlock (take len content) else PNull)\<rparr>))"

definition print_bpf_injection_message :: "bpf_injection_msg_header \<Rightarrow> nat list" where
  "print_bpf_injection_message h = [unat (version h), unat (msg_type h), unat (payload_len h)]"

section \<open>Layout lemmas\<close>

lemma length_header_bytes [simp]: "length (header_bytes h) = header_size"
  by (simp add: header_bytes_def)

lemma header_of_mem_put [simp]: "header_of_mem (mem_put m off (header_bytes h)) off = h"
  by (simp add: header_of_mem_def header_bytes_def le16_def load16_def mem_put_nth)

lemma header_of_mem_put_disjoint:
  "off + length bs \<le> a \<or> a + header_size \<le> off \<Longrightarrow>
   header_of_mem (mem_put m off bs) a = header_of_mem m a"
  by (auto simp: header_of_mem_def load16_def mem_put_nth)

lemma header_of_u32_load32 [simp]: "header_of_u32 (load32 m off) = header_of_mem m off"
  by (simp add: header_of_u32_def header_of_mem_def load32_def load16_def numeral_3_eq_3)

lemma header_bytes_of_mem: "header_bytes (header_of_mem m off) = mem_get m off 4"
  by (simp add: header_bytes_def header_of_mem_def load16_def mem_get_def upt_rec numeral_eq_Suc)

lemma unat_file_len: "length content < 65536 \<Longrightarrow> unat (of_nat (length content) :: u16) = length content"
  by (simp add: unat_of_nat)

section \<open>Property of the message layout\<close>

text \<open>The sender, the device and the driver agree on the header: the four bytes the host
  sends decode to the header it built, wherever the device stores them, the register word
  the driver reads there decodes to the same header, and decoding and encoding again gives
  back the bytes.\<close>

lemma header_layout_agrees:
  "header_of_mem (mem_put m off (header_bytes h)) off = h \<and>
   header_of_u32 (load32 (mem_put m off (header_bytes h)) off) = h \<and>
   header_bytes (header_of_mem m off) = mem_get m off 4"
  by (simp add: header_bytes_of_mem)

end
