(* ===== verification/Huc_Hostend.thy ===== *)
theory Huc_Hostend
  imports Huc_Msg "HOL-Library.Signed_Division"
begin

text \<open>
  The host-side tools of \<^verbatim>\<open>hostend/\<close>: \<^verbatim>\<open>injectByteCode\<close>, \<^verbatim>\<open>injectProgram\<close>,
  \<^verbatim>\<open>pinonsame\<close> and \<^verbatim>\<open>reset\<close>.  Each is a function from its command line and the
  outcomes of its library calls to the sequence of socket calls it makes and its exit
  code.  A read through an invalid payload pointer is a fault.
\<close>

named_theorems host_simps "definitions of the host tools"

section \<open>Calls, outcomes and results\<close>

record sockaddr_in =
  sin_port :: bytes
  sin_addr :: nat

datatype host_event =
    Connect sockaddr_in
  | SendBytes bytes
  | Nanosleep int int
  | CloseSock

text \<open>
  The outcomes of the library calls; \<open>hostinfo\<close> is the address that
  \<^verbatim>\<open>gethostbyname\<close> finds, \<open>malloc4 i\<close> whether the \<open>i\<close>-th allocation of a four-byte
  payload succeeds (the tools do not test it).
\<close>

record host_env =
  socket_ret :: int
  hostinfo :: "nat option"
  connect_ret :: int
  nanosleep_ret :: int
  malloc4 :: "nat \<Rightarrow> bool"

type_synonym host_run = "c_fault + host_event list \<times> int"

definition EXIT_SUCCESS :: int where [host_simps]: "EXIT_SUCCESS = 0"
definition EXIT_FAILURE :: int where [host_simps]: "EXIT_FAILURE = 1"

section \<open>Shared helpers\<close>

text \<open>\<^verbatim>\<open>htons\<close> as the two bytes in memory: network byte order is big-endian.\<close>

definition htons :: "u16 \<Rightarrow> bytes" where
  "htons p = rev (le16 p)"

text \<open>\<^verbatim>\<open>init_sockaddr\<close>; \<open>None\<close> is the exit when the host is unknown.\<close>

definition init_sockaddr :: "nat option \<Rightarrow> u16 \<Rightarrow> sockaddr_in option" where
  "init_sockaddr host port =
     (case host of None \<Rightarrow> None | Some a \<Rightarrow> Some \<lparr>sin_port = htons port, sin_addr = a\<rparr>)"

text \<open>
  \<^verbatim>\<open>send\<close> of \<open>n\<close> bytes through the payload pointer, and \<^verbatim>\<open>free\<close> of it.  The kernel
  answers a null buffer with \<^verbatim>\<open>EFAULT\<close>, which the tools ignore: nothing is sent.
\<close>

fun send_payload :: "payload_ptr \<Rightarrow> nat \<Rightarrow> c_fault + host_event list" where
  "send_payload PUninit n = Inl WildPointer"
| "send_payload PNull n = Inr []"
| "send_payload (PBlock bs) n = (if n \<le> length bs then Inr [SendBytes (take n bs)] else Inl OutOfBounds)"
| "send_payload PFreed n = Inl UseAfterFree"

fun free_payload :: "payload_ptr \<Rightarrow> c_fault + unit" where
  "free_payload PUninit = Inl WildPointer"
| "free_payload PNull = Inr ()"
| "free_payload (PBlock bs) = Inr ()"
| "free_payload PFreed = Inl DoubleFree"

definition send_bpf_injection_message :: "huc_msg_t \<Rightarrow> c_fault + host_event list" where
  "send_bpf_injection_message m =
     rbind (send_payload (payload m) (unat (payload_len (header m))))
       (\<lambda>es. Inr (SendBytes (header_bytes (header m)) # es))"

text \<open>What every tool does first: create the socket, resolve the host and connect.\<close>

definition with_connection :: "host_env \<Rightarrow> u16 \<Rightarrow> host_run \<Rightarrow> host_run" where
  "with_connection env port k =
     (if socket_ret env < 0 then Inr ([], EXIT_FAILURE)
      else case init_sockaddr (hostinfo env) port of
        None \<Rightarrow> Inr ([], EXIT_FAILURE)
      | Some servername \<Rightarrow>
          (if connect_ret env < 0 then Inr ([Connect servername], EXIT_FAILURE)
           else rbind k (\<lambda>(es, r). Inr (Connect servername # es, r))))"

text \<open>
  \<^verbatim>\<open>saveToFile\<close> (the same text in three tools): the result and the new file system.
  Opening for writing truncates the file; \<open>flushed\<close> is the prefix that reaches the file
  when a call fails.
\<close>

definition saveToFile ::
    "(string \<rightharpoonup> bytes) \<Rightarrow> string \<Rightarrow> bytes \<Rightarrow> nat \<Rightarrow> bool \<Rightarrow> nat \<Rightarrow> int \<Rightarrow> nat \<Rightarrow>
     int \<times> (string \<rightharpoonup> bytes)" where
  "saveToFile fs path buf len fopen_ok written fclose_ret flushed =
     (if \<not> fopen_ok then (1, fs)
      else if written \<noteq> len then (1, fs(path \<mapsto> take flushed buf))
      else if fclose_ret \<noteq> 0 then (1, fs(path \<mapsto> take flushed buf))
      else (0, fs(path \<mapsto> take len buf)))"

section \<open>injectByteCode\<close>

definition PORT_injectByteCode :: u16 where [host_simps]: "PORT_injectByteCode = 8888"

definition send_and_free :: "huc_msg_t \<Rightarrow> host_run" where
  "send_and_free m =
     rbind (send_bpf_injection_message m)
       (\<lambda>es. rbind (free_payload (payload m)) (\<lambda>_. Inr (es @ [CloseSock], 0)))"

definition injectByteCode_main ::
    "int \<Rightarrow> host_env \<Rightarrow> bytes option \<Rightarrow> bool \<Rightarrow> nat \<Rightarrow> u16 \<Rightarrow> host_run" where
  "injectByteCode_main argc env file malloc_ok stream_ok junk =
     (if argc \<le> 1 then Inr ([], EXIT_SUCCESS)
      else with_connection env PORT_injectByteCode
             (send_and_free (prepare_huc_message file malloc_ok stream_ok junk)))"

section \<open>injectProgram\<close>

definition PORT_bpf :: u16 where [host_simps]: "PORT_bpf = 9999"

definition injectProgram_main :: "host_env \<Rightarrow> bytes option \<Rightarrow> bool \<Rightarrow> nat \<Rightarrow> u16 \<Rightarrow> host_run" where
  "injectProgram_main env file malloc_ok stream_ok junk =
     rbind (prepare_bpf_injection_message file malloc_ok stream_ok junk)
       (\<lambda>m. with_connection env PORT_bpf (send_and_free m))"

section \<open>reset\<close>

definition command_header :: "u8 \<Rightarrow> huc_msg_header" where
  "command_header ty = \<lparr>version = DEFAULT_VERSION, msg_type = ty, payload_len = 4\<rparr>"

definition command_msg :: "bool \<Rightarrow> u8 \<Rightarrow> u8 \<Rightarrow> c_fault + huc_msg_t" where
  "command_msg malloc_ok ty fill =
     (if malloc_ok then Inr \<lparr>header = command_header ty, payload = PBlock (replicate 4 fill)\<rparr>
      else Inl NullDeref)"

definition reset_main :: "host_env \<Rightarrow> host_run" where
  "reset_main env =
     rbind (command_msg (malloc4 env 0) RESET 7) (\<lambda>m. with_connection env PORT_bpf (send_and_free m))"

section \<open>pinonsame\<close>

text \<open>\<^verbatim>\<open>atoi\<close>: optional blanks, an optional sign, then decimal digits; the value of a longer
  number than an \<^verbatim>\<open>int\<close> is undefined in C and is not used here.\<close>

definition is_space :: "char \<Rightarrow> bool" where
  "is_space c = (of_char c \<in> {9, 10, 11, 12, 13, 32 :: nat})"

definition is_digit :: "char \<Rightarrow> bool" where
  "is_digit c = (48 \<le> (of_char c :: nat) \<and> (of_char c :: nat) \<le> 57)"

definition digits_value :: "string \<Rightarrow> int" where
  "digits_value s = foldl (\<lambda>a c. a * 10 + (of_char c - 48)) 0 (takeWhile is_digit s)"

definition atoi :: "string \<Rightarrow> int" where
  "atoi s =
     (case dropWhile is_space s of
        [] \<Rightarrow> 0
      | c # r \<Rightarrow> (if c = CHR ''-'' then - digits_value r
                  else if c = CHR ''+'' then digits_value r
                  else digits_value (c # r)))"

definition ONE_SECOND_IN_NANOSECOND :: int where
  [host_simps]: "ONE_SECOND_IN_NANOSECOND = 1000000000"

text \<open>The 64-bit product of the source; C division truncates towards zero.\<close>

definition in_s64 :: "int \<Rightarrow> bool" where
  "in_s64 x = (- (2 ^ 63) \<le> x \<and> x < 2 ^ 63)"

definition serial_time :: "int \<Rightarrow> int \<Rightarrow> c_fault + int" where
  "serial_time test_duration_sec percentage =
     (let a = ONE_SECOND_IN_NANOSECOND * test_duration_sec; b = a * percentage
      in if in_s64 a \<and> in_s64 b then Inr (b sdiv 100) else Inl SignedOverflow)"

definition pinonsame_main :: "string list \<Rightarrow> host_env \<Rightarrow> host_run" where
  "pinonsame_main argv env =
     (if length argv \<noteq> 3 then Inr ([], -1)
      else if atoi (argv ! 1) \<le> 0 then Inr ([], 0)
      else rbind (command_msg (malloc4 env 0) PIN_ON_SAME 0) (\<lambda>m. with_connection env PORT_bpf
        (rbind (send_bpf_injection_message m) (\<lambda>pin.
         rbind (serial_time (atoi (argv ! 2)) (atoi (argv ! 1))) (\<lambda>t.
         let sleep = Nanosleep (t sdiv ONE_SECOND_IN_NANOSECOND) (t smod ONE_SECOND_IN_NANOSECOND)
         in if nanosleep_ret env < 0 then Inr (pin @ [sleep], -1)
            else rbind (command_msg (malloc4 env 1) RESET 7) (\<lambda>m.
                 rbind (send_bpf_injection_message m) (\<lambda>rst.
                 Inr (pin @ [sleep] @ rst @ [CloseSock], 0))))))))"

section \<open>The bytes a run puts on the socket\<close>

fun event_bytes :: "host_event \<Rightarrow> bytes" where
  "event_bytes (SendBytes bs) = bs"
| "event_bytes _ = []"

definition sent_bytes :: "host_run \<Rightarrow> bytes" where
  "sent_bytes r = (case r of Inl _ \<Rightarrow> [] | Inr (es, _) \<Rightarrow> concat (map event_bytes es))"

fun event_ports :: "host_event \<Rightarrow> bytes list" where
  "event_ports (Connect a) = [sin_port a]"
| "event_ports _ = []"

definition connect_ports :: "host_run \<Rightarrow> bytes list" where
  "connect_ports r =
     (case r of Inl _ \<Rightarrow> [] | Inr (es, _) \<Rightarrow> concat (map event_ports es))"

section \<open>What the tools send\<close>

lemma with_connection_ok:
  "0 \<le> socket_ret env \<Longrightarrow> hostinfo env = Some a \<Longrightarrow> 0 \<le> connect_ret env \<Longrightarrow>
   with_connection env port k =
     rbind k (\<lambda>(es, r). Inr (Connect \<lparr>sin_port = htons port, sin_addr = a\<rparr> # es, r))"
  by (simp add: with_connection_def init_sockaddr_def)

lemma prepare_huc_message_small:
  assumes "length content < 65536" "length content \<le> stream_ok"
  shows "prepare_huc_message (Some content) True stream_ok junk =
    \<lparr>header = \<lparr>version = DEFAULT_VERSION, msg_type = PROGRAM_INJECTION,
               payload_len = of_nat (length content)\<rparr>,
     payload = PBlock content\<rparr>"
  using assms by (simp add: prepare_huc_message_def fread_count_def unat_file_len)

lemma send_command_msg:
  "send_bpf_injection_message \<lparr>header = command_header ty, payload = PBlock (replicate 4 fill)\<rparr> =
     Inr [SendBytes (header_bytes (command_header ty)), SendBytes (replicate 4 fill)]"
  by (simp add: send_bpf_injection_message_def command_header_def)

lemma unat_len_mod: "unat (of_nat n :: u16) = n mod 65536"
  by (simp add: unat_of_nat)

lemma prepare_huc_message_read:
  assumes "length content mod 65536 \<le> stream_ok"
  shows "prepare_huc_message (Some content) True stream_ok junk =
    \<lparr>header = \<lparr>version = DEFAULT_VERSION, msg_type = PROGRAM_INJECTION,
               payload_len = of_nat (length content)\<rparr>,
     payload = PBlock (take (length content mod 65536) content)\<rparr>"
  using assms
  by (simp add: prepare_huc_message_def fread_count_def unat_len_mod min_def Let_def)

section \<open>Properties of the host tools\<close>

text \<open>C30. When its calls succeed, \<^verbatim>\<open>injectByteCode\<close> connects to port 8888, sends a
  header and then the file reduced to its length modulo 65536 (the 16-bit length field),
  closes the socket and exits with 0; the whole file is sent exactly when it is shorter
  than 65536 bytes.\<close>

theorem injectByteCode_sends_file:
  assumes "1 < argc" "0 \<le> socket_ret env" "hostinfo env = Some a" "0 \<le> connect_ret env"
    and "length content mod 65536 \<le> stream_ok"
  shows "injectByteCode_main argc env (Some content) True stream_ok junk =
      Inr ([Connect \<lparr>sin_port = htons 8888, sin_addr = a\<rparr>,
            SendBytes (header_bytes \<lparr>version = DEFAULT_VERSION, msg_type = PROGRAM_INJECTION,
                                     payload_len = of_nat (length content)\<rparr>),
            SendBytes (take (length content mod 65536) content), CloseSock], 0) \<and>
    (take (length content mod 65536) content = content \<longleftrightarrow> length content < 65536)"
proof -
  have "take (length content mod 65536) content = content \<longleftrightarrow> length content < 65536"
  proof -
    have "length content mod 65536 < 65536" by simp
    then have "length content \<le> length content mod 65536 \<longleftrightarrow> length content < 65536"
      using mod_less [of "length content" 65536] by linarith
    then show ?thesis by simp
  qed
  then show ?thesis
    using assms
    by (simp add: injectByteCode_main_def with_connection_ok prepare_huc_message_read
        send_and_free_def send_bpf_injection_message_def unat_len_mod PORT_injectByteCode_def)
qed

definition env_ok :: host_env where
  "env_ok = \<lparr>socket_ret = 3, hostinfo = Some 1, connect_ret = 0, nanosleep_ret = 0, malloc4 = (\<lambda>_. True)\<rparr>"

theorem injectByteCode_sends_file_witness:
  "injectByteCode_main 2 env_ok (Some [9, 8]) True 2 0 =
     Inr ([Connect \<lparr>sin_port = [34, 184], sin_addr = 1\<rparr>, SendBytes [1, 1, 2, 0],
           SendBytes [9, 8], CloseSock], 0)"
  using injectByteCode_sends_file [of 2 env_ok 1 "[9, 8]" 2 0]
  by (simp add: env_ok_def header_bytes_def le16_def htons_def msg_simps)

text \<open>C31. Once connected, \<^verbatim>\<open>injectByteCode\<close> goes wrong in two ways exactly: a file that
  cannot be opened leaves the payload pointer it sends from uninitialised, and a short read
  makes it send from and free a block it has already freed.\<close>

theorem injectByteCode_faults_iff:
  assumes "1 < argc" "0 \<le> socket_ret env" "hostinfo env = Some a" "0 \<le> connect_ret env"
  shows "injectByteCode_main argc env file malloc_ok stream_ok junk = Inl f \<longleftrightarrow>
    file = None \<and> f = WildPointer \<or>
    (\<exists>content. file = Some content \<and> malloc_ok \<and> stream_ok < length content mod 65536 \<and>
       f = UseAfterFree)"
proof (cases "file")
  case None
  then show ?thesis using assms
    by (auto simp: injectByteCode_main_def with_connection_ok prepare_huc_message_def
        send_and_free_def send_bpf_injection_message_def)
next
  case (Some content)
  have "length content mod 65536 \<le> length content" by simp
  then show ?thesis using assms Some
    by (auto simp: injectByteCode_main_def with_connection_ok prepare_huc_message_def
        send_and_free_def send_bpf_injection_message_def fread_count_def unat_len_mod Let_def min_def)
qed

theorem injectByteCode_faults_iff_witness:
  "injectByteCode_main 2 env_ok (Some [1, 2]) True 1 0 = Inl UseAfterFree"
  using injectByteCode_faults_iff [of 2 env_ok 1 "Some [1, 2]" True 1 0 UseAfterFree]
  by (simp add: env_ok_def)

lemma serial_time_value:
  assumes "0 \<le> d" "0 \<le> p" "ONE_SECOND_IN_NANOSECOND * d * p < 2 ^ 63" "0 < p"
  shows "serial_time d p = Inr (10000000 * d * p)"
proof -
  have "ONE_SECOND_IN_NANOSECOND * d * 1 \<le> ONE_SECOND_IN_NANOSECOND * d * p"
    using assms by (intro mult_left_mono) (simp_all add: ONE_SECOND_IN_NANOSECOND_def)
  moreover have "0 \<le> ONE_SECOND_IN_NANOSECOND * d" "0 \<le> ONE_SECOND_IN_NANOSECOND * d * p"
    using assms by (simp_all add: ONE_SECOND_IN_NANOSECOND_def)
  ultimately have "in_s64 (ONE_SECOND_IN_NANOSECOND * d)" "in_s64 (ONE_SECOND_IN_NANOSECOND * d * p)"
    using assms(3) by (auto simp: in_s64_def intro: order_trans [of _ 0])
  moreover have "(ONE_SECOND_IN_NANOSECOND * d * p) sdiv 100 = 10000000 * d * p"
  proof -
    have "ONE_SECOND_IN_NANOSECOND * d * p = (10000000 * d * p) * 100"
      by (simp add: ONE_SECOND_IN_NANOSECOND_def)
    moreover have "(x * 100) sdiv 100 = x" for x :: int
      by (simp add: signed_divide_int_def abs_mult sgn_mult mult_sgn_abs)
    ultimately show ?thesis by metis
  qed
  ultimately show ?thesis by (simp add: serial_time_def Let_def)
qed

lemma sdiv_smod_nonneg: "0 \<le> (t :: int) \<Longrightarrow> 0 < n \<Longrightarrow> t sdiv n = t div n \<and> t smod n = t mod n"
  by (cases "t = 0") (auto simp: signed_divide_int_def signed_modulo_int_def minus_div_mult_eq_mod)



lemma with_connection_ports:
  "connect_ports k = [] \<Longrightarrow> set (connect_ports (with_connection env port k)) \<subseteq> {htons port}"
  by (cases k)
     (auto simp: with_connection_def connect_ports_def init_sockaddr_def rbind_def split: option.splits)

lemma send_message_ports:
  "send_bpf_injection_message m = Inr es \<Longrightarrow> e \<in> set es \<Longrightarrow> \<exists>bs. e = SendBytes bs"
  by (cases "(payload m, unat (payload_len (header m)))" rule: send_payload.cases)
     (auto simp: send_bpf_injection_message_def split: if_splits)

lemma send_and_free_ports: "connect_ports (send_and_free m) = []"
  by (cases "send_bpf_injection_message m"; cases "free_payload (payload m)")
     (auto simp: send_and_free_def connect_ports_def dest!: send_message_ports)

lemma pinonsame_body_ports:
  "connect_ports (rbind (send_bpf_injection_message m) (\<lambda>pin.
     rbind t (\<lambda>t.
     let sleep = Nanosleep (f t) (g t)
     in if nanosleep_ret env < 0 then Inr (pin @ [sleep], -1)
        else rbind m' (\<lambda>m.
             rbind (send_bpf_injection_message m) (\<lambda>rst.
             Inr (pin @ [sleep] @ rst @ [CloseSock], 0)))))) = []"
proof -
  have es: "concat (map event_ports es) = []" if "send_bpf_injection_message m = Inr es" for m es
    by (auto dest!: send_message_ports [OF that])
  show ?thesis
  proof (cases "send_bpf_injection_message m")
    case (Inr pin)
    show ?thesis
      using es [OF Inr] Inr
      by (cases t; cases m'; cases "send_bpf_injection_message (projr m')")
         (auto simp: connect_ports_def Let_def dest: es)
  qed (simp add: connect_ports_def)
qed

end
