(* ===== verification/Hucdev.thy ===== *)
theory Hucdev
  imports Huc_Msg
begin

text \<open>
  The QEMU device of \<^verbatim>\<open>qemu-patch/hucdev.c\<close>.  The device state is a record; every call
  into QEMU or the kernel that has an effect (raising the interrupt line, watching a file
  descriptor, sending, setting an affinity) is appended to the trace of the state, and the
  result of every call that returns a value is a parameter: \<open>get_cpu\<close> for
  \<^verbatim>\<open>qemu_get_cpu\<close> (the thread id of the vCPU with an index, or none), \<open>recv\<close> for the
  socket, \<open>fresh\<close> for the contents of memory that \<^verbatim>\<open>CPU_ALLOC\<close> returns.  Output to
  stdout is not modelled.  The data buffer is a block of bytes, because the code reads it
  as 32-bit registers, as a message header and as raw payload.
\<close>

named_theorems dev_simps "constants of the device"

section \<open>Constants and state\<close>

definition HUCDEV_REG_MASK :: u64 where [dev_simps]: "HUCDEV_REG_MASK = 0xFF"
definition HUCDEV_BUF_MASK :: u64 where [dev_simps]: "HUCDEV_BUF_MASK = 0xFFFF"
definition HUCDEV_REG_STATUS_IRQ :: u64 where [dev_simps]: "HUCDEV_REG_STATUS_IRQ = 0"
definition HUCDEV_REG_RAISE_IRQ :: u64 where [dev_simps]: "HUCDEV_REG_RAISE_IRQ = 8"
definition HUCDEV_REG_LOW_IRQ :: u64 where [dev_simps]: "HUCDEV_REG_LOW_IRQ = 12"
definition HUCDEV_BUF_SIZE :: nat where [dev_simps]: "HUCDEV_BUF_SIZE = 65536"
definition HUCDEV_REG_END :: nat where [dev_simps]: "HUCDEV_REG_END = 92"
definition MAX_CPU :: nat where [dev_simps]: "MAX_CPU = 64"
definition SET_SIZE :: nat where [dev_simps]: "SET_SIZE = 8"
definition LISTEN_PORT :: u16 where [dev_simps]: "LISTEN_PORT = 8888"

definition regnames :: "string list" where
  [dev_simps]: "regnames = [''STATUS'', ''CTRL'', ''RAISE_IRQ'', ''LOWER_IRQ'']"

abbreviation BUF_BYTES :: nat where "BUF_BYTES \<equiv> HUCDEV_BUF_SIZE * 4"
abbreviation NR_IOREGS :: nat where "NR_IOREGS \<equiv> HUCDEV_REG_END div 4"

datatype fd_handler = NoHandler | ListenHandler | AcceptHandler

datatype dev_event =
    PciSetIrq bool
  | SetFdHandler int fd_handler
  | SendTo int bytes
  | SchedSetAffinity int nat u64
  | InterruptPin nat
  | RegisterBar nat nat
  | BindPort int u16
  | ListenOn int
  | MsiUninit
  | CloseFd int

record HucState =
  ioregs :: "u32 list"
  buf :: "mem option"
  irq_status :: u32
  hyperthreading_remapping :: bool
  listen_fd :: int
  connect_fd :: int
  trace :: "dev_event list"

definition emit :: "dev_event \<Rightarrow> HucState \<Rightarrow> HucState" where
  "emit e s = s\<lparr>trace := trace s @ [e]\<rparr>"

text \<open>A QOM instance starts zeroed.\<close>

definition huc_instance_init :: HucState where
  "huc_instance_init =
     \<lparr>ioregs = replicate NR_IOREGS 0, buf = None, irq_status = 0,
      hyperthreading_remapping = False, listen_fd = 0, connect_fd = 0, trace = []\<rparr>"

section \<open>Access to the arrays of the state\<close>

definition buf_at :: "nat \<Rightarrow> nat \<Rightarrow> HucState \<Rightarrow> c_fault + mem" where
  "buf_at off n s =
     (case buf s of None \<Rightarrow> Inl NullDeref
      | Some m \<Rightarrow> if off + n \<le> BUF_BYTES then Inr m else Inl OutOfBounds)"

definition buf_store :: "nat \<Rightarrow> bytes \<Rightarrow> HucState \<Rightarrow> c_fault + HucState" where
  "buf_store off bs s =
     rbind (buf_at off (length bs) s) (\<lambda>m. Inr (s\<lparr>buf := Some (mem_put m off bs)\<rparr>))"

definition ioreg_at :: "u32 \<Rightarrow> HucState \<Rightarrow> c_fault + u32" where
  "ioreg_at i s = (if unat i < length (ioregs s) then Inr (ioregs s ! unat i) else Inl OutOfBounds)"

definition ioreg_store :: "u32 \<Rightarrow> u32 \<Rightarrow> HucState \<Rightarrow> c_fault + HucState" where
  "ioreg_store i v s =
     (if unat i < length (ioregs s) then Inr (s\<lparr>ioregs := (ioregs s)[unat i := v]\<rparr>)
      else Inl OutOfBounds)"

text \<open>\<^verbatim>\<open>index = addr >> 2\<close>, with the conversion from \<^verbatim>\<open>hwaddr\<close> to \<^verbatim>\<open>unsigned int\<close>.\<close>

definition word_index :: "u64 \<Rightarrow> u32" where
  "word_index addr = ucast (drop_bit 2 addr)"

section \<open>Interrupts\<close>

definition hucdev_raise_irq :: "HucState \<Rightarrow> u32 \<Rightarrow> HucState" where
  "hucdev_raise_irq s v =
     (let s = s\<lparr>irq_status := irq_status s OR v\<rparr>
      in if irq_status s \<noteq> 0 then emit (PciSetIrq True) s else s)"

definition hucdev_lower_irq :: "HucState \<Rightarrow> u32 \<Rightarrow> HucState" where
  "hucdev_lower_irq s v =
     (let s = s\<lparr>irq_status := irq_status s AND NOT v\<rparr>
      in if irq_status s = 0 then emit (PciSetIrq False) s else s)"

section \<open>The register BAR\<close>

definition hucdev_io_read :: "HucState \<Rightarrow> u64 \<Rightarrow> u32 \<Rightarrow> c_fault + u64" where
  "hucdev_io_read s addr sz =
     (let addr = addr AND HUCDEV_REG_MASK; index = word_index addr
      in if of_nat HUCDEV_REG_END \<le> addr then Inr 0
         else if addr = HUCDEV_REG_STATUS_IRQ then Inr (ucast (irq_status s))
         else rbind (ioreg_at index s) (\<lambda>v. Inr (ucast v)))"

definition hucdev_io_write :: "HucState \<Rightarrow> u64 \<Rightarrow> u64 \<Rightarrow> u32 \<Rightarrow> c_fault + HucState" where
  "hucdev_io_write s addr val sz =
     (let addr = addr AND HUCDEV_REG_MASK; index = word_index addr
      in if of_nat HUCDEV_REG_END \<le> addr then Inr s
         else if \<not> unat index < length regnames then Inl AssertFailed
         else if addr = HUCDEV_REG_RAISE_IRQ then Inr (hucdev_raise_irq s (ucast val))
         else if addr = HUCDEV_REG_LOW_IRQ then Inr (hucdev_lower_irq s (ucast val))
         else ioreg_store index (ucast val) s)"

text \<open>The two \<^verbatim>\<open>MemoryRegionOps\<close> fix the access size that QEMU hands to the handlers.\<close>

definition hucdev_io_ops_access_size :: u32 where
  "hucdev_io_ops_access_size = 4"

definition hucdev_ops_access_size :: u32 where
  "hucdev_ops_access_size = 4"

section \<open>The loop over the vCPUs\<close>

text \<open>
  \<^verbatim>\<open>cpu = qemu_get_cpu(i); while (cpu != NULL) { ...; i++; cpu = qemu_get_cpu(i); }\<close>
  occurs five times.  Whether it ends depends on \<open>get_cpu\<close>; a loop that does not end
  is the value \<open>None\<close>, and \<open>NoReturn\<close> for the handler around it.
\<close>

partial_function (option) vcpu_loop ::
    "(nat \<Rightarrow> int option) \<Rightarrow> (nat \<Rightarrow> int \<Rightarrow> 's \<Rightarrow> 's) \<Rightarrow> nat \<Rightarrow> 's \<Rightarrow> (nat \<times> 's) option" where
  "vcpu_loop get_cpu body i s =
     (case get_cpu i of None \<Rightarrow> Some (i, s)
      | Some thread_id \<Rightarrow> vcpu_loop get_cpu body (Suc i) (body i thread_id s))"

definition for_each_vcpu ::
    "(nat \<Rightarrow> int option) \<Rightarrow> (nat \<Rightarrow> int \<Rightarrow> 's \<Rightarrow> 's) \<Rightarrow> 's \<Rightarrow> c_fault + nat \<times> 's" where
  "for_each_vcpu get_cpu body s =
     (case vcpu_loop get_cpu body 0 s of None \<Rightarrow> Inl NoReturn | Some r \<Rightarrow> Inr r)"

text \<open>\<^verbatim>\<open>CPU_ISSET_S\<close> on a set of \<^verbatim>\<open>SET_SIZE\<close> bytes.\<close>

definition CPU_ISSET_S :: "nat \<Rightarrow> u64 \<Rightarrow> bool" where
  "CPU_ISSET_S cpu cset = (cpu div 8 < SET_SIZE \<and> bit cset cpu)"

section \<open>The buffer BAR\<close>

definition hucdev_bufmmio_read :: "HucState \<Rightarrow> u64 \<Rightarrow> u32 \<Rightarrow> c_fault + u64" where
  "hucdev_bufmmio_read s addr sz =
     (let addr = addr AND HUCDEV_BUF_MASK; index = word_index addr
      in if of_nat BUF_BYTES < addr + ucast sz then Inr 0
         else if index = 0 then Inr (ucast (irq_status s))
         else rbind (buf_at (4 * unat index) 4 s) (\<lambda>m. Inr (ucast (load32 m (4 * unat index)))))"

definition doorbell :: "HucState \<Rightarrow> c_fault + HucState" where
  "doorbell s =
     rbind (buf_at 16 header_size s) (\<lambda>m.
     let n = unat (payload_len (header_of_mem m 16));
         s = emit (SendTo (connect_fd s) (mem_get m 16 header_size)) s
     in rbind (buf_at 20 n s) (\<lambda>m.
        buf_store 8 (le32 0) (emit (SendTo (connect_fd s) (mem_get m 20 n)) s)))"

definition set_vcpu_affinity :: "(nat \<Rightarrow> int option) \<Rightarrow> u64 \<Rightarrow> HucState \<Rightarrow> c_fault + HucState" where
  "set_vcpu_affinity get_cpu value s =
     rbind (for_each_vcpu get_cpu
         (\<lambda>vCPU_count thread_id s.
            if CPU_ISSET_S vCPU_count value
            then emit (SchedSetAffinity thread_id SET_SIZE value) s else s) s)
       (\<lambda>(vCPU_count, s). Inr s)"

definition hucdev_bufmmio_write ::
    "(nat \<Rightarrow> int option) \<Rightarrow> HucState \<Rightarrow> u64 \<Rightarrow> u64 \<Rightarrow> u32 \<Rightarrow> c_fault + HucState" where
  "hucdev_bufmmio_write get_cpu s addr val sz =
     (let addr = addr AND HUCDEV_BUF_MASK; index = word_index addr
      in if of_nat BUF_BYTES < addr + ucast sz then Inr s
         else if index = 0 then Inr (hucdev_raise_irq s (ucast val))
         else if index = 1 then Inr (hucdev_lower_irq s (ucast val))
         else if index = 2 then doorbell s
         else if index = 3 then set_vcpu_affinity get_cpu val s
         else buf_store (4 * unat index) (le32 (ucast val)) s)"

section \<open>Sockets\<close>

text \<open>\<^verbatim>\<open>make_socket\<close>: the results of \<^verbatim>\<open>socket\<close> and \<^verbatim>\<open>bind\<close> are parameters.\<close>

definition make_socket :: "int \<Rightarrow> int \<Rightarrow> u16 \<Rightarrow> HucState \<Rightarrow> int \<times> HucState" where
  "make_socket sock bind_ret port s =
     (if sock < 0 then (-1, s)
      else let s = emit (BindPort sock port) s
           in if bind_ret < 0 then (-1, s) else (sock, s))"

definition handle_listenfd :: "int \<Rightarrow> HucState \<Rightarrow> HucState" where
  "handle_listenfd accept_ret s =
     (let s = s\<lparr>connect_fd := accept_ret\<rparr>;
          s = emit (SetFdHandler (connect_fd s) AcceptHandler) s
      in emit (SetFdHandler (listen_fd s) NoHandler) s)"

text \<open>
  \<^verbatim>\<open>recv(fd, hucdev->buf + off, n, 0)\<close>: the peer state \<open>net\<close> decides what arrives.  The
  result is the return value, the device and the peer afterwards.
\<close>

datatype recv_res = RecvErr | RecvBytes bytes

definition recv_into ::
    "('n \<Rightarrow> nat \<Rightarrow> recv_res \<times> 'n) \<Rightarrow> nat \<Rightarrow> nat \<Rightarrow> HucState \<Rightarrow> 'n \<Rightarrow>
     c_fault + int \<times> HucState \<times> 'n" where
  "recv_into recv off n s net =
     (case recv net n of
        (RecvErr, net') \<Rightarrow> Inr (-1, s, net')
      | (RecvBytes bs, net') \<Rightarrow>
          rbind (buf_store off (take n bs) s)
            (\<lambda>s'. Inr (int (length (take n bs)), s', net')))"

definition close_connection :: "HucState \<Rightarrow> HucState" where
  "close_connection s =
     (let s = emit (SetFdHandler (connect_fd s) NoHandler) s;
          s = s\<lparr>connect_fd := -1\<rparr>
      in emit (SetFdHandler (listen_fd s) ListenHandler) s)"

text \<open>The loop of \<^verbatim>\<open>RESET\<close> and of \<^verbatim>\<open>PIN_ON_SAME\<close>: one affinity for every vCPU.\<close>

definition pin_all_vcpus :: "(nat \<Rightarrow> int option) \<Rightarrow> u64 \<Rightarrow> HucState \<Rightarrow> c_fault + HucState" where
  "pin_all_vcpus get_cpu cset s =
     rbind (for_each_vcpu get_cpu
         (\<lambda>vCPU_count thread_id s. emit (SchedSetAffinity thread_id SET_SIZE cset) s) s)
       (\<lambda>(vCPU_count, s). Inr s)"

definition dispatch_message :: "(nat \<Rightarrow> int option) \<Rightarrow> u64 \<Rightarrow> u8 \<Rightarrow> HucState \<Rightarrow> c_fault + HucState" where
  "dispatch_message get_cpu fresh ty s =
     (if ty = PROGRAM_INJECTION then
        rbind (for_each_vcpu get_cpu (\<lambda>i thread_id s. s)
                 (hucdev_raise_irq s (ucast PROGRAM_INJECTION))) (\<lambda>(i, s). Inr s)
      else if ty = PROGRAM_INJECTION_RESULT then Inr s
      else if ty = PROGRAM_INJECTION_AFFINITY then
        rbind (for_each_vcpu get_cpu (\<lambda>i thread_id s. s) s) (\<lambda>(vCPU_count, s).
        rbind (buf_store 22 (le16 (of_nat vCPU_count)) s) (\<lambda>s.
        Inr (hucdev_raise_irq s (ucast PROGRAM_INJECTION_AFFINITY))))
      else if ty = RESET then pin_all_vcpus get_cpu 0xFFFFFFFF s
      else if ty = PIN_ON_SAME then pin_all_vcpus get_cpu (set_bit 0 fresh) s
      else if ty = HT_REMAPPING then
        Inr (s\<lparr>hyperthreading_remapping := \<not> hyperthreading_remapping s\<rparr>)
      else Inr s)"

definition handle_acceptfd ::
    "('n \<Rightarrow> nat \<Rightarrow> recv_res \<times> 'n) \<Rightarrow> (nat \<Rightarrow> int option) \<Rightarrow> u64 \<Rightarrow> HucState \<Rightarrow> 'n \<Rightarrow>
     c_fault + HucState \<times> 'n" where
  "handle_acceptfd recv get_cpu fresh s net =
     rbind (recv_into recv 16 header_size s net) (\<lambda>(len, s, net).
     if len \<le> 0 then Inr (close_connection s, net)
     else
       rbind (buf_at 16 header_size s) (\<lambda>m.
       rbind (recv_into recv 20 (unat (payload_len (header_of_mem m 16))) s net) (\<lambda>(len, s, net).
       rbind (buf_at 16 header_size s) (\<lambda>m.
       rbind (dispatch_message get_cpu fresh (msg_type (header_of_mem m 16)) s) (\<lambda>s.
       Inr (s, net))))))"

section \<open>Life cycle\<close>

record realize_env =
  re_msi :: int
  re_malloc :: "mem option"
  re_socket :: int
  re_bind :: int
  re_listen :: int

definition huc_realize :: "realize_env \<Rightarrow> HucState \<Rightarrow> HucState" where
  "huc_realize env s =
     (let s = emit (InterruptPin 1) s in
      if re_msi env \<noteq> 0 then s else
      let s = emit (RegisterBar 0 (unat HUCDEV_REG_MASK + 1)) s;
          s = emit (RegisterBar 1 BUF_BYTES) s;
          s = s\<lparr>buf := re_malloc env\<rparr>
      in if re_malloc env = None then s else
      let s = s\<lparr>hyperthreading_remapping := False, listen_fd := -1, connect_fd := -1\<rparr>;
          (fd, s) = make_socket (re_socket env) (re_bind env) LISTEN_PORT s;
          s = s\<lparr>listen_fd := fd\<rparr>
      in if listen_fd s < 0 then s
         else let s = emit (ListenOn (listen_fd s)) s
              in if re_listen env < 0 then s
                 else emit (SetFdHandler (listen_fd s) ListenHandler) s)"

definition hucdev_uninit :: "HucState \<Rightarrow> HucState" where
  "hucdev_uninit s =
     (let s = emit MsiUninit s
      in if listen_fd s \<noteq> -1
         then emit (CloseFd (listen_fd s)) (emit (SetFdHandler (listen_fd s) NoHandler) s)
         else s)"

section \<open>Observations\<close>

text \<open>
  Two things QEMU keeps outside the device, read off its trace: the level of the interrupt
  line and the handler watched for each file descriptor.
\<close>

fun irq_upd :: "bool \<Rightarrow> dev_event \<Rightarrow> bool" where
  "irq_upd l (PciSetIrq b) = b"
| "irq_upd l _ = l"

fun watch_upd :: "(int \<Rightarrow> fd_handler) \<Rightarrow> dev_event \<Rightarrow> int \<Rightarrow> fd_handler" where
  "watch_upd w (SetFdHandler fd h) = w(fd := h)"
| "watch_upd w _ = w"

definition irq_line :: "dev_event list \<Rightarrow> bool" where
  "irq_line es = foldl irq_upd False es"

definition fd_watch :: "dev_event list \<Rightarrow> int \<Rightarrow> fd_handler" where
  "fd_watch es = foldl watch_upd (\<lambda>_. NoHandler) es"

definition huc_wf :: "HucState \<Rightarrow> bool" where
  "huc_wf s \<longleftrightarrow> length (ioregs s) = NR_IOREGS \<and> buf s \<noteq> None"

definition irq_inv :: "HucState \<Rightarrow> bool" where
  "irq_inv s \<longleftrightarrow> irq_line (trace s) = (irq_status s \<noteq> 0)"

text \<open>What \<^verbatim>\<open>qemu_get_cpu\<close> guarantees: the vCPUs have the indices \<open>0..<length tids\<close>.\<close>

definition cpus_are :: "(nat \<Rightarrow> int option) \<Rightarrow> int list \<Rightarrow> bool" where
  "cpus_are get_cpu tids \<longleftrightarrow>
     (\<forall>i. get_cpu i = (if i < length tids then Some (tids ! i) else None))"

definition cpu_of :: "int list \<Rightarrow> nat \<Rightarrow> int option" where
  "cpu_of tids i = (if i < length tids then Some (tids ! i) else None)"

lemma cpus_are_cpu_of [simp]: "cpus_are (cpu_of tids) tids"
  by (simp add: cpus_are_def cpu_of_def)

lemma irq_line_append [simp]: "irq_line (es @ es') = foldl irq_upd (irq_line es) es'"
  by (simp add: irq_line_def)

lemma fd_watch_append [simp]: "fd_watch (es @ es') = foldl watch_upd (fd_watch es) es'"
  by (simp add: fd_watch_def)

lemma emit_simps [simp]:
  "ioregs (emit e s) = ioregs s" "buf (emit e s) = buf s" "irq_status (emit e s) = irq_status s"
  "hyperthreading_remapping (emit e s) = hyperthreading_remapping s"
  "listen_fd (emit e s) = listen_fd s" "connect_fd (emit e s) = connect_fd s"
  "trace (emit e s) = trace s @ [e]"
  by (simp_all add: emit_def)

lemma buf_at_wf: "huc_wf s \<Longrightarrow> off + n \<le> BUF_BYTES \<Longrightarrow> buf_at off n s = Inr (the (buf s))"
  by (auto simp: buf_at_def huc_wf_def)

lemma buf_store_wf:
  "huc_wf s \<Longrightarrow> off + length bs \<le> BUF_BYTES \<Longrightarrow>
   buf_store off bs s = Inr (s\<lparr>buf := Some (mem_put (the (buf s)) off bs)\<rparr>)"
  by (simp add: buf_store_def buf_at_wf)

section \<open>Decoding of addresses\<close>

lemma and_reg_mask: "addr AND HUCDEV_REG_MASK = take_bit 8 addr"
  by (simp add: HUCDEV_REG_MASK_def take_bit_eq_mask mask_eq_exp_minus_1)

lemma and_buf_mask: "addr AND HUCDEV_BUF_MASK = take_bit 16 addr"
  by (simp add: HUCDEV_BUF_MASK_def take_bit_eq_mask mask_eq_exp_minus_1)

lemma unat_and_reg_mask: "unat (addr AND HUCDEV_REG_MASK) = unat addr mod 256"
  by (simp add: and_reg_mask unsigned_take_bit_eq) (simp add: take_bit_eq_mod)

lemma unat_and_buf_mask: "unat (addr AND HUCDEV_BUF_MASK) = unat addr mod 65536"
  by (simp add: and_buf_mask unsigned_take_bit_eq) (simp add: take_bit_eq_mod)

lemma unat_word_index:
  assumes "unat (a :: u64) < 65536"
  shows "unat (word_index a) = unat a div 4"
proof -
  have "unat (drop_bit 2 a) = drop_bit 2 (unat a)"
    by (rule unat_drop_bit_eq)
  then have "unat (drop_bit 2 a) = unat a div 4"
    by (simp only: drop_bit_eq_div) simp
  then show ?thesis using assms
    by (simp only: word_index_def unsigned_ucast_eq take_bit_eq_mod) simp
qed

lemma word_end_bound: "(m :: nat) < 65536 \<Longrightarrow> 4 * (m div 4) + 3 < 65536"
  by presburger

lemma buf_index:
  "unat (word_index (addr AND HUCDEV_BUF_MASK)) = unat addr mod 65536 div 4"
  by (subst unat_word_index) (simp_all add: unat_and_buf_mask)

lemma reg_index:
  "unat (word_index (addr AND HUCDEV_REG_MASK)) = unat addr mod 256 div 4"
proof -
  have "unat addr mod 256 < 65536" by (rule less_trans [of _ 256]) simp_all
  then show ?thesis by (subst unat_word_index) (simp_all add: unat_and_reg_mask)
qed

lemma addr_plus_size:
  "unat ((addr AND HUCDEV_BUF_MASK) + ucast (sz :: u32)) = unat addr mod 65536 + unat sz"
proof -
  have less: "unat sz < 2 ^ LENGTH(32)"
    by (rule unsigned_less)
  then have "unat (ucast sz :: u64) = unat sz"
    by (simp only: unsigned_ucast_eq take_bit_eq_mod) simp
  moreover have "unat addr mod 65536 < 65536" by simp
  ultimately show ?thesis using less
    by (simp add: unat_word_ariths unat_and_buf_mask)
qed

lemma buf_access_in_range:
  "unat sz \<le> 4 \<Longrightarrow> \<not> of_nat BUF_BYTES < (addr AND HUCDEV_BUF_MASK) + ucast (sz :: u32)"
  using addr_plus_size [of addr sz] mod_less_divisor [of 65536 "unat addr"]
  by (simp add: word_less_nat_alt HUCDEV_BUF_SIZE_def)

lemma buf_index_eq: "word_index (addr AND HUCDEV_BUF_MASK) = of_nat k \<longleftrightarrow>
    unat addr mod 65536 div 4 = k" if "k < 16384"
  using that by (simp add: word_unat_eq_iff buf_index unat_of_nat)

section \<open>The vCPU loop returns\<close>

lemma vcpu_loop_cpus_are:
  assumes "cpus_are get_cpu tids" "i \<le> length tids"
  shows "vcpu_loop get_cpu body i s =
    Some (length tids, foldl (\<lambda>s j. body j (tids ! j) s) s [i..<length tids])"
  using assms(2)
proof (induction "length tids - i" arbitrary: i s)
  case 0
  with assms(1) show ?case
    by (subst vcpu_loop.simps) (simp add: cpus_are_def)
next
  case (Suc n)
  then have "i < length tids" by simp
  with assms(1) Suc show ?case
    by (subst vcpu_loop.simps) (simp add: cpus_are_def upt_conv_Cons)
qed

lemma for_each_vcpu_cpus_are:
  "cpus_are get_cpu tids \<Longrightarrow> for_each_vcpu get_cpu body s =
     Inr (length tids, foldl (\<lambda>s j. body j (tids ! j) s) s [0..<length tids])"
  by (simp add: for_each_vcpu_def vcpu_loop_cpus_are)

lemma vcpu_loop_preserves:
  assumes ret: "vcpu_loop get_cpu body i s = Some (n, s')"
    and step: "\<And>i t s. P s \<Longrightarrow> P (body i t s)" and start: "P s"
  shows "P s'"
proof -
  have "(\<forall>i t s. P s \<longrightarrow> P (body i t s)) \<longrightarrow> P s \<longrightarrow> P (snd (n, s'))"
  proof (rule vcpu_loop.raw_induct
      [where P = "\<lambda>g b i s r. (\<forall>i t s. P s \<longrightarrow> P (b i t s)) \<longrightarrow> P s \<longrightarrow> P (snd r)", OF _ ret])
    fix f g b i s r
    assume IH: "\<And>g b i s r. f g b i s = Some r \<Longrightarrow>
        (\<forall>i t s. P s \<longrightarrow> P (b i t s)) \<longrightarrow> P s \<longrightarrow> P (snd r)"
      and eq: "(case g i of None \<Rightarrow> Some (i, s) | Some t \<Rightarrow> f g b (Suc i) (b i t s)) = Some r"
    show "(\<forall>i t s. P s \<longrightarrow> P (b i t s)) \<longrightarrow> P s \<longrightarrow> P (snd r)"
      using eq IH by (cases "g i") auto
  qed
  with step start show ?thesis by simp
qed

lemma for_each_vcpu_preserves:
  assumes "for_each_vcpu get_cpu body s = Inr (n, s')"
    and "\<And>i t s. P s \<Longrightarrow> P (body i t s)" and "P s"
  shows "P s'"
  using assms vcpu_loop_preserves [of get_cpu body 0 s n s' P]
  by (auto simp: for_each_vcpu_def split: option.splits)

lemma foldl_emit_if:
  "foldl (\<lambda>s j. if p j then emit (e j) s else s) s js =
     s\<lparr>trace := trace s @ map e (filter p js)\<rparr>"
  by (induction js arbitrary: s) (simp_all add: emit_def)

lemma foldl_emit: "foldl (\<lambda>s j. emit (e j) s) s js = s\<lparr>trace := trace s @ map e js\<rparr>"
  by (induction js arbitrary: s) (simp_all add: emit_def)

lemma map_over_indices: "map (\<lambda>j. f (xs ! j)) [0..<length xs] = map f xs"
  by (rule nth_equalityI) auto

lemma set_vcpu_affinity_cpus_are:
  "cpus_are get_cpu tids \<Longrightarrow> set_vcpu_affinity get_cpu value s =
     Inr (s\<lparr>trace := trace s @ map (\<lambda>j. SchedSetAffinity (tids ! j) SET_SIZE value)
                                    (filter (\<lambda>j. CPU_ISSET_S j value) [0..<length tids])\<rparr>)"
  by (simp add: set_vcpu_affinity_def for_each_vcpu_cpus_are foldl_emit_if)

lemma pin_all_vcpus_cpus_are:
  "cpus_are get_cpu tids \<Longrightarrow> pin_all_vcpus get_cpu cset s =
     Inr (s\<lparr>trace := trace s @ map (\<lambda>t. SchedSetAffinity t SET_SIZE cset) tids\<rparr>)"
  using map_over_indices [of "\<lambda>t. SchedSetAffinity t SET_SIZE cset" tids]
  by (simp add: pin_all_vcpus_def for_each_vcpu_cpus_are foldl_emit)

section \<open>The operations in closed form\<close>

lemma hucdev_bufmmio_read_eq:
  assumes "huc_wf s" "unat sz \<le> 4"
  shows "hucdev_bufmmio_read s addr sz =
    Inr (if unat addr mod 65536 div 4 = 0 then ucast (irq_status s)
         else ucast (load32 (the (buf s)) (4 * (unat addr mod 65536 div 4))))"
proof -
  have "4 * (unat addr mod 65536 div 4) + 4 \<le> BUF_BYTES"
    using mod_less_divisor [of 65536 "unat addr"] by (simp add: HUCDEV_BUF_SIZE_def)
  then show ?thesis
    using assms buf_access_in_range [of sz addr] buf_index_eq [of 0 addr]
    by (simp add: hucdev_bufmmio_read_def Let_def buf_index buf_at_wf del: mult_Suc_right)
qed

lemma hucdev_bufmmio_write_eq:
  assumes "unat sz \<le> 4"
  shows "hucdev_bufmmio_write get_cpu s addr val sz =
    (let i = unat addr mod 65536 div 4 in
     if i = 0 then Inr (hucdev_raise_irq s (ucast val))
     else if i = 1 then Inr (hucdev_lower_irq s (ucast val))
     else if i = 2 then doorbell s
     else if i = 3 then set_vcpu_affinity get_cpu val s
     else buf_store (4 * i) (le32 (ucast val)) s)"
  using assms buf_access_in_range [of sz addr] buf_index_eq [of 0 addr] buf_index_eq [of 1 addr]
    buf_index_eq [of 2 addr] buf_index_eq [of 3 addr]
  by (simp add: hucdev_bufmmio_write_def Let_def buf_index)

lemma doorbell_eq:
  assumes "huc_wf s"
  shows "doorbell s =
    (let m = the (buf s); n = unat (payload_len (header_of_mem m 16)) in
     Inr (s\<lparr>buf := Some (mem_put m 8 (le32 0)),
            trace := trace s @ [SendTo (connect_fd s) (mem_get m 16 4),
                                SendTo (connect_fd s) (mem_get m 20 n)]\<rparr>))"
proof -
  let ?n = "unat (payload_len (header_of_mem (the (buf s)) 16))"
  have "?n < 2 ^ LENGTH(16)" by (rule unsigned_less)
  then have n: "20 + ?n \<le> BUF_BYTES" by (simp add: HUCDEV_BUF_SIZE_def)
  have wf: "huc_wf (emit e s)" for e using assms by (simp add: huc_wf_def)
  have wf2: "huc_wf (emit e (emit e' s))" for e e' using assms by (simp add: huc_wf_def)
  have "buf_at 16 4 s = Inr (the (buf s))"
    using assms by (simp add: buf_at_wf HUCDEV_BUF_SIZE_def)
  moreover have "buf_at 20 ?n (emit e s) = Inr (the (buf s))" for e
    using buf_at_wf [OF wf n] by simp
  moreover have "buf_store 8 (le32 0) (emit e (emit e' s)) =
      Inr ((emit e (emit e' s))\<lparr>buf := Some (mem_put (the (buf s)) 8 (le32 0))\<rparr>)" for e e'
    using buf_store_wf [OF wf2, of 8 "le32 0"] by (simp add: HUCDEV_BUF_SIZE_def)
  ultimately show ?thesis
    by (simp add: doorbell_def Let_def emit_def)
qed

section \<open>What every operation keeps\<close>

definition dev_frame :: "HucState \<Rightarrow> HucState \<Rightarrow> bool" where
  "dev_frame s s' \<longleftrightarrow> (huc_wf s \<longrightarrow> huc_wf s') \<and> (irq_inv s \<longrightarrow> irq_inv s') \<and>
     listen_fd s' = listen_fd s \<and> connect_fd s' = connect_fd s \<and>
     fd_watch (trace s') = fd_watch (trace s)"

named_theorems dev_frame_intros "operations that keep the frame"

lemma dev_frame_refl [simp, dev_frame_intros]: "dev_frame s s"
  by (simp add: dev_frame_def)

lemma dev_frame_trans: "dev_frame s s' \<Longrightarrow> dev_frame s' s'' \<Longrightarrow> dev_frame s s''"
  by (auto simp: dev_frame_def)

lemma dev_frame_emit [dev_frame_intros]:
  "(\<And>b. e \<noteq> PciSetIrq b) \<Longrightarrow> (\<And>fd h. e \<noteq> SetFdHandler fd h) \<Longrightarrow> dev_frame s (emit e s)"
  by (cases e) (auto simp: dev_frame_def huc_wf_def irq_inv_def)

lemma dev_frame_raise [dev_frame_intros]: "dev_frame s (hucdev_raise_irq s v)"
  by (auto simp: dev_frame_def hucdev_raise_irq_def huc_wf_def irq_inv_def Let_def)

lemma dev_frame_lower [dev_frame_intros]: "dev_frame s (hucdev_lower_irq s v)"
  by (auto simp: dev_frame_def hucdev_lower_irq_def huc_wf_def irq_inv_def Let_def)

lemma dev_frame_buf_store [dev_frame_intros]: "buf_store off bs s = Inr s' \<Longrightarrow> dev_frame s s'"
  by (auto simp: buf_store_def buf_at_def dev_frame_def huc_wf_def irq_inv_def
      split: option.splits if_splits)

lemma dev_frame_ioreg_store [dev_frame_intros]: "ioreg_store i v s = Inr s' \<Longrightarrow> dev_frame s s'"
  by (auto simp: ioreg_store_def dev_frame_def huc_wf_def irq_inv_def split: if_splits)

lemma dev_frame_for_each [dev_frame_intros]:
  assumes "for_each_vcpu get_cpu body s = Inr (n, s')" "\<And>i t s. dev_frame s (body i t s)"
  shows "dev_frame s s'"
  using assms(1)
  by (rule for_each_vcpu_preserves [where P = "dev_frame s"]) (auto intro: dev_frame_trans assms(2))

lemma dev_frame_set_vcpu_affinity [dev_frame_intros]:
  assumes "set_vcpu_affinity get_cpu value s = Inr s'"
  shows "dev_frame s s'"
proof -
  from assms obtain n where "for_each_vcpu get_cpu (\<lambda>vCPU_count thread_id s.
      if CPU_ISSET_S vCPU_count value
      then emit (SchedSetAffinity thread_id SET_SIZE value) s else s) s = Inr (n, s')"
    by (auto simp: set_vcpu_affinity_def rbind_eq_Inr)
  then show ?thesis by (rule dev_frame_for_each) (simp add: dev_frame_emit)
qed

lemma dev_frame_pin_all_vcpus [dev_frame_intros]:
  assumes "pin_all_vcpus get_cpu cset s = Inr s'"
  shows "dev_frame s s'"
proof -
  from assms obtain n where "for_each_vcpu get_cpu (\<lambda>vCPU_count thread_id s.
      emit (SchedSetAffinity thread_id SET_SIZE cset) s) s = Inr (n, s')"
    by (auto simp: pin_all_vcpus_def rbind_eq_Inr)
  then show ?thesis by (rule dev_frame_for_each) (simp add: dev_frame_emit)
qed

lemma dev_frame_doorbell [dev_frame_intros]:
  assumes "doorbell s = Inr s'"
  shows "dev_frame s s'"
proof -
  from assms obtain b b' where "buf_store 8 (le32 0)
      (emit (SendTo (connect_fd s) b) (emit (SendTo (connect_fd s) b') s)) = Inr s'"
    by (auto simp: doorbell_def Let_def rbind_eq_Inr)
  then show ?thesis
    by (meson dev_frame_trans dev_frame_emit dev_frame_buf_store dev_event.distinct)
qed

lemma dev_frame_io_write [dev_frame_intros]:
  "hucdev_io_write s addr val sz = Inr s' \<Longrightarrow> dev_frame s s'"
  by (auto simp: hucdev_io_write_def Let_def dev_frame_raise dev_frame_lower
      dest: dev_frame_ioreg_store split: if_splits)

lemma dev_frame_bufmmio_write [dev_frame_intros]:
  "hucdev_bufmmio_write get_cpu s addr val sz = Inr s' \<Longrightarrow> dev_frame s s'"
  by (auto simp: hucdev_bufmmio_write_def Let_def dev_frame_raise dev_frame_lower
      dest: dev_frame_buf_store dev_frame_doorbell dev_frame_set_vcpu_affinity split: if_splits)

lemma dev_frame_count_vcpus:
  "for_each_vcpu get_cpu (\<lambda>i t s. s) s = Inr (n, s') \<Longrightarrow> dev_frame s s'"
  by (erule dev_frame_for_each) simp

lemma dev_frame_dispatch [dev_frame_intros]:
  assumes "dispatch_message get_cpu fresh ty s = Inr s'"
  shows "dev_frame s s'"
proof -
  have inj: "dev_frame s s'"
    if "for_each_vcpu get_cpu (\<lambda>i t s. s) (hucdev_raise_irq s v) = Inr (n, s')" for n v
    using that by (blast intro: dev_frame_trans dev_frame_raise dev_frame_count_vcpus)
  have aff: "dev_frame s (hucdev_raise_irq t' v)"
    if "for_each_vcpu get_cpu (\<lambda>i t s. s) s = Inr (n, t)" "buf_store 22 bs t = Inr t'" for n t t' bs v
    using that
    by (blast intro: dev_frame_trans dev_frame_raise dev_frame_count_vcpus dev_frame_buf_store)
  have ht: "dev_frame s (s\<lparr>hyperthreading_remapping := b\<rparr>)" for b
    by (simp add: dev_frame_def huc_wf_def irq_inv_def)
  show ?thesis
    using assms inj aff ht dev_frame_pin_all_vcpus
    by (auto simp: dispatch_message_def rbind_eq_Inr split: if_splits prod.splits)
qed

lemma dev_frame_recv_into [dev_frame_intros]:
  "recv_into recv off n s net = Inr (len, s', net') \<Longrightarrow> dev_frame s s'"
  by (auto simp: recv_into_def rbind_eq_Inr dest: dev_frame_buf_store
      split: prod.splits recv_res.splits)

section \<open>No operation faults\<close>

lemma buf_store_total:
  "huc_wf s \<Longrightarrow> off + length bs \<le> BUF_BYTES \<Longrightarrow> \<exists>s'. buf_store off bs s = Inr s' \<and> huc_wf s'"
  by (simp add: buf_store_wf) (simp add: huc_wf_def)

lemma dispatch_message_total:
  assumes "huc_wf s" "cpus_are get_cpu tids"
  shows "\<exists>s'. dispatch_message get_cpu fresh ty s = Inr s'"
proof -
  have "\<exists>s'. buf_store 22 (le16 v) s = Inr s'" for v
    using buf_store_total [OF assms(1), of 22 "le16 v"] by (auto simp: HUCDEV_BUF_SIZE_def)
  then obtain f where f: "\<And>v. buf_store 22 (le16 v) s = Inr (f v)"
    by metis
  have count: "for_each_vcpu get_cpu (\<lambda>i t s. s) s' = Inr (length tids, s')" for s' :: HucState
  proof -
    have "foldl (\<lambda>s j. s) s' js = s'" for js :: "nat list" by (induction js) auto
    then show ?thesis by (simp add: for_each_vcpu_cpus_are [OF assms(2)])
  qed
  show ?thesis
    by (simp add: dispatch_message_def count f pin_all_vcpus_cpus_are [OF assms(2)])
qed

lemma recv_into_total:
  assumes "huc_wf s" "off + n \<le> BUF_BYTES"
  shows "\<exists>len s' net'. recv_into recv off n s net = Inr (len, s', net') \<and> huc_wf s'"
proof -
  have "\<exists>s'. buf_store off (take n bs) s = Inr s' \<and> huc_wf s'" for bs
    using assms by (intro buf_store_total) auto
  then obtain f where f: "\<And>bs. buf_store off (take n bs) s = Inr (f bs) \<and> huc_wf (f bs)"
    by metis
  then show ?thesis using assms(1)
    by (auto simp: recv_into_def split: prod.splits recv_res.splits)
qed

lemma handle_acceptfd_total:
  assumes "huc_wf s" "cpus_are get_cpu tids"
  shows "\<exists>s' net'. handle_acceptfd recv get_cpu fresh s net = Inr (s', net')"
proof -
  from recv_into_total [OF assms(1), of 16 4 recv net] obtain len s1 net1 where
    r1: "recv_into recv 16 4 s net = Inr (len, s1, net1)" and wf1: "huc_wf s1"
    by (auto simp: HUCDEV_BUF_SIZE_def)
  let ?n = "unat (payload_len (header_of_mem (the (buf s1)) 16))"
  have "?n < 2 ^ LENGTH(16)" by (rule unsigned_less)
  then have "20 + ?n \<le> BUF_BYTES" by (simp add: HUCDEV_BUF_SIZE_def)
  from recv_into_total [OF wf1 this, of recv net1] obtain len2 s2 net2 where
    r2: "recv_into recv 20 ?n s1 net1 = Inr (len2, s2, net2)" and wf2: "huc_wf s2"
    by auto
  have at: "buf_at 16 4 t = Inr (the (buf t))" if "huc_wf t" for t
    using that by (simp add: buf_at_wf HUCDEV_BUF_SIZE_def)
  from dispatch_message_total [OF wf2 assms(2)] obtain f where
    "\<And>ty. dispatch_message get_cpu fresh ty s2 = Inr (f ty)" by metis
  then show ?thesis
    by (simp add: handle_acceptfd_def r1 at [OF wf1] r2 at [OF wf2])
qed

lemma hucdev_bufmmio_write_total:
  assumes "huc_wf s" "cpus_are get_cpu tids" "unat sz \<le> 4"
  shows "\<exists>s'. hucdev_bufmmio_write get_cpu s addr val sz = Inr s'"
proof -
  let ?i = "unat addr mod 65536 div 4"
  have "4 * ?i + length (le32 (ucast val)) \<le> BUF_BYTES"
    using mod_less_divisor [of 65536 "unat addr"] by (simp add: HUCDEV_BUF_SIZE_def)
  then obtain s' where "buf_store (4 * ?i) (le32 (ucast val)) s = Inr s'"
    using buf_store_total [OF assms(1)] by blast
  then show ?thesis using assms
    by (simp add: hucdev_bufmmio_write_eq Let_def doorbell_eq set_vcpu_affinity_cpus_are)
qed

section \<open>Receiving a message\<close>

text \<open>
  When both reads deliver what was asked for, the header lands at byte 16 and the payload
  at byte 20 of the buffer, and the message is dispatched on its own type.
\<close>

definition with_message :: "HucState \<Rightarrow> huc_msg_header \<Rightarrow> bytes \<Rightarrow> HucState" where
  "with_message s h p = s\<lparr>buf := Some (mem_put (mem_put (the (buf s)) 16 (header_bytes h)) 20 p)\<rparr>"

lemma recv_into_bytes:
  assumes "huc_wf s" "off + n \<le> BUF_BYTES" "recv net n = (RecvBytes bs, net')" "length bs \<le> n"
  shows "recv_into recv off n s net =
    Inr (int (length bs), s\<lparr>buf := Some (mem_put (the (buf s)) off bs)\<rparr>, net')"
  using assms by (simp add: recv_into_def buf_store_wf)

lemma header_of_message [simp]: "header_of_mem (mem_put (mem_put m 16 (header_bytes h)) 20 p) 16 = h"
  by (simp add: header_of_mem_put_disjoint)

lemma handle_acceptfd_message:
  assumes wf: "huc_wf s"
    and hdr: "recv net 4 = (RecvBytes (header_bytes h), net1)"
    and pay: "recv net1 (unat (payload_len h)) = (RecvBytes p, net2)"
    and len: "length p \<le> unat (payload_len h)"
  shows "handle_acceptfd recv get_cpu fresh s net =
    rbind (dispatch_message get_cpu fresh (msg_type h) (with_message s h p)) (\<lambda>s'. Inr (s', net2))"
proof -
  let ?s1 = "s\<lparr>buf := Some (mem_put (the (buf s)) 16 (header_bytes h))\<rparr>"
  have wf1: "huc_wf ?s1" using wf by (simp add: huc_wf_def)
  have wf2: "huc_wf (with_message s h p)" using wf by (simp add: huc_wf_def with_message_def)
  have r1: "recv_into recv 16 4 s net = Inr (4, ?s1, net1)"
    using recv_into_bytes [where recv = recv, OF wf _ hdr, of 16] by (simp add: HUCDEV_BUF_SIZE_def)
  have "unat (payload_len h) < 2 ^ LENGTH(16)" by (rule unsigned_less)
  then have "20 + unat (payload_len h) \<le> BUF_BYTES" by (simp add: HUCDEV_BUF_SIZE_def)
  from recv_into_bytes [where recv = recv, OF wf1 this pay len]
  have r2: "recv_into recv 20 (unat (payload_len h)) ?s1 net1 =
      Inr (int (length p), with_message s h p, net2)"
    by (simp add: with_message_def)
  have at: "buf_at 16 4 t = Inr (the (buf t))" if "huc_wf t" for t
    using that by (simp add: buf_at_wf HUCDEV_BUF_SIZE_def)
  have hdr2: "header_of_mem (the (buf (with_message s h p))) 16 = h"
    by (simp add: with_message_def)
  show ?thesis
    by (simp add: handle_acceptfd_def r1 at [OF wf1] r2 at [OF wf2] hdr2)
qed

section \<open>The interrupt controller as an interface\<close>

text \<open>
  What the rest of the system relies on: a set of pending causes and a line that is high
  exactly while the set is not empty.
\<close>

datatype irq_op = Raise u32 | Lower u32

fun irq_apply :: "('s \<Rightarrow> u32 \<Rightarrow> 's) \<Rightarrow> ('s \<Rightarrow> u32 \<Rightarrow> 's) \<Rightarrow> 's \<Rightarrow> irq_op \<Rightarrow> 's" where
  "irq_apply raise lower s (Raise v) = raise s v"
| "irq_apply raise lower s (Lower v) = lower s v"

definition pending :: "u32 \<Rightarrow> nat set" where
  "pending w = {n. bit w n}"

fun irq_spec :: "nat set \<Rightarrow> irq_op \<Rightarrow> nat set" where
  "irq_spec p (Raise v) = p \<union> pending v"
| "irq_spec p (Lower v) = p - pending v"

lemma pending_or [simp]: "pending (v OR w) = pending v \<union> pending w"
  by (auto simp: pending_def bit_or_iff)

lemma pending_and_not [simp]: "pending (v AND NOT w) = pending v - pending w"
  by (auto simp: pending_def bit_and_iff bit_not_iff dest: bit_imp_le_length)

lemma pending_empty [simp]: "pending w = {} \<longleftrightarrow> w = 0"
  by (auto simp: pending_def intro!: bit_word_eqI)

locale irq_controller =
  fixes raise lower :: "'s \<Rightarrow> u32 \<Rightarrow> 's"
    and status :: "'s \<Rightarrow> u32"
    and line :: "'s \<Rightarrow> bool"
  assumes status_raise: "status (raise s v) = status s OR v"
    and status_lower: "status (lower s v) = status s AND NOT v"
    and line_raise: "line s = (status s \<noteq> 0) \<Longrightarrow> line (raise s v) = (status (raise s v) \<noteq> 0)"
    and line_lower: "line s = (status s \<noteq> 0) \<Longrightarrow> line (lower s v) = (status (lower s v) \<noteq> 0)"
begin

lemma pending_apply:
  "pending (status (irq_apply raise lower s op)) = irq_spec (pending (status s)) op"
  by (cases op) (simp_all add: status_raise status_lower)

lemma line_apply:
  "line s = (status s \<noteq> 0) \<Longrightarrow>
   line (irq_apply raise lower s op) = (status (irq_apply raise lower s op) \<noteq> 0)"
  by (cases op) (simp_all add: line_raise line_lower)

lemma run_refines:
  assumes "line s = (status s \<noteq> 0)"
  shows "pending (status (foldl (irq_apply raise lower) s ops)) =
           foldl irq_spec (pending (status s)) ops \<and>
         line (foldl (irq_apply raise lower) s ops) =
           (foldl irq_spec (pending (status s)) ops \<noteq> {})"
  using assms
proof (induction ops arbitrary: s)
  case Nil
  then show ?case by simp
next
  case (Cons op ops)
  from Cons.IH [OF line_apply [OF Cons.prems, of op]] show ?case
    by (simp add: pending_apply)
qed

lemma ack_lowers:
  "line s = (status s \<noteq> 0) \<Longrightarrow> \<not> line (lower s (status s)) \<and> status (lower s (status s)) = 0"
  using line_lower [of s "status s"] by (simp add: status_lower)

end

interpretation hucirq: irq_controller hucdev_raise_irq hucdev_lower_irq irq_status "\<lambda>s. irq_line (trace s)"
  by unfold_locales (auto simp: hucdev_raise_irq_def hucdev_lower_irq_def Let_def)

section \<open>Runs of the device\<close>

text \<open>
  One rule per entry point: the guest writes to a BAR, a client connects, the connection
  delivers a message or ends.  A handler runs only while it is watched.
\<close>

inductive dev_step :: "(nat \<Rightarrow> int option) \<Rightarrow> HucState \<Rightarrow> HucState \<Rightarrow> bool"
  for get_cpu :: "nat \<Rightarrow> int option" where
  guest_io: "hucdev_io_write s addr val sz = Inr s' \<Longrightarrow> dev_step get_cpu s s'"
| guest_mmio: "hucdev_bufmmio_write get_cpu s addr val sz = Inr s' \<Longrightarrow> dev_step get_cpu s s'"
| client: "fd_watch (trace s) (listen_fd s) = ListenHandler \<Longrightarrow> 0 \<le> fd \<Longrightarrow> fd \<noteq> listen_fd s \<Longrightarrow>
    dev_step get_cpu s (handle_listenfd fd s)"
| message: "fd_watch (trace s) (connect_fd s) = AcceptHandler \<Longrightarrow>
    handle_acceptfd (recv :: bytes \<Rightarrow> nat \<Rightarrow> recv_res \<times> bytes) get_cpu fresh s net = Inr (s', net') \<Longrightarrow>
    dev_step get_cpu s s'"

definition realize_ok :: "realize_env \<Rightarrow> bool" where
  "realize_ok env \<longleftrightarrow> re_msi env = 0 \<and> re_malloc env \<noteq> None \<and> 0 \<le> re_socket env \<and>
     0 \<le> re_bind env \<and> 0 \<le> re_listen env"

inductive dev_reachable :: "(nat \<Rightarrow> int option) \<Rightarrow> HucState \<Rightarrow> bool"
  for get_cpu :: "nat \<Rightarrow> int option" where
  realized: "realize_ok env \<Longrightarrow> dev_reachable get_cpu (huc_realize env huc_instance_init)"
| step: "dev_reachable get_cpu s \<Longrightarrow> dev_step get_cpu s s' \<Longrightarrow> dev_reachable get_cpu s'"

text \<open>Exactly one descriptor is watched: the listening one, or the one connection.\<close>

definition conn_inv :: "HucState \<Rightarrow> bool" where
  "conn_inv s \<longleftrightarrow> 0 \<le> listen_fd s \<and>
     (connect_fd s = -1 \<and> fd_watch (trace s) = (\<lambda>_. NoHandler)(listen_fd s := ListenHandler) \<or>
      0 \<le> connect_fd s \<and> connect_fd s \<noteq> listen_fd s \<and>
      fd_watch (trace s) = (\<lambda>_. NoHandler)(connect_fd s := AcceptHandler))"

definition dev_inv :: "HucState \<Rightarrow> bool" where
  "dev_inv s \<longleftrightarrow> huc_wf s \<and> irq_inv s \<and> conn_inv s"

lemma dev_frame_inv: "dev_frame s s' \<Longrightarrow> dev_inv s \<Longrightarrow> dev_inv s'"
  by (auto simp: dev_frame_def dev_inv_def conn_inv_def)

lemma dev_inv_realize: "realize_ok env \<Longrightarrow> dev_inv (huc_realize env huc_instance_init)"
  by (auto simp: dev_inv_def huc_wf_def irq_inv_def conn_inv_def huc_realize_def realize_ok_def
      huc_instance_init_def make_socket_def Let_def emit_def irq_line_def fd_watch_def)

lemma dev_inv_listen:
  "dev_inv s \<Longrightarrow> fd_watch (trace s) (listen_fd s) = ListenHandler \<Longrightarrow> 0 \<le> fd \<Longrightarrow> fd \<noteq> listen_fd s \<Longrightarrow>
   dev_inv (handle_listenfd fd s)"
  by (auto simp: dev_inv_def huc_wf_def irq_inv_def conn_inv_def handle_listenfd_def Let_def
      fun_upd_twist split: if_splits)

lemma dev_inv_close:
  "dev_inv s \<Longrightarrow> fd_watch (trace s) (connect_fd s) = AcceptHandler \<Longrightarrow> dev_inv (close_connection s)"
  by (auto simp: dev_inv_def huc_wf_def irq_inv_def conn_inv_def close_connection_def Let_def
      split: if_splits)

lemma dev_inv_message:
  assumes "dev_inv s" "fd_watch (trace s) (connect_fd s) = AcceptHandler"
    and "handle_acceptfd recv get_cpu fresh s net = Inr (s', net')"
  shows "dev_inv s'"
proof -
  from assms(3) obtain len s1 net1 where r1: "recv_into recv 16 4 s net = Inr (len, s1, net1)"
    by (auto simp: handle_acceptfd_def rbind_eq_Inr)
  then have fr: "dev_frame s s1" by (rule dev_frame_recv_into)
  with assms have inv1: "dev_inv s1" "fd_watch (trace s1) (connect_fd s1) = AcceptHandler"
    by (auto intro: dev_frame_inv simp: dev_frame_def)
  show ?thesis
  proof (cases "len \<le> 0")
    case True
    with assms(3) r1 have "s' = close_connection s1" by (simp add: handle_acceptfd_def)
    with inv1 show ?thesis by (simp add: dev_inv_close)
  next
    case False
    with assms(3) r1 have "dev_frame s1 s'"
      by (auto simp: handle_acceptfd_def rbind_eq_Inr split: prod.splits
          dest!: dev_frame_recv_into dev_frame_dispatch intro: dev_frame_trans)
    with inv1 show ?thesis by (blast intro: dev_frame_inv)
  qed
qed

lemma dev_step_inv: "dev_step get_cpu s s' \<Longrightarrow> dev_inv s \<Longrightarrow> dev_inv s'"
  by (induction rule: dev_step.induct)
     (blast intro: dev_frame_inv dev_frame_io_write dev_frame_bufmmio_write dev_inv_listen
        dev_inv_message)+

lemma dev_reachable_dev_inv: "dev_reachable get_cpu s \<Longrightarrow> dev_inv s"
  by (induction rule: dev_reachable.induct) (auto intro: dev_inv_realize dev_step_inv)

section \<open>Properties of the device\<close>

lemma dev_inv_init: "irq_inv huc_instance_init"
  by (simp add: irq_inv_def huc_instance_init_def irq_line_def)

definition sample_env :: realize_env where
  "sample_env = \<lparr>re_msi = 0, re_malloc = Some (\<lambda>_. 0), re_socket = 5, re_bind = 0, re_listen = 0\<rparr>"

definition sample_dev :: HucState where
  "sample_dev = huc_realize sample_env huc_instance_init"

lemma sample_dev_reachable: "dev_reachable get_cpu sample_dev"
  unfolding sample_dev_def by (rule dev_reachable.realized) (simp add: realize_ok_def sample_env_def)

lemma sample_dev_eq:
  "sample_dev = \<lparr>ioregs = replicate NR_IOREGS 0, buf = Some (\<lambda>_. 0), irq_status = 0,
     hyperthreading_remapping = False, listen_fd = 5, connect_fd = -1,
     trace = [InterruptPin 1, RegisterBar 0 256, RegisterBar 1 BUF_BYTES, BindPort 5 8888, ListenOn 5,
              SetFdHandler 5 ListenHandler]\<rparr>"
  by (simp add: sample_dev_def sample_env_def huc_realize_def huc_instance_init_def make_socket_def
      emit_def Let_def LISTEN_PORT_def HUCDEV_REG_MASK_def)

lemma sample_dev_wf: "huc_wf sample_dev"
  by (simp add: sample_dev_eq huc_wf_def)

text \<open>C24. For every sequence of \<open>hucdev_raise_irq\<close> and \<open>hucdev_lower_irq\<close> calls, the
  status register is the set of causes raised and not yet lowered, and the PCI interrupt
  line is high exactly while that set is not empty.\<close>

theorem irq_line_follows_pending:
  assumes "irq_inv s"
  shows "pending (irq_status (foldl (irq_apply hucdev_raise_irq hucdev_lower_irq) s ops)) =
           foldl irq_spec (pending (irq_status s)) ops \<and>
         irq_line (trace (foldl (irq_apply hucdev_raise_irq hucdev_lower_irq) s ops)) =
           (foldl irq_spec (pending (irq_status s)) ops \<noteq> {})"
  using assms by (intro hucirq.run_refines) (simp add: irq_inv_def)

theorem irq_line_follows_pending_witness:
  "irq_inv huc_instance_init \<and>
   irq_line (trace (foldl (irq_apply hucdev_raise_irq hucdev_lower_irq) huc_instance_init
     [Raise 3, Lower 1])) = (foldl irq_spec (pending 0) [Raise 3, Lower 1] \<noteq> {})"
  using irq_line_follows_pending [OF dev_inv_init, of "[Raise 3, Lower 1]"] dev_inv_init
  by (simp add: huc_instance_init_def)





text \<open>C36. A guest write to the register BAR aborts QEMU exactly when its offset lies in
  16..91: the assertion bounds the index by the four register names, not by the 23
  registers of the array.\<close>

theorem io_write_aborts_iff:
  "hucdev_io_write s addr val sz = Inl AssertFailed \<longleftrightarrow>
     16 \<le> unat addr mod 256 \<and> unat addr mod 256 < HUCDEV_REG_END"
proof -
  have "length regnames = 4" by (simp add: regnames_def)
  moreover have "of_nat HUCDEV_REG_END \<le> addr AND HUCDEV_REG_MASK \<longleftrightarrow> HUCDEV_REG_END \<le> unat addr mod 256"
    by (simp add: word_le_nat_alt unat_and_reg_mask HUCDEV_REG_END_def)
  moreover have "unat addr mod 256 div 4 < 4 \<longleftrightarrow> unat addr mod 256 < 16"
    by (auto simp: div_less_iff_less_mult)
  ultimately show ?thesis
    by (auto simp: hucdev_io_write_def Let_def reg_index ioreg_store_def)
qed

text \<open>The address mask lets the guest see the first 65536 bytes of the 262144-byte
  buffer only: two devices that agree there and on the interrupt status answer every
  buffer read alike.\<close>

lemma guest_window_64k:
  assumes "huc_wf s" "huc_wf t" "irq_status s = irq_status t"
    and "\<And>a. a < 65536 \<Longrightarrow> the (buf s) a = the (buf t) a"
  shows "hucdev_bufmmio_read s addr hucdev_ops_access_size =
         hucdev_bufmmio_read t addr hucdev_ops_access_size"
proof -
  let ?i = "unat addr mod 65536 div 4"
  have "4 * ?i + 3 < 65536" by (rule word_end_bound) simp
  then have "load32 (the (buf s)) (4 * ?i) = load32 (the (buf t)) (4 * ?i)"
    using assms(4) by (simp add: load32_def)
  then show ?thesis
    using assms(1-3) by (simp add: hucdev_bufmmio_read_eq hucdev_ops_access_size_def)
qed

text \<open>C27. A guest write of a mask to the affinity register (byte 12) asks the host to bind
  exactly the vCPU threads whose index is in the mask, in index order, each to the whole
  mask; nothing else of the device changes.\<close>

theorem set_affinity_register:
  assumes "cpus_are get_cpu tids" "unat addr mod 65536 div 4 = 3"
  shows "hucdev_bufmmio_write get_cpu s addr val hucdev_ops_access_size =
    Inr (s\<lparr>trace := trace s @ map (\<lambda>j. SchedSetAffinity (tids ! j) SET_SIZE val)
                                  (filter (\<lambda>j. j < 64 \<and> bit val j) [0..<length tids])\<rparr>)"
proof -
  have "CPU_ISSET_S j val = (j < 64 \<and> bit val j)" for j
    by (auto simp: CPU_ISSET_S_def SET_SIZE_def)
  then show ?thesis
    using assms by (simp add: hucdev_bufmmio_write_eq hucdev_ops_access_size_def
        set_vcpu_affinity_cpus_are)
qed

theorem set_affinity_register_witness:
  "hucdev_bufmmio_write (cpu_of [100, 101]) sample_dev 12 2 hucdev_ops_access_size =
   Inr (sample_dev\<lparr>trace := trace sample_dev @ [SchedSetAffinity 101 8 2]\<rparr>)"
  using set_affinity_register [OF cpus_are_cpu_of [of "[100, 101]"], of 12 sample_dev 2]
  by (simp add: upt_rec SET_SIZE_def bit_numeral_rec)

text \<open>A \<^verbatim>\<open>RESET\<close> message binds every vCPU thread to the mask \<open>0xFFFFFFFF\<close>: the
  threads may run on pCPU 0..31 and on no pCPU from 32 on.\<close>

lemma reset_message_masks_32_pcpus:
  assumes "cpus_are get_cpu tids"
  shows "dispatch_message get_cpu fresh RESET s =
      Inr (s\<lparr>trace := trace s @ map (\<lambda>t. SchedSetAffinity t SET_SIZE 0xFFFFFFFF) tids\<rparr>) \<and>
    (\<forall>p. CPU_ISSET_S p 0xFFFFFFFF \<longleftrightarrow> p < 32)"
proof -
  have eq: "(0xFFFFFFFF :: u64) = mask 32" by (simp add: mask_eq_exp_minus_1)
  have "CPU_ISSET_S p 0xFFFFFFFF \<longleftrightarrow> p < 32" for p
  proof -
    have "bit (0xFFFFFFFF :: u64) p \<longleftrightarrow> p < 32"
      unfolding eq by (auto simp: bit_mask_iff)
    then show ?thesis unfolding CPU_ISSET_S_def SET_SIZE_def by arith
  qed
  with assms show ?thesis
    by (simp add: dispatch_message_def msg_simps pin_all_vcpus_cpus_are)
qed

text \<open>A \<^verbatim>\<open>PIN_ON_SAME\<close> message binds every vCPU thread to pCPU 0 together with
  whatever bits the freshly allocated set happened to hold: the set is never cleared, and
  it is the intended single-CPU mask exactly when that memory was zero above bit 0.\<close>

lemma pin_on_same_keeps_stale_bits:
  assumes "cpus_are get_cpu tids"
  shows "dispatch_message get_cpu fresh PIN_ON_SAME s =
      Inr (s\<lparr>trace := trace s @ map (\<lambda>t. SchedSetAffinity t SET_SIZE (fresh OR 1)) tids\<rparr>) \<and>
    (fresh OR 1 = 1 \<longleftrightarrow> drop_bit 1 fresh = 0)"
proof -
  have "fresh OR 1 = 1 \<longleftrightarrow> drop_bit 1 fresh = 0"
  proof
    assume "fresh OR 1 = 1"
    then have "drop_bit 1 (fresh OR 1) = drop_bit 1 (1 :: u64)" by simp
    then show "drop_bit 1 fresh = 0" by simp
  next
    assume z: "drop_bit 1 fresh = 0"
    show "fresh OR 1 = 1"
    proof (rule bit_word_eqI)
      fix n
      have "bit fresh (Suc m) = False" for m
        using arg_cong [OF z, of "\<lambda>w. bit w m"] by (simp add: bit_drop_bit_eq)
      then show "bit (fresh OR 1) n = bit (1 :: u64) n"
        by (cases n) (simp_all add: bit_or_iff bit_1_iff)
    qed
  qed
  with assms show ?thesis
    by (simp add: dispatch_message_def msg_simps pin_all_vcpus_cpus_are set_bit_eq_or)
qed

text \<open>When accepting a client fails the device goes deaf: the listening socket is no
  longer watched and no valid descriptor is watched instead.\<close>

lemma accept_failure_leaves_nothing_watched:
  assumes "conn_inv s" "connect_fd s = -1" "0 \<le> fd"
  shows "fd_watch (trace (handle_listenfd (-1) s)) fd = NoHandler"
  using assms by (auto simp: conn_inv_def handle_listenfd_def Let_def)

lemma with_message_simps [simp]:
  "irq_status (with_message s h p) = irq_status s" "trace (with_message s h p) = trace s"
  "ioregs (with_message s h p) = ioregs s" "listen_fd (with_message s h p) = listen_fd s"
  "connect_fd (with_message s h p) = connect_fd s"
  by (simp_all add: with_message_def)

lemma with_message_bytes:
  "mem_get (the (buf (with_message s h p))) 16 (4 + length p) = header_bytes h @ p"
proof -
  have "mem_get (the (buf (with_message s h p))) 16 4 = header_bytes h"
    using mem_get_put_same [of "the (buf s)" 16 "header_bytes h"]
    by (simp add: with_message_def mem_get_put_disjoint)
  moreover have "mem_get (the (buf (with_message s h p))) 20 (length p) = p"
    by (simp add: with_message_def mem_get_put_same)
  ultimately show ?thesis by (simp add: mem_get_append)
qed

lemma with_message_wf: "huc_wf s \<Longrightarrow> huc_wf (with_message s h p)"
  by (simp add: huc_wf_def with_message_def)

lemma dispatch_injection:
  assumes "cpus_are get_cpu tids"
  shows "dispatch_message get_cpu fresh PROGRAM_INJECTION s = Inr (hucdev_raise_irq s 1)"
proof -
  have "foldl (\<lambda>s j. s) s' js = s'" for s' :: HucState and js :: "nat list"
    by (induction js) auto
  then show ?thesis
    by (simp add: dispatch_message_def msg_simps for_each_vcpu_cpus_are [OF assms])
qed


definition stream_recv :: "bytes \<Rightarrow> nat \<Rightarrow> recv_res \<times> bytes" where
  "stream_recv st n = (RecvBytes (take n st), drop n st)"


text \<open>C37. The doorbell returns to the connected host exactly the message the buffer holds:
  after a message was received unchanged, the two sends carry its header and its payload.\<close>

theorem doorbell_echoes_message:
  assumes "huc_wf s" "length p = unat (payload_len h)"
    and "doorbell (with_message s h p) = Inr s'"
  shows "trace s' = trace s @ [SendTo (connect_fd s) (header_bytes h), SendTo (connect_fd s) p]"
proof -
  have m: "header_of_mem (the (buf (with_message s h p))) 16 = h"
    by (simp add: with_message_def)
  have bytes: "mem_get (the (buf (with_message s h p))) 16 4 = header_bytes h"
      "mem_get (the (buf (with_message s h p))) 20 (length p) = p"
    using with_message_bytes [of s h p] by (simp_all add: mem_get_append)
  then show ?thesis
    using assms doorbell_eq [OF with_message_wf [OF assms(1), of h p]] by (auto simp: Let_def m)
qed

theorem doorbell_echoes_message_witness:
  "\<exists>s'. doorbell (with_message sample_dev \<lparr>version = 1, msg_type = 2, payload_len = 1\<rparr> [7]) = Inr s' \<and>
     trace s' = trace sample_dev @ [SendTo (-1) [1, 2, 1, 0], SendTo (-1) [7]]"
proof -
  let ?h = "\<lparr>version = 1, msg_type = 2, payload_len = 1\<rparr>"
  obtain s' where s': "doorbell (with_message sample_dev ?h [7]) = Inr s'"
    using doorbell_eq [OF with_message_wf [OF sample_dev_wf]] by (simp add: Let_def)
  from doorbell_echoes_message [OF sample_dev_wf _ this]
  have "trace s' = trace sample_dev @ [SendTo (-1) [1, 2, 1, 0], SendTo (-1) [7]]"
    by (simp add: header_bytes_def le16_def sample_dev_eq)
  with s' show ?thesis by blast
qed

text \<open>
  Unplugging the device: the listening socket is unwatched and closed, and a client that is
  connected at that moment stays watched, with a handler whose device is gone.
\<close>

lemma uninit_leaves_client:
  assumes "dev_reachable get_cpu s"
  shows "fd_watch (trace (hucdev_uninit s)) (listen_fd s) = NoHandler"
    and "CloseFd (listen_fd s) \<in> set (trace (hucdev_uninit s))"
    and "connect_fd s \<noteq> -1 \<Longrightarrow>
      fd_watch (trace (hucdev_uninit s)) (connect_fd s) = AcceptHandler"
    and "connect_fd s = -1 \<Longrightarrow> fd_watch (trace (hucdev_uninit s)) = (\<lambda>_. NoHandler)"
  using dev_reachable_dev_inv [OF assms]
  by (auto simp: dev_inv_def conn_inv_def hucdev_uninit_def Let_def emit_def)

end
