(* ===== verification/Huc_Driver.thy ===== *)
theory Huc_Driver
  imports Hucdev
begin

text \<open>
  The guest driver of \<^verbatim>\<open>guestend/driver/huc-driver.c\<close>: its read, write and ioctl entry
  points, the interrupt handler, probe and remove.  The driver reaches the device through
  \<^verbatim>\<open>ioread32\<close> and \<^verbatim>\<open>iowrite32\<close> on the buffer BAR; both are parameters of the model, and
  the locale \<open>huc_bus\<close> states what the driver relies on.  It is interpreted on the
  device of theory Hucdev.  The locale \<open>message_file\<close> is the contract the driver in
  turn offers to a reader of the device node.
\<close>

named_theorems drv_simps "constants of the driver"

section \<open>State and constants\<close>

definition DRV_REG_STATUS_IRQ :: u64 where [drv_simps]: "DRV_REG_STATUS_IRQ = 0"
definition DRV_REG_LOWER_IRQ :: u64 where [drv_simps]: "DRV_REG_LOWER_IRQ = 4"
definition DRV_REG_DOORBELL :: u64 where [drv_simps]: "DRV_REG_DOORBELL = 8"
definition DRV_REG_SETAFFINITY :: u64 where [drv_simps]: "DRV_REG_SETAFFINITY = 12"
definition IOCTL_SCHED_SETAFFINITY :: u32 where [drv_simps]: "IOCTL_SCHED_SETAFFINITY = 13"
definition IOCTL_PROGRAM_INJECTION_RESULT_READY :: u32 where
  [drv_simps]: "IOCTL_PROGRAM_INJECTION_RESULT_READY = 14"
definition EFAULT :: int where [drv_simps]: "EFAULT = 14"
definition EACCES :: int where [drv_simps]: "EACCES = 13"
definition EINVAL :: int where [drv_simps]: "EINVAL = 22"

record DriverState =
  flag :: int
  payload_left :: u32
  major :: int

definition driver_init :: "int \<Rightarrow> DriverState" where
  "driver_init n = \<lparr>flag = 0, payload_left = 0, major = n\<rparr>"

section \<open>Reading\<close>

text \<open>
  \<open>Blocked\<close>: the reader sleeps on the wait queue.  \<open>Returned ret bs off\<close>: the result,
  the bytes copied to the user and the new file offset.  \<open>signal\<close> says whether a signal
  interrupts the wait (the code ignores that result and goes on), \<open>uaccess_fault\<close> whether
  \<^verbatim>\<open>copy_to_user\<close> fails.
\<close>

datatype read_out = Blocked | Returned int bytes int

definition account_read :: "DriverState \<Rightarrow> u32 \<Rightarrow> nat \<Rightarrow> DriverState" where
  "account_read s kbuf len =
     (if flag s = 2 then
        s\<lparr>payload_left := ucast (payload_len (header_of_u32 kbuf)), flag := 1\<rparr>
      else if flag s = 1 then
        (let s = s\<lparr>payload_left := payload_left s - of_nat len\<rparr>
         in if sint (payload_left s) \<le> 0 then s\<lparr>flag := 0\<rparr> else s)
      else s)"

definition huc_read ::
    "('d \<Rightarrow> u64 \<Rightarrow> 'e + u32) \<Rightarrow> bool \<Rightarrow> bool \<Rightarrow> 'd \<Rightarrow> DriverState \<Rightarrow> nat \<Rightarrow> int \<Rightarrow>
     'e + read_out \<times> DriverState" where
  "huc_read ioread32 signal uaccess_fault d s len off =
     (if flag s < 1 \<and> \<not> signal then Inr (Blocked, s)
      else if off mod 4 \<noteq> 0 \<or> len = 0 then Inr (Returned 0 [] off, s)
      else rbind (ioread32 d (of_int off)) (\<lambda>kbuf.
        let s = account_read s kbuf len
        in if uaccess_fault then Inr (Returned (- EFAULT) [] off, s)
           else Inr (Returned (int len) (le32 kbuf) (off + 4), s)))"

text \<open>\<^verbatim>\<open>huc_write\<close> accepts nothing.\<close>

definition huc_write :: "bytes \<Rightarrow> int" where
  "huc_write data = 0"

section \<open>ioctl\<close>

text \<open>\<open>arg\<close> is the user memory the argument points to.\<close>

definition huc_ioctl ::
    "('d \<Rightarrow> u64 \<Rightarrow> u32 \<Rightarrow> 'e + 'd) \<Rightarrow> bool \<Rightarrow> 'd \<Rightarrow> u32 \<Rightarrow> mem \<Rightarrow> 'e + int \<times> 'd" where
  "huc_ioctl iowrite32 uaccess_fault d cmd arg =
     (if cmd = IOCTL_PROGRAM_INJECTION_RESULT_READY then
        rbind (iowrite32 d DRV_REG_DOORBELL 1) (\<lambda>d. Inr (0, d))
      else if cmd = IOCTL_SCHED_SETAFFINITY then
        (if uaccess_fault then Inr (- EACCES, d)
         else rbind (iowrite32 d DRV_REG_SETAFFINITY (load32 arg 0)) (\<lambda>d. Inr (0, d)))
      else Inr (0, d))"

section \<open>The interrupt handler\<close>

datatype irqreturn = IRQ_NONE | IRQ_HANDLED

definition irq_handler ::
    "('d \<Rightarrow> u64 \<Rightarrow> 'e + u32) \<Rightarrow> ('d \<Rightarrow> u64 \<Rightarrow> u32 \<Rightarrow> 'e + 'd) \<Rightarrow> int \<Rightarrow> 'd \<Rightarrow> DriverState \<Rightarrow>
     'e + irqreturn \<times> 'd \<times> DriverState" where
  "irq_handler ioread32 iowrite32 dev d s =
     (if dev = major s then
        rbind (ioread32 d DRV_REG_STATUS_IRQ) (\<lambda>irq_status.
        let s = (if irq_status = ucast PROGRAM_INJECTION then s\<lparr>flag := 2\<rparr>
                 else if irq_status = ucast PROGRAM_INJECTION_AFFINITY then s\<lparr>flag := 2\<rparr>
                 else if irq_status = 22 then s\<lparr>flag := 1\<rparr>
                 else s)
        in rbind (iowrite32 d DRV_REG_LOWER_IRQ irq_status) (\<lambda>d. Inr (IRQ_HANDLED, d, s)))
      else Inr (IRQ_NONE, d, s))"

section \<open>Probe and remove\<close>

text \<open>
  The kernel calls of probe and remove as a trace of acquisitions and releases; the
  outcomes of the fallible ones are the probe environment.
\<close>

datatype drv_resource =
  ChrdevRegion | Cdev | ClassObj | DeviceNode | PciEnabled | BarRegion | Iomap | IrqLine | ChrdevMajor

datatype drv_event = Acquire drv_resource | Release drv_resource

record probe_env =
  pe_major :: int
  pe_class_ok :: bool
  pe_enable :: int
  pe_region :: int
  pe_iomap :: bool
  pe_irq :: int

definition huc_probe :: "probe_env \<Rightarrow> DriverState \<Rightarrow> int \<times> DriverState \<times> drv_event list" where
  "huc_probe env s =
     (let s = s\<lparr>major := pe_major env\<rparr>; t = [Acquire ChrdevRegion, Acquire Cdev] in
      if \<not> pe_class_ok env then (- EINVAL, s, t)
      else let t = t @ [Acquire ClassObj, Acquire DeviceNode] in
      if pe_enable env < 0 then (1, s, t)
      else let t = t @ [Acquire PciEnabled] in
      if pe_region env \<noteq> 0 then (1, s, t)
      else let t = t @ [Acquire BarRegion] in
      if \<not> pe_iomap env then (1, s, t)
      else let t = t @ [Acquire Iomap] in
      if pe_irq env < 0 then (1, s, t)
      else (0, s, t @ [Acquire IrqLine]))"

definition huc_pci_remove :: "drv_event list" where
  "huc_pci_remove =
     [Release DeviceNode, Release ClassObj, Release Cdev, Release ChrdevRegion,
      Release BarRegion, Release Iomap, Release ChrdevMajor]"

fun held_upd :: "drv_resource set \<Rightarrow> drv_event \<Rightarrow> drv_resource set" where
  "held_upd h (Acquire r) = insert r h"
| "held_upd h (Release r) = h - {r}"

definition held :: "drv_event list \<Rightarrow> drv_resource set" where
  "held es = foldl held_upd {} es"

section \<open>The device node as a file\<close>

text \<open>
  The system calls of a reader without signals or bad buffers: the file offset beside the
  driver and the device.  \<open>None\<close> is a read that sleeps.
\<close>

record 'd chardev =
  k_dev :: 'd
  k_drv :: DriverState
  k_off :: int

definition file_lseek :: "'d chardev \<Rightarrow> int \<Rightarrow> int \<times> 'd chardev" where
  "file_lseek k off = (off, k\<lparr>k_off := off\<rparr>)"

definition file_read ::
    "('d \<Rightarrow> u64 \<Rightarrow> 'e + u32) \<Rightarrow> 'd chardev \<Rightarrow> nat \<Rightarrow> (int \<times> bytes \<times> 'd chardev) option" where
  "file_read ioread32 k n =
     (case huc_read ioread32 False False (k_dev k) (k_drv k) n (k_off k) of
        Inr (Returned ret bs off, s) \<Rightarrow> Some (ret, bs, k\<lparr>k_drv := s, k_off := off\<rparr>)
      | _ \<Rightarrow> None)"

section \<open>What the driver needs from the device\<close>

text \<open>The read stage the interrupt handler leaves behind, by the status it read.\<close>

definition flag_after :: "u32 \<Rightarrow> int \<Rightarrow> int" where
  "flag_after st f = (if st = 1 \<or> st = 3 then 2 else if st = 22 then 1 else f)"

locale huc_bus =
  fixes ioread32 :: "'d \<Rightarrow> u64 \<Rightarrow> 'e + u32"
    and iowrite32 :: "'d \<Rightarrow> u64 \<Rightarrow> u32 \<Rightarrow> 'e + 'd"
    and wf :: "'d \<Rightarrow> bool"
    and status :: "'d \<Rightarrow> u32"
    and word_at :: "'d \<Rightarrow> nat \<Rightarrow> u32"
  assumes read_status: "wf d \<Longrightarrow> ioread32 d 0 = Inr (status d)"
    and read_word: "wf d \<Longrightarrow> 1 \<le> i \<Longrightarrow> i < 16384 \<Longrightarrow> ioread32 d (of_nat (4 * i)) = Inr (word_at d i)"
    and acknowledge: "wf d \<Longrightarrow> \<exists>d'. iowrite32 d 4 v = Inr d' \<and> wf d' \<and>
      status d' = status d AND NOT v \<and> word_at d' = word_at d"
begin

lemma irq_handler_handles:
  assumes "wf d" "dev = major s"
  shows "\<exists>d'. irq_handler ioread32 iowrite32 dev d s =
      Inr (IRQ_HANDLED, d', s\<lparr>flag := flag_after (status d) (flag s)\<rparr>) \<and>
    wf d' \<and> status d' = 0 \<and> word_at d' = word_at d"
proof -
  from acknowledge [OF assms(1), of "status d"] obtain d' where
    "iowrite32 d 4 (status d) = Inr d'" "wf d'" "status d' = 0" "word_at d' = word_at d"
    by auto
  with assms show ?thesis
    by (auto simp: irq_handler_def drv_simps msg_simps read_status flag_after_def)
qed

lemma huc_read_word:
  assumes "wf d" "0 < flag s" "1 \<le> i" "i < 16384" "0 < len"
  shows "huc_read ioread32 signal False d s len (int (4 * i)) =
    Inr (Returned (int len) (le32 (word_at d i)) (int (4 * i) + 4), account_read s (word_at d i) len)"
  using assms read_word [OF assms(1,3,4)] by (simp add: huc_read_def Let_def)

end

section \<open>What the driver offers to a reader\<close>

text \<open>
  The stage of a message transfer: no message, the header is next, or so many payload bytes
  are left.
\<close>

datatype stage = Idle | Header | Payload nat

definition drv_stage :: "DriverState \<Rightarrow> stage" where
  "drv_stage s =
     (if flag s = 2 then Header
      else if flag s = 1 then Payload (nat (sint (payload_left s))) else Idle)"

definition drv_ok :: "DriverState \<Rightarrow> bool" where
  "drv_ok s \<longleftrightarrow> flag s \<in> {0, 1, 2} \<and>
     (flag s = 1 \<longrightarrow> 0 \<le> sint (payload_left s) \<and> sint (payload_left s) \<le> 65535)"

locale message_file =
  fixes lseek :: "'k \<Rightarrow> int \<Rightarrow> int \<times> 'k"
    and read :: "'k \<Rightarrow> nat \<Rightarrow> (int \<times> bytes \<times> 'k) option"
    and ok :: "'k \<Rightarrow> bool"
    and st :: "'k \<Rightarrow> stage"
    and pos :: "'k \<Rightarrow> int"
    and data :: "'k \<Rightarrow> nat \<Rightarrow> u32"
  assumes seek: "ok k \<Longrightarrow> \<exists>k'. lseek k off = (off, k') \<and> ok k' \<and> pos k' = off \<and> st k' = st k \<and>
      data k' = data k"
    and read_idle: "ok k \<Longrightarrow> st k = Idle \<Longrightarrow> read k n = None"
    and read_header: "ok k \<Longrightarrow> st k = Header \<Longrightarrow> pos k = int (4 * i) \<Longrightarrow> 1 \<le> i \<Longrightarrow> i < 16384 \<Longrightarrow>
      \<exists>k'. read k 4 = Some (4, le32 (data k i), k') \<and> ok k' \<and> pos k' = int (4 * Suc i) \<and>
        st k' = Payload (unat (payload_len (header_of_u32 (data k i)))) \<and> data k' = data k"
    and read_payload: "ok k \<Longrightarrow> st k = Payload n \<Longrightarrow> pos k = int (4 * i) \<Longrightarrow> 1 \<le> i \<Longrightarrow> i < 16384 \<Longrightarrow>
      \<exists>k'. read k 4 = Some (4, le32 (data k i), k') \<and> ok k' \<and> pos k' = int (4 * Suc i) \<and>
        st k' = (if n \<le> 4 then Idle else Payload (n - 4)) \<and> data k' = data k"

lemma sint_ucast_u16: "sint (ucast (p :: u16) :: u32) = int (unat p)"
proof -
  have "uint (ucast p :: u32) = uint p"
    using unat_u16_less(2) [of p] by (simp only: unsigned_ucast_eq take_bit_eq_mod) simp
  moreover have "0 \<le> uint p" by simp
  then have "signed_take_bit 31 (uint p) = uint p"
    using unat_u16_less(2) [of p] by (intro signed_take_bit_int_eq_self) (auto intro: order_trans [of _ 0])
  ultimately show ?thesis by (simp add: sint_uint)
qed

lemma sint_sub_4:
  "0 \<le> sint (w :: u32) \<Longrightarrow> sint w \<le> 65535 \<Longrightarrow> sint (w - 4) = sint w - 4"
  by (simp add: sint_word_ariths signed_take_bit_int_eq_self)

lemma account_read_header:
  "drv_stage s = Header \<Longrightarrow> drv_ok (account_read s w n) \<and>
     drv_stage (account_read s w n) = Payload (unat (payload_len (header_of_u32 w)))"
  using unat_u16_less(2) [of "payload_len (header_of_u32 w)"]
  by (auto simp: drv_stage_def drv_ok_def account_read_def sint_ucast_u16 split: if_splits)

lemma account_read_payload:
  "drv_ok s \<Longrightarrow> drv_stage s = Payload n \<Longrightarrow> drv_ok (account_read s w 4) \<and>
     drv_stage (account_read s w 4) = (if n \<le> 4 then Idle else Payload (n - 4))"
  by (auto simp: drv_stage_def drv_ok_def account_read_def sint_sub_4 Let_def nat_diff_distrib
      split: if_splits)

sublocale huc_bus \<subseteq> huc_file: message_file file_lseek "file_read ioread32"
    "\<lambda>k. wf (k_dev k) \<and> drv_ok (k_drv k)" "\<lambda>k. drv_stage (k_drv k)" k_off "\<lambda>k. word_at (k_dev k)"
proof (unfold_locales, goal_cases)
  case (1 k off)
  then show ?case by (simp add: file_lseek_def)
next
  case (2 k n)
  then have "flag (k_drv k) < 1"
    by (auto simp: drv_stage_def drv_ok_def split: if_splits)
  then show ?case by (simp add: file_read_def huc_read_def)
next
  case (3 k i)
  then have "0 < flag (k_drv k)" by (auto simp: drv_stage_def split: if_splits)
  with 3 show ?case
    using huc_read_word [of "k_dev k" "k_drv k" i 4 False]
      account_read_header [of "k_drv k" "word_at (k_dev k) i" 4]
    by (simp add: file_read_def)
next
  case (4 k n i)
  then have "0 < flag (k_drv k)" by (auto simp: drv_stage_def split: if_splits)
  with 4 show ?case
    using huc_read_word [of "k_dev k" "k_drv k" i 4 False]
      account_read_payload [of "k_drv k" n "word_at (k_dev k) i"]
    by (simp add: file_read_def)
qed

section \<open>The driver on the device\<close>

definition dev_ioread32 :: "HucState \<Rightarrow> u64 \<Rightarrow> c_fault + u32" where
  "dev_ioread32 d off =
     rbind (hucdev_bufmmio_read d off hucdev_ops_access_size) (\<lambda>v. Inr (ucast v))"

definition dev_iowrite32 ::
    "(nat \<Rightarrow> int option) \<Rightarrow> HucState \<Rightarrow> u64 \<Rightarrow> u32 \<Rightarrow> c_fault + HucState" where
  "dev_iowrite32 get_cpu d off v = hucdev_bufmmio_write get_cpu d off (ucast v) hucdev_ops_access_size"

definition dev_word_at :: "HucState \<Rightarrow> nat \<Rightarrow> u32" where
  "dev_word_at d i = load32 (the (buf d)) (4 * i)"

interpretation hucbus: huc_bus dev_ioread32 "dev_iowrite32 get_cpu" huc_wf irq_status dev_word_at
  for get_cpu
proof (unfold_locales, goal_cases)
  case (1 d)
  then show ?case
    by (simp add: dev_ioread32_def hucdev_bufmmio_read_eq hucdev_ops_access_size_def)
next
  case (2 d i)
  then have "unat (of_nat (4 * i) :: u64) = 4 * i"
    by (subst unat_of_nat) simp
  with 2 show ?case
    by (simp add: dev_ioread32_def hucdev_bufmmio_read_eq hucdev_ops_access_size_def dev_word_at_def)
next
  case (3 d v)
  then show ?case
    by (simp add: dev_iowrite32_def hucdev_bufmmio_write_eq hucdev_ops_access_size_def
        hucdev_lower_irq_def huc_wf_def dev_word_at_def fun_eq_iff Let_def)
qed

section \<open>Properties of the driver\<close>

lemma irq_handler_frame:
  assumes "irq_handler dev_ioread32 (dev_iowrite32 get_cpu) dev d s = Inr (r, d', s')"
  shows "dev_frame d d'"
  using assms
  by (auto simp: irq_handler_def dev_iowrite32_def rbind_eq_Inr Let_def
      dest: dev_frame_bufmmio_write split: if_splits)

text \<open>C26. On the device, the interrupt handler of the owning driver always returns
  handled, clears every pending cause, drops the interrupt line, leaves the buffer as it
  was, and arms a header read exactly when the status it read is that of an injection.\<close>

theorem irq_handler_acknowledges:
  assumes "huc_wf d" "irq_inv d"
  shows "\<exists>d'. irq_handler dev_ioread32 (dev_iowrite32 get_cpu) (major s) d s =
      Inr (IRQ_HANDLED, d', s\<lparr>flag := flag_after (irq_status d) (flag s)\<rparr>) \<and>
    irq_status d' = 0 \<and> \<not> irq_line (trace d') \<and> dev_word_at d' = dev_word_at d"
proof -
  from hucbus.irq_handler_handles [OF assms(1) refl, of get_cpu s] obtain d' where
    d': "irq_handler dev_ioread32 (dev_iowrite32 get_cpu) (major s) d s =
      Inr (IRQ_HANDLED, d', s\<lparr>flag := flag_after (irq_status d) (flag s)\<rparr>)"
      "irq_status d' = 0" "dev_word_at d' = dev_word_at d"
    by blast
  from irq_handler_frame [OF d'(1)] assms(2) have "irq_inv d'" by (simp add: dev_frame_def)
  with d' show ?thesis by (simp add: irq_inv_def)
qed

theorem irq_handler_acknowledges_witness:
  "\<exists>d'. irq_handler dev_ioread32 (dev_iowrite32 (cpu_of [])) 240 (hucdev_raise_irq sample_dev 1)
      (driver_init 240) = Inr (IRQ_HANDLED, d', \<lparr>flag = 2, payload_left = 0, major = 240\<rparr>) \<and>
     \<not> irq_line (trace d')"
proof -
  let ?d = "hucdev_raise_irq sample_dev 1"
  have "huc_wf ?d" "irq_inv ?d"
    by (simp_all add: hucdev_raise_irq_def sample_dev_eq huc_wf_def irq_inv_def irq_line_def emit_def)
  from irq_handler_acknowledges [OF this, of "cpu_of []" "driver_init 240"] show ?thesis
    by (auto simp: driver_init_def flag_after_def hucdev_raise_irq_def sample_dev_eq emit_def)
qed

text \<open>Probe returns 0 exactly when every fallible call succeeds, and then it holds all
  its resources; when it returns an error the character region and the cdev, and whatever
  else was acquired before the failing call, are still held.\<close>

lemma probe_result_and_resources:
  "(fst (huc_probe env s) = 0 \<longleftrightarrow>
      pe_class_ok env \<and> 0 \<le> pe_enable env \<and> pe_region env = 0 \<and> pe_iomap env \<and> 0 \<le> pe_irq env) \<and>
   (fst (huc_probe env s) = 0 \<longrightarrow>
      held (snd (snd (huc_probe env s))) =
        {ChrdevRegion, Cdev, ClassObj, DeviceNode, PciEnabled, BarRegion, Iomap, IrqLine}) \<and>
   {ChrdevRegion, Cdev} \<subseteq> held (snd (snd (huc_probe env s)))"
  by (auto simp: huc_probe_def held_def Let_def drv_simps)

end
