(* ===== verification/Huc_Bytecode.thy ===== *)
theory Huc_Bytecode
  imports Huc_Prelude
begin

text \<open>
  The eBPF program of \<^verbatim>\<open>guestend/bytecode.c\<close>: a kprobe on the kernel's
  \<^verbatim>\<open>sched_setaffinity\<close> that appends the requested CPU mask to the array map
  \<^verbatim>\<open>cpuindex_mask_maps\<close>, whose entry 0 counts the masks.  The map belongs to the kernel:
  its lookup and update are parameters of the program, and the locale \<open>bpf_array_map\<close>
  states what the kernel documents about an array map with the declared number of
  entries.  The program runs concurrently on several CPUs, so besides the function there
  is a step relation with one step per access to the map.
\<close>

section \<open>The map\<close>

definition MAX_ENTRIES :: nat where "MAX_ENTRIES = 64"

locale bpf_array_map =
  fixes lookup :: "'m \<Rightarrow> u32 \<Rightarrow> u64 option"
    and update :: "'m \<Rightarrow> u32 \<Rightarrow> u64 \<Rightarrow> 'm"
    and cells :: "'m \<Rightarrow> u64 list"
    and valid :: "'m \<Rightarrow> bool"
  assumes cells_length: "valid m \<Longrightarrow> length (cells m) = MAX_ENTRIES"
    and lookup_cells: "valid m \<Longrightarrow>
      lookup m k = (if unat k < MAX_ENTRIES then Some (cells m ! unat k) else None)"
    and update_valid: "valid m \<Longrightarrow> valid (update m k v)"
    and update_cells: "valid m \<Longrightarrow> cells (update m k v) = (cells m)[unat k := v]"

text \<open>
  The map as declared: \<^verbatim>\<open>BPF_MAP_TYPE_ARRAY\<close>, \<^verbatim>\<open>MAX_ENTRIES\<close> entries of 64 bits, all zero
  when it is created.  Updating beyond the last entry fails and changes nothing.
\<close>

definition cpuindex_mask_maps :: "u64 list" where
  "cpuindex_mask_maps = replicate MAX_ENTRIES 0"

definition array_lookup :: "u64 list \<Rightarrow> u32 \<Rightarrow> u64 option" where
  "array_lookup m k = (if unat k < length m then Some (m ! unat k) else None)"

definition array_update :: "u64 list \<Rightarrow> u32 \<Rightarrow> u64 \<Rightarrow> u64 list" where
  "array_update m k v = m[unat k := v]"

interpretation cpuindex: bpf_array_map array_lookup array_update "\<lambda>m. m" "\<lambda>m. length m = MAX_ENTRIES"
  by unfold_locales (simp_all add: array_lookup_def array_update_def)

section \<open>The program\<close>

text \<open>
  \<open>cpu_set\<close> is what \<^verbatim>\<open>bpf_probe_read\<close> reads from the second argument.  The counter is
  incremented through the pointer to entry 0 and read again for the index.
\<close>

definition bpf_prog1 ::
    "('m \<Rightarrow> u32 \<Rightarrow> u64 option) \<Rightarrow> ('m \<Rightarrow> u32 \<Rightarrow> u64 \<Rightarrow> 'm) \<Rightarrow> u64 \<Rightarrow> 'm \<Rightarrow> 'm" where
  "bpf_prog1 lookup update cpu_set m =
     (case lookup m 0 of
        None \<Rightarrow> m
      | Some tp \<Rightarrow>
          if tp = of_nat (MAX_ENTRIES - 1) then m
          else let m = update m 0 (tp + 1)
               in case lookup m 0 of None \<Rightarrow> m | Some tp \<Rightarrow> update m (ucast tp) cpu_set)"

section \<open>Calls one after the other\<close>

text \<open>The contents after the masks \<open>ms\<close> were recorded: a count, then the masks in order.\<close>

definition recorded :: "u64 list \<Rightarrow> u64 list" where
  "recorded ms = of_nat (length ms) # ms @ replicate (MAX_ENTRIES - 1 - length ms) 0"

lemma length_recorded: "length ms < MAX_ENTRIES \<Longrightarrow> length (recorded ms) = MAX_ENTRIES"
  by (simp add: recorded_def)

lemma recorded_Nil: "recorded [] = cpuindex_mask_maps"
  by (simp add: recorded_def cpuindex_mask_maps_def MAX_ENTRIES_def numeral_eq_Suc)

lemma recorded_snoc:
  assumes "length ms < MAX_ENTRIES - 1"
  shows "(recorded ms)[0 := of_nat (length ms) + 1, Suc (length ms) := v] = recorded (ms @ [v])"
proof -
  from assms obtain k where "MAX_ENTRIES - 1 - length ms = Suc k"
    by (metis Suc_diff_Suc)
  moreover from this have "MAX_ENTRIES - 1 - length (ms @ [v]) = k" by simp
  ultimately show ?thesis by (simp add: recorded_def list_update_append add.commute)
qed

lemma unat_small_count: "n < MAX_ENTRIES \<Longrightarrow> unat (of_nat n :: u64) = n"
  by (simp add: unat_of_nat MAX_ENTRIES_def)

lemma unat_small_index: "n < MAX_ENTRIES \<Longrightarrow> unat (ucast (of_nat n :: u64) :: u32) = n"
proof -
  assume "n < MAX_ENTRIES"
  then show ?thesis
    using unat_small_count [of n]
    by (simp only: unsigned_ucast_eq take_bit_eq_mod) (simp add: MAX_ENTRIES_def)
qed

context bpf_array_map
begin

lemma prog1_full:
  assumes "valid m" "cells m = recorded ms" "length ms = MAX_ENTRIES - 1"
  shows "bpf_prog1 lookup update v m = m"
  using assms by (simp add: bpf_prog1_def lookup_cells recorded_def MAX_ENTRIES_def)

lemma prog1_records:
  assumes "valid m" "cells m = recorded ms" "length ms < MAX_ENTRIES - 1"
  shows "valid (bpf_prog1 lookup update v m) \<and> cells (bpf_prog1 lookup update v m) = recorded (ms @ [v])"
proof -
  have pos: "0 < MAX_ENTRIES" by (simp add: MAX_ENTRIES_def)
  have top: "lookup m 0 = Some (of_nat (length ms))"
    using assms pos by (simp add: lookup_cells recorded_def)
  have ne: "of_nat (length ms) \<noteq> (of_nat (MAX_ENTRIES - 1) :: u64)"
  proof
    assume "of_nat (length ms) = (of_nat (MAX_ENTRIES - 1) :: u64)"
    then have "unat (of_nat (length ms) :: u64) = unat (of_nat (MAX_ENTRIES - 1) :: u64)"
      by (rule arg_cong)
    moreover have "unat (of_nat (length ms) :: u64) = length ms"
      using assms(3) by (intro unat_small_count) linarith
    moreover have "unat (of_nat (MAX_ENTRIES - 1) :: u64) = MAX_ENTRIES - 1"
      using pos by (intro unat_small_count) linarith
    ultimately show False using assms(3) by linarith
  qed
  let ?m = "update m 0 (of_nat (length ms) + 1)"
  have v: "valid ?m" using assms(1) by (rule update_valid)
  have c: "cells ?m = (recorded ms)[0 := of_nat (length ms) + 1]"
    using assms by (simp add: update_cells)
  let ?k = "ucast (of_nat (length ms) + 1 :: u64) :: u32"
  have look: "lookup ?m 0 = Some (of_nat (length ms) + 1)"
    using pos by (simp add: lookup_cells [OF v] c recorded_def)
  have "of_nat (length ms) + 1 = (of_nat (Suc (length ms)) :: u64)" by simp
  then have k: "unat ?k = Suc (length ms)"
    using assms(3) unat_small_index [of "Suc (length ms)"] by (simp only:)
  have "bpf_prog1 lookup update v m = update ?m ?k v"
    by (simp add: bpf_prog1_def top ne [simplified] Let_def look)
  moreover have "cells (update ?m ?k v) = recorded (ms @ [v])"
    using recorded_snoc [OF assms(3), of v] by (simp only: update_cells [OF v] c k)
  ultimately have "bpf_prog1 lookup update v m = update ?m ?k v"
    "cells (update ?m ?k v) = recorded (ms @ [v])" .
  then show ?thesis using v by (simp add: update_valid)
qed

lemma prog1_run:
  assumes "valid m" "cells m = recorded ms" "length ms < MAX_ENTRIES"
  shows "valid (fold (bpf_prog1 lookup update) vs m) \<and>
    cells (fold (bpf_prog1 lookup update) vs m) = recorded (take (MAX_ENTRIES - 1) (ms @ vs))"
  using assms
proof (induction vs arbitrary: m ms)
  case Nil
  then show ?case by simp
next
  case (Cons v vs)
  show ?case
  proof (cases "length ms < MAX_ENTRIES - 1")
    case True
    with Cons.prems prog1_records [of m ms v] Cons.IH [of "bpf_prog1 lookup update v m" "ms @ [v]"]
    show ?thesis by simp
  next
    case False
    with Cons.prems have full: "length ms = MAX_ENTRIES - 1" by simp
    with Cons.prems prog1_full [of m ms v] Cons.IH [of m ms] show ?thesis by simp
  qed
qed

end

section \<open>Calls on several CPUs\<close>

text \<open>
  The program of each CPU stops between its accesses to the map: after the test of the
  counter, after the atomic increment, after reading the counter back as the index, and
  after the update.
\<close>

datatype prog_pc = Entered u64 | Checked u64 | Added u64 | Indexed u64 u32 | Finished

record racing =
  rmap :: "u64 list"
  pcs :: "nat \<Rightarrow> prog_pc"

definition goto :: "racing \<Rightarrow> nat \<Rightarrow> prog_pc \<Rightarrow> racing" where
  "goto s t pc = s\<lparr>pcs := (pcs s)(t := pc)\<rparr>"

inductive prog_step :: "racing \<Rightarrow> racing \<Rightarrow> bool" where
  full: "pcs s t = Entered v \<Longrightarrow> rmap s ! 0 = of_nat (MAX_ENTRIES - 1) \<Longrightarrow>
    prog_step s (goto s t Finished)"
| check: "pcs s t = Entered v \<Longrightarrow> rmap s ! 0 \<noteq> of_nat (MAX_ENTRIES - 1) \<Longrightarrow>
    prog_step s (goto s t (Checked v))"
| add: "pcs s t = Checked v \<Longrightarrow>
    prog_step s (goto (s\<lparr>rmap := array_update (rmap s) 0 (rmap s ! 0 + 1)\<rparr>) t (Added v))"
| index: "pcs s t = Added v \<Longrightarrow> prog_step s (goto s t (Indexed v (ucast (rmap s ! 0))))"
| store: "pcs s t = Indexed v i \<Longrightarrow>
    prog_step s (goto (s\<lparr>rmap := array_update (rmap s) i v\<rparr>) t Finished)"

definition racing_start :: "(nat \<Rightarrow> u64) \<Rightarrow> racing" where
  "racing_start masks = \<lparr>rmap = cpuindex_mask_maps, pcs = (\<lambda>t. Entered (masks t))\<rparr>"

text \<open>The same steps as a function: the next step of CPU \<open>t\<close>.\<close>

definition run_cpu :: "nat \<Rightarrow> racing \<Rightarrow> racing" where
  "run_cpu t s =
     (case pcs s t of
        Entered v \<Rightarrow> if rmap s ! 0 = of_nat (MAX_ENTRIES - 1) then goto s t Finished
                     else goto s t (Checked v)
      | Checked v \<Rightarrow> goto (s\<lparr>rmap := array_update (rmap s) 0 (rmap s ! 0 + 1)\<rparr>) t (Added v)
      | Added v \<Rightarrow> goto s t (Indexed v (ucast (rmap s ! 0)))
      | Indexed v i \<Rightarrow> goto (s\<lparr>rmap := array_update (rmap s) i v\<rparr>) t Finished
      | Finished \<Rightarrow> s)"

lemma run_cpu_step: "prog_step\<^sup>*\<^sup>* s (run_cpu t s)"
  by (cases "pcs s t") (auto simp: run_cpu_def intro: prog_step.intros [simplified])

lemma schedule_steps: "prog_step\<^sup>*\<^sup>* s (fold run_cpu ts s)"
  by (induction ts arbitrary: s) (auto intro: rtranclp_trans run_cpu_step)

lemma cpuindex_mask_maps_unfold:
  "cpuindex_mask_maps = 0 # 0 # 0 # replicate 61 0"
  by (simp add: cpuindex_mask_maps_def MAX_ENTRIES_def numeral_eq_Suc)

section \<open>Properties of the bytecode\<close>

text \<open>C28. Calls that do not overlap record their masks in order behind the count, up to
  63 of them; later masks are dropped and the count stays at 63.\<close>

theorem bytecode_records_masks:
  assumes "bpf_array_map lookup update cells valid"
    and "valid m" "cells m = cpuindex_mask_maps"
  shows "cells (fold (bpf_prog1 lookup update) vs m) = recorded (take (MAX_ENTRIES - 1) vs)"
  using bpf_array_map.prog1_run [OF assms(1,2), of "[]" vs] assms(3)
  by (simp add: recorded_Nil MAX_ENTRIES_def)

theorem bytecode_records_masks_witness:
  "bpf_array_map array_lookup array_update (\<lambda>m. m) (\<lambda>m. length m = MAX_ENTRIES) \<and>
   fold (bpf_prog1 array_lookup array_update) [4, 8] cpuindex_mask_maps = recorded [4, 8]"
  using bytecode_records_masks [OF cpuindex.bpf_array_map_axioms, of cpuindex_mask_maps "[4, 8]"]
    cpuindex.bpf_array_map_axioms
  by (simp add: cpuindex_mask_maps_def MAX_ENTRIES_def)

text \<open>Two CPUs can both increment the counter before either reads it back: both then
  use index 2, the count says two masks, entry 1 is still zero and the mask of the first
  CPU is lost.\<close>

lemma bytecode_race_loses_mask:
  "\<exists>s. prog_step\<^sup>*\<^sup>* (racing_start masks) s \<and> pcs s 0 = Finished \<and> pcs s 1 = Finished \<and>
     rmap s ! 0 = 2 \<and> rmap s ! 1 = 0 \<and> rmap s ! 2 = masks 1"
proof -
  let ?s = "fold run_cpu [0, 1, 0, 1, 0, 1, 0, 1] (racing_start masks)"
  have "pcs ?s 0 = Finished \<and> pcs ?s 1 = Finished \<and> rmap ?s ! 0 = 2 \<and> rmap ?s ! 1 = 0 \<and>
      rmap ?s ! 2 = masks 1"
    by (simp add: run_cpu_def racing_start_def goto_def array_update_def cpuindex_mask_maps_unfold
        MAX_ENTRIES_def)
  then show ?thesis using schedule_steps by blast
qed

section \<open>Past the last entry\<close>

text \<open>The program tests the count for equality with 63; beyond it nothing is recorded.\<close>

lemma prog1_beyond:
  assumes "length m = MAX_ENTRIES" "m ! 0 = of_nat c" "64 \<le> c" "c + 1 < 2 ^ 32"
  shows "bpf_prog1 array_lookup array_update v m = m[0 := of_nat (Suc c)]"
proof -
  have u: "unat (of_nat n :: u64) = n" if "n < 2 ^ 32" for n
    using that by (simp add: unat_of_nat)
  have ne: "(of_nat c :: u64) \<noteq> of_nat (MAX_ENTRIES - 1)"
  proof
    assume "(of_nat c :: u64) = of_nat (MAX_ENTRIES - 1)"
    then have "unat (of_nat c :: u64) = unat (of_nat (MAX_ENTRIES - 1) :: u64)" by (rule arg_cong)
    then show False using assms(3,4) u [of c] u [of "MAX_ENTRIES - 1"] by (simp add: MAX_ENTRIES_def)
  qed
  have "unat (ucast (of_nat (Suc c) :: u64) :: u32) = Suc c"
    using assms(4) u [of "Suc c"] by (simp only: unsigned_ucast_eq take_bit_eq_mod) simp
  then have idx: "unat (ucast (of_nat c + 1 :: u64) :: u32) = Suc c" by (simp add: add.commute)
  have len: "0 < length m" using assms(1) by (simp add: MAX_ENTRIES_def)
  have beyond: "m[0 := x, Suc c := v] = m[0 := x]" for x
    using assms(1,3) by (intro list_update_beyond) (simp add: MAX_ENTRIES_def)
  show ?thesis
    using ne len assms(2) idx beyond
    by (simp add: bpf_prog1_def array_lookup_def array_update_def Let_def add.commute)
qed

lemma prog1_run_beyond:
  assumes "length m = MAX_ENTRIES" "m ! 0 = of_nat c" "64 \<le> c" "c + length vs < 2 ^ 32"
  shows "fold (bpf_prog1 array_lookup array_update) vs m = m[0 := of_nat (c + length vs)]"
  using assms
proof (induction vs arbitrary: m c)
  case Nil
  then show ?case using list_update_id [of m 0] by simp
next
  case (Cons v vs)
  have len: "0 < length m" using Cons.prems(1) by (simp add: MAX_ENTRIES_def)
  have "bpf_prog1 array_lookup array_update v m = m[0 := of_nat (Suc c)]"
    using Cons.prems by (intro prog1_beyond) simp_all
  then show ?case using Cons.IH [of "m[0 := of_nat (Suc c)]" "Suc c"] Cons.prems len by simp
qed

text \<open>Two CPUs that both pass the test when 62 masks are recorded push the count to 64: both
  masks are lost although an entry was free, the test for 63 never succeeds any more, and
  every later call only increments the count and records nothing.\<close>

lemma bytecode_count_overshoots:
  assumes "length ms = 62" "s0 = \<lparr>rmap = recorded ms, pcs = (\<lambda>t. Entered (masks t))\<rparr>" "length vs < 2 ^ 31"
  shows "\<exists>s. prog_step\<^sup>*\<^sup>* s0 s \<and> pcs s 0 = Finished \<and> pcs s 1 = Finished \<and>
     rmap s = (recorded ms)[0 := 64] \<and>
     fold (bpf_prog1 array_lookup array_update) vs (rmap s) = (recorded ms)[0 := of_nat (64 + length vs)]"
proof -
  let ?s = "fold run_cpu [0, 1, 0, 1, 0, 1, 0, 1] s0"
  obtain x where r: "recorded ms = 62 # ms @ [x]" "x = 0"
    using assms(1) by (simp add: recorded_def MAX_ENTRIES_def)
  have end_: "(64 # ms @ [x])[64 := y] = 64 # ms @ [x]" for y :: u64
    using assms(1) by (intro list_update_beyond) simp
  have "pcs ?s 0 = Finished \<and> pcs ?s 1 = Finished \<and> rmap ?s = 64 # ms @ [x]"
    using end_ by (simp add: assms(2) r run_cpu_def goto_def array_update_def MAX_ENTRIES_def)
  moreover have "fold (bpf_prog1 array_lookup array_update) vs (64 # ms @ [x]) = (64 # ms @ [x])[0 := of_nat (64 + length vs)]"
    using assms(1,3) by (intro prog1_run_beyond) (simp_all add: MAX_ENTRIES_def)
  ultimately show ?thesis using schedule_steps [of s0 "[0, 1, 0, 1, 0, 1, 0, 1]"] r
    by (intro exI [of _ ?s]) simp
qed

end
