(* ===== verification/Huc_Daemon.thy ===== *)
theory Huc_Daemon
  imports Huc_Driver Huc_Bytecode
begin

text \<open>
  The guest daemon of \<^verbatim>\<open>guestend/daemon.c\<close>: receiving a message from the device node,
  saving and loading the bytecode in a child process, and the child's loop that forwards
  the masks of the eBPF map to the host.  System calls on the device node are the
  parameters \<open>lseek\<close> and \<open>read\<close> (contract \<open>message_file\<close>, provided by the driver), the
  map operations are \<open>lookup\<close> and \<open>update\<close> (contract \<open>bpf_array_map\<close>).
\<close>

section \<open>Receiving a message\<close>

text \<open>
  What \<^verbatim>\<open>recv_bytecode\<close> returns: the header, the size of the allocated payload block, the
  bytes from its start on, and how far it was written.  The source returns the same struct
  on every path; \<open>rm_path\<close> records which one was taken.
\<close>

datatype recv_path = SeekError | ReadError | MallocError | PayloadSeekError | PayloadError | Received

record recv_msg =
  rm_path :: recv_path
  rm_header :: huc_msg_header
  rm_size :: nat
  rm_mem :: mem
  rm_written :: int

text \<open>
  The payload loop; \<open>None\<close> when a read never returns.  Each read copies what the driver
  delivers to the block at the current offset, without regard to the size of the block.
\<close>

partial_function (option) recv_payload ::
    "('k \<Rightarrow> nat \<Rightarrow> (int \<times> bytes \<times> 'k) option) \<Rightarrow> 'k \<Rightarrow> mem \<Rightarrow> int \<Rightarrow> int \<Rightarrow>
     (recv_path \<times> mem \<times> int \<times> 'k) option" where
  "recv_payload read k m offset left =
     (if 0 < left then
        (case read k 4 of
           None \<Rightarrow> None
         | Some (len, bs, k) \<Rightarrow>
             if len < 0 then Some (PayloadError, m, offset, k)
             else recv_payload read k (mem_put m (nat offset) bs) (offset + len) (left - len))
      else Some (Received, m, offset, k))"

definition recv_bytecode ::
    "('k \<Rightarrow> int \<Rightarrow> int \<times> 'k) \<Rightarrow> ('k \<Rightarrow> nat \<Rightarrow> (int \<times> bytes \<times> 'k) option) \<Rightarrow> bool \<Rightarrow> mem \<Rightarrow> mem \<Rightarrow> 'k \<Rightarrow>
     (recv_msg \<times> 'k) option" where
  "recv_bytecode lseek read malloc_ok stack heap k =
     (let fail = (\<lambda>p h k. Some (\<lparr>rm_path = p, rm_header = h, rm_size = 0, rm_mem = heap,
                                 rm_written = 0\<rparr>, k));
          junk = header_of_mem stack 0;
          (r, k) = lseek k 16
      in if r < 0 then fail SeekError junk k
         else case read k header_size of
           None \<Rightarrow> None
         | Some (len, bs, k) \<Rightarrow>
             if len < 0 then fail ReadError junk k
             else let h = header_of_mem (mem_put stack 0 bs) 0 in
               if \<not> malloc_ok then fail MallocError h k
               else let (r, k) = lseek k 20 in
                 if r < 0 then fail PayloadSeekError h k
                 else case recv_payload read k heap 0 (int (unat (payload_len h))) of
                   None \<Rightarrow> None
                 | Some (p, m, offset, k) \<Rightarrow>
                     Some (\<lparr>rm_path = p, rm_header = h, rm_size = unat (payload_len h), rm_mem = m,
                            rm_written = offset\<rparr>, k))"

section \<open>Saving the bytecode\<close>

text \<open>The outcomes of \<^verbatim>\<open>fopen\<close>, \<^verbatim>\<open>fwrite\<close> and \<^verbatim>\<open>fclose\<close>, and the prefix that reaches the
  file when one of the last two fails.\<close>

record save_env =
  sv_open :: bool
  sv_written :: nat
  sv_close :: int
  sv_flushed :: nat

definition save_bytecode ::
    "save_env \<Rightarrow> (string \<rightharpoonup> bytes) \<Rightarrow> string \<Rightarrow> bytes \<Rightarrow> nat \<Rightarrow> int \<times> (string \<rightharpoonup> bytes)" where
  "save_bytecode env fs path data len =
     (if \<not> sv_open env then (1, fs)
      else if sv_written env \<noteq> len then (1, fs(path \<mapsto> take (sv_flushed env) data))
      else if sv_close env \<noteq> 0 then (1, fs(path \<mapsto> take (sv_flushed env) data))
      else (0, fs(path \<mapsto> take len data)))"

section \<open>Masks\<close>

definition isPowerOfTwo :: "u64 \<Rightarrow> bool" where
  "isPowerOfTwo n \<longleftrightarrow> n \<noteq> 0 \<and> n AND (n - 1) = 0"

partial_function (option) find_loop :: "u64 \<Rightarrow> u64 \<Rightarrow> int \<Rightarrow> int option" where
  "find_loop n i pos = (if i AND n = 0 then find_loop n (push_bit 1 i) (pos + 1) else Some pos)"

definition findPosition :: "u64 \<Rightarrow> int option" where
  "findPosition n = (if \<not> isPowerOfTwo n then Some (- 1) else find_loop n 1 0)"

definition print_cpu_set_mask :: "u64 \<Rightarrow> nat list" where
  "print_cpu_set_mask cset = filter (\<lambda>i. CPU_ISSET_S i cset) [0..<MAX_CPU]"

definition print_binary_mask :: "u64 \<Rightarrow> int \<Rightarrow> string" where
  "print_binary_mask value len =
     (if 8 < len then []
      else map (\<lambda>i. if value AND push_bit i 1 \<noteq> 0 then CHR ''1'' else CHR ''0'') [0..<nat (len * 8)]
           @ [CHR 0x0A])"

section \<open>The child: forwarding masks to the host\<close>

text \<open>
  A failing lookup leaves the variable \<open>value\<close> as it was.  The state of the loop is the
  map, \<open>value\<close>, and the masks passed to \<^verbatim>\<open>ioctl\<close> so far.
\<close>

definition lookup_into :: "('m \<Rightarrow> u32 \<Rightarrow> u64 option) \<Rightarrow> 'm \<Rightarrow> u32 \<Rightarrow> u64 \<Rightarrow> u64" where
  "lookup_into lookup m k value = (case lookup m k of None \<Rightarrow> value | Some v \<Rightarrow> v)"

definition drain_step ::
    "('m \<Rightarrow> u32 \<Rightarrow> u64 option) \<Rightarrow> ('m \<Rightarrow> u32 \<Rightarrow> u64 \<Rightarrow> 'm) \<Rightarrow> nat \<Rightarrow> 'm \<times> u64 \<times> u64 list \<Rightarrow>
     'm \<times> u64 \<times> u64 list" where
  "drain_step lookup update i st =
     (case st of (m, value, ioctls) \<Rightarrow>
        let value = lookup_into lookup m (of_nat i) value
        in if value \<noteq> 0 then (update m (of_nat i) 0, 0, ioctls @ [value])
           else (m, value, ioctls))"

fun drain ::
    "('m \<Rightarrow> u32 \<Rightarrow> u64 option) \<Rightarrow> ('m \<Rightarrow> u32 \<Rightarrow> u64 \<Rightarrow> 'm) \<Rightarrow> nat \<Rightarrow> 'm \<times> u64 \<times> u64 list \<Rightarrow>
     'm \<times> u64 \<times> u64 list" where
  "drain lookup update 0 st = st"
| "drain lookup update (Suc i) st = drain lookup update i (drain_step lookup update (Suc i) st)"

definition poll_map ::
    "('m \<Rightarrow> u32 \<Rightarrow> u64 option) \<Rightarrow> ('m \<Rightarrow> u32 \<Rightarrow> u64 \<Rightarrow> 'm) \<Rightarrow> 'm \<Rightarrow> u64 \<Rightarrow> 'm \<times> u64 \<times> u64 list" where
  "poll_map lookup update m value =
     (let value = lookup_into lookup m 0 value
      in if value \<noteq> 0
         then (case drain lookup update MAX_CPU (m, value, []) of
                 (m, value, ioctls) \<Rightarrow> (update m 0 value, value, ioctls))
         else (m, value, []))"

section \<open>The parent\<close>

text \<open>
  One turn of the outer loop after a message arrived.  \<open>pid\<close> is the result of
  \<^verbatim>\<open>fork\<close>; the processes still running are part of the state.
\<close>

record daemon =
  child_pid :: int
  running :: "int set"
  files :: "string \<rightharpoonup> bytes"

datatype daemon_role = Parent | Child

definition SAVED_BYTECODE_FILE :: string where
  "SAVED_BYTECODE_FILE = ''/tmp/bytecode''"

definition daemon_init :: daemon where
  "daemon_init = \<lparr>child_pid = -1, running = {}, files = Map.empty\<rparr>"

definition handle_message ::
    "save_env \<Rightarrow> huc_msg_header \<Rightarrow> bytes \<Rightarrow> int \<Rightarrow> daemon \<Rightarrow> daemon_role \<times> daemon" where
  "handle_message env h data pid s =
     (if msg_type h = PROGRAM_INJECTION then
        let s = s\<lparr>files := snd (save_bytecode env (files s) SAVED_BYTECODE_FILE data
                                (unat (payload_len h)))\<rparr>
        in if pid = -1 then (Parent, s\<lparr>child_pid := -1\<rparr>)
           else if pid = 0 then (Child, s\<lparr>child_pid := 0\<rparr>)
           else let s = s\<lparr>running := insert pid (running s)\<rparr>;
                    s = (if child_pid s \<noteq> -1 then s\<lparr>running := running s - {child_pid s}\<rparr> else s)
                in (Parent, s\<lparr>child_pid := pid\<rparr>)
      else (Parent, s))"

section \<open>Receiving terminates and delivers the message\<close>

text \<open>The payload arrives in whole words: \<open>words_for n\<close> of them for \<open>n\<close> bytes.\<close>

definition words_for :: "nat \<Rightarrow> nat" where
  "words_for n = (n + 3) div 4"

lemma words_for_simps [simp]:
  "words_for 0 = 0" "0 < n \<Longrightarrow> words_for n = Suc (words_for (n - 4))"
proof -
  show "words_for 0 = 0" by (simp add: words_for_def)
  show "words_for n = Suc (words_for (n - 4))" if "0 < n"
    using that unfolding words_for_def by arith
qed

lemma words_for_bounds: "n \<le> 4 * words_for n" "4 * words_for n \<le> n + 3"
  by (simp_all add: words_for_def)

definition word_bytes :: "(nat \<Rightarrow> u32) \<Rightarrow> nat \<Rightarrow> nat \<Rightarrow> bytes" where
  "word_bytes w i n = concat (map (\<lambda>j. le32 (w j)) [i..<i + n])"

lemma word_bytes_simps [simp]:
  "word_bytes w i 0 = []" "word_bytes w i (Suc n) = le32 (w i) @ word_bytes w (Suc i) n"
  by (simp_all add: word_bytes_def upt_rec)

lemma length_word_bytes [simp]: "length (word_bytes w i n) = 4 * n"
  by (induction n arbitrary: i) simp_all

lemma word_bytes_load32: "word_bytes (\<lambda>j. load32 m (4 * j)) i n = mem_get m (4 * i) (4 * n)"
proof (induction n arbitrary: i)
  case 0
  then show ?case by (simp add: mem_get_def)
next
  case (Suc n)
  then show ?case using mem_get_append [of m "4 * i" 4 "4 * n"]
    by (simp add: le32_load32 add.commute)
qed

context message_file
begin

lemma recv_payload_delivers:
  assumes "ok k" "st k = Payload n" "pos k = int (4 * i)" "1 \<le> i" "i + words_for n \<le> 16384"
  shows "\<exists>k'. recv_payload read k m (int off) (int n) =
      Some (Received, mem_put m off (word_bytes (data k) i (words_for n)),
            int (off + 4 * words_for n), k') \<and>
    ok k' \<and> data k' = data k \<and> st k' = (if n = 0 then Payload 0 else Idle)"
  using assms
proof (induction n arbitrary: k i m off rule: less_induct)
  case (less n)
  show ?case
  proof (cases "n = 0")
    case True
    with less.prems show ?thesis by (subst recv_payload.simps) simp
  next
    case False
    then have i: "i < 16384" using less.prems(5) by simp
    from read_payload [OF less.prems(1-4) i] obtain k1 where
      r: "read k 4 = Some (4, le32 (data k i), k1)" and k1: "ok k1" "pos k1 = int (4 * Suc i)"
        "st k1 = (if n \<le> 4 then Idle else Payload (n - 4))" "data k1 = data k"
      by blast
    let ?m = "mem_put m off (le32 (data k i))"
    have step: "recv_payload read k m (int off) (int n) =
        recv_payload read k1 ?m (int (off + 4)) (int n - 4)"
      using False by (subst recv_payload.simps) (simp add: r add.commute)
    show ?thesis
    proof (cases "n \<le> 4")
      case True
      then have "words_for n = 1" using False by simp
      moreover have "recv_payload read k1 ?m (int (off + 4)) (int n - 4) =
          Some (Received, ?m, int (off + 4), k1)"
        using True by (subst recv_payload.simps) simp
      ultimately show ?thesis using True False step k1 by simp
    next
      case gt: False
      have "int n - 4 = int (n - 4)" using gt by simp
      moreover have "Suc i + words_for (n - 4) \<le> 16384" using less.prems(5) False by simp
      moreover have "mem_put ?m (off + 4) ys = mem_put m off (le32 (data k i) @ ys)" for ys
        using mem_put_append [of m off "le32 (data k i)" ys] by simp
      moreover have "n - 4 < n" "st k1 = Payload (n - 4)" "n - 4 \<noteq> 0" using gt False k1 by auto
      ultimately show ?thesis
        using less.IH [of "n - 4" k1 "Suc i" ?m "off + 4"] k1 step False by (auto simp: add_ac)
    qed
  qed
qed

lemma recv_bytecode_delivers:
  assumes "ok k" "st k = Header" "h = header_of_u32 (data k 4)"
    and "unat (payload_len h) \<le> 65516"
  shows "\<exists>k' m. recv_bytecode lseek read True stack heap k =
      Some (\<lparr>rm_path = Received, rm_header = h, rm_size = unat (payload_len h), rm_mem = m,
             rm_written = int (4 * words_for (unat (payload_len h)))\<rparr>, k') \<and>
    mem_get m 0 (4 * words_for (unat (payload_len h))) =
      word_bytes (data k) 5 (words_for (unat (payload_len h))) \<and>
    ok k' \<and> data k' = data k \<and> st k' = (if payload_len h = 0 then Payload 0 else Idle)"
proof -
  obtain k1 where k1: "lseek k 16 = (16, k1)" "ok k1" "pos k1 = int (4 * 4)" "st k1 = Header"
      "data k1 = data k"
    using seek [OF assms(1), of 16] assms(2) by auto
  obtain k2 where k2: "read k1 4 = Some (4, le32 (data k 4), k2)" "ok k2"
      "st k2 = Payload (unat (payload_len h))" "data k2 = data k"
    using read_header [OF k1(2,4,3)] k1(5) assms(3) by auto
  obtain k3 where k3: "lseek k2 20 = (20, k3)" "ok k3" "pos k3 = int (4 * 5)"
      "st k3 = Payload (unat (payload_len h))" "data k3 = data k"
    using seek [OF k2(2), of 20] k2 by auto
  have "5 + words_for (unat (payload_len h)) \<le> 16384"
    using assms(4) by (simp add: words_for_def)
  from recv_payload_delivers [OF k3(2,4,3) _ this, of heap 0] obtain k4 where
    k4: "recv_payload read k3 heap 0 (int (unat (payload_len h))) =
      Some (Received, mem_put heap 0 (word_bytes (data k) 5 (words_for (unat (payload_len h)))),
            int (4 * words_for (unat (payload_len h))), k4)" "ok k4" "data k4 = data k"
      "st k4 = (if unat (payload_len h) = 0 then Payload 0 else Idle)"
    using k3(5) by auto
  have "header_of_mem (mem_put stack 0 (le32 (data k 4))) 0 = h"
    using assms(3) header_of_u32_load32 [of "mem_put stack 0 (le32 (data k 4))" 0]
    by (simp add: load32_put_same)
  with k1 k2 k3 k4 show ?thesis
    using mem_get_put_same [of heap 0 "word_bytes (data k) 5 (words_for (unat (payload_len h)))"]
    by (auto simp: recv_bytecode_def unat_eq_0)
qed

lemma recv_bytecode_again:
  assumes "ok k" "st k = Payload 0" "h = header_of_u32 (data k 4)" "payload_len h = 0"
  shows "\<exists>k'. recv_bytecode lseek read True stack heap k =
      Some (\<lparr>rm_path = Received, rm_header = h, rm_size = 0, rm_mem = heap, rm_written = 0\<rparr>, k') \<and>
    ok k' \<and> st k' = Idle"
proof -
  obtain k1 where k1: "lseek k 16 = (16, k1)" "ok k1" "pos k1 = int (4 * 4)" "st k1 = Payload 0"
      "data k1 = data k"
    using seek [OF assms(1), of 16] assms(2) by auto
  obtain k2 where k2: "read k1 4 = Some (4, le32 (data k 4), k2)" "ok k2" "st k2 = Idle"
    using read_payload [OF k1(2,4,3)] k1(5) by auto
  obtain k3 where k3: "lseek k2 20 = (20, k3)" "ok k3" "st k3 = Idle"
    using seek [OF k2(2), of 20] k2 by auto
  have "header_of_mem (mem_put stack 0 (le32 (data k 4))) 0 = h"
    using assms(3) header_of_u32_load32 [of "mem_put stack 0 (le32 (data k 4))" 0]
    by (simp add: load32_put_same)
  moreover have "recv_payload read k3 heap 0 0 = Some (Received, heap, 0, k3)"
    by (subst recv_payload.simps) simp
  ultimately show ?thesis using k1 k2 k3 assms(4) by (auto simp: recv_bytecode_def)
qed

end

section \<open>Masks with one CPU\<close>

lemma isPowerOfTwo_iff: "isPowerOfTwo n \<longleftrightarrow> (\<exists>i < 64. n = push_bit i 1)"
  using word_single_bit_iff [of n] by (simp add: isPowerOfTwo_def)

lemma find_loop_low_bit:
  assumes "bit n i" "\<And>j. j < i \<Longrightarrow> \<not> bit n j" "j \<le> i"
  shows "find_loop n (push_bit j 1) (int j) = Some (int i)"
  using assms(3)
proof (induction j rule: inc_induct)
  case base
  have "push_bit i 1 AND n \<noteq> 0"
    using assms(1) by (auto simp: bit_eq_iff bit_simps intro!: exI [of _ i] dest: bit_imp_le_length)
  then show ?case by (subst find_loop.simps) simp
next
  case (step j)
  have "push_bit j 1 AND n = 0"
    using assms(2) [OF step(2)] by (auto intro!: bit_word_eqI simp: bit_simps)
  then show ?case using step.IH by (subst find_loop.simps) (simp add: ac_simps)
qed

lemma findPosition_single: "i < 64 \<Longrightarrow> findPosition (push_bit i 1) = Some (int i)"
  using find_loop_low_bit [of "push_bit i 1" i 0]
  by (auto simp: findPosition_def isPowerOfTwo_iff bit_simps)

lemma isPowerOfTwo_card: "isPowerOfTwo n \<longleftrightarrow> card {i. bit n i} = 1"
proof
  assume "isPowerOfTwo n"
  then obtain i where "i < 64" "n = push_bit i 1" by (auto simp: isPowerOfTwo_iff)
  then have "{i. bit n i} = {i}" by (auto simp: bit_simps)
  then show "card {i. bit n i} = 1" by simp
next
  assume "card {i. bit n i} = 1"
  then obtain i where i: "{i. bit n i} = {i}" by (rule card_1_singletonE)
  then have "bit n i" by blast
  then have "i < 64" using bit_imp_le_length by fastforce
  moreover have "n = push_bit i 1"
    using i by (intro bit_word_eqI) (auto simp: bit_simps)
  ultimately show "isPowerOfTwo n" by (auto simp: isPowerOfTwo_iff)
qed

section \<open>Forwarding the recorded masks\<close>

lemma unat_index: "i \<le> 64 \<Longrightarrow> unat (of_nat i :: u32) = i"
  by (simp add: unat_of_nat)

context bpf_array_map
begin

lemma drain_step_in_range:
  assumes "valid m" "cells m = c # xs" "i < length xs"
  shows "\<exists>m'. drain_step lookup update (Suc i) (m, v, io) =
      (m', 0, io @ filter (\<lambda>v. v \<noteq> 0) [xs ! i]) \<and> valid m' \<and> cells m' = c # xs[i := 0]"
proof -
  have n: "length xs = 63" using cells_length [OF assms(1)] assms(2) by (simp add: MAX_ENTRIES_def)
  then have u: "unat (of_nat (Suc i) :: u32) = Suc i"
    using assms(3) by (intro unat_index) simp
  then have "lookup m (of_nat (Suc i)) = Some (xs ! i)"
    unfolding lookup_cells [OF assms(1)] u using assms(2,3) n by (simp add: MAX_ENTRIES_def)
  moreover have "cells (update m (of_nat (Suc i)) 0) = c # xs[i := 0]"
    unfolding update_cells [OF assms(1)] u using assms(2) by simp
  moreover have "xs[i := 0] = xs" if "xs ! i = 0" using that by (metis list_update_id)
  ultimately show ?thesis
    using assms(1,2) by (simp add: drain_step_def lookup_into_def update_valid del: of_nat_Suc)
qed

lemma drain_in_range:
  assumes "valid m" "cells m = c # xs" "i \<le> length xs"
  shows "\<exists>m'. drain lookup update i (m, v, io) =
      (m', if i = 0 then v else 0, io @ rev (filter (\<lambda>v. v \<noteq> 0) (take i xs))) \<and>
    valid m' \<and> cells m' = c # replicate i 0 @ drop i xs"
  using assms
proof (induction i arbitrary: m xs v io)
  case 0
  then show ?case by simp
next
  case (Suc i)
  then obtain m1 where m1: "drain_step lookup update (Suc i) (m, v, io) =
      (m1, 0, io @ filter (\<lambda>v. v \<noteq> 0) [xs ! i])" "valid m1" "cells m1 = c # xs[i := 0]"
    using drain_step_in_range [of m c xs i v io] by auto
  have "take (Suc i) xs = take i xs @ [xs ! i]" using Suc.prems(3) by (simp add: take_Suc_conv_app_nth)
  moreover have "drop i (xs[i := 0]) = 0 # drop (Suc i) xs"
    using Suc.prems(3) by (simp add: drop_update_swap Cons_nth_drop_Suc [symmetric])
  moreover have "replicate i (0 :: u64) @ 0 # ys = 0 # replicate i 0 @ ys" for ys
    using replicate_app_Cons_same by fastforce
  ultimately show ?case
    using Suc.IH [OF m1(2,3), of 0 "io @ filter (\<lambda>v. v \<noteq> 0) [xs ! i]"] Suc.prems(3) m1(1)
    by (auto simp del: drain.simps(1))
qed

lemma poll_map_recorded:
  assumes "valid m" "cells m = recorded ms" "ms \<noteq> []" "length ms < MAX_ENTRIES"
  shows "\<exists>m'. poll_map lookup update m value =
      (m', 0, of_nat (length ms) # rev (filter (\<lambda>v. v \<noteq> 0) ms)) \<and>
    valid m' \<and> cells m' = cpuindex_mask_maps"
proof -
  let ?n = "of_nat (length ms) :: u64" and ?xs = "ms @ replicate (MAX_ENTRIES - 1 - length ms) 0"
  have len: "length ?xs = 63" using assms(4) by (simp add: MAX_ENTRIES_def)
  have c: "cells m = ?n # ?xs" using assms(2) by (simp add: recorded_def)
  have "unat ?n = length ms" using assms(4) by (rule unat_small_count)
  then have nz: "?n \<noteq> 0" using assms(3) by auto
  let ?m = "update m (of_nat 64) 0"
  have u: "unat (of_nat 64 :: u32) = 64" by (rule unat_index) simp
  have "?xs[63 := 0] = ?xs" by (rule list_update_beyond) (simp only: len)
  then have m: "valid ?m" "cells ?m = ?n # ?xs"
    using assms(1) by (simp_all only: update_valid update_cells u c) simp
  have step: "drain_step lookup update 64 (m, ?n, []) = (?m, 0, [?n])"
    using nz lookup_cells [OF assms(1), of "of_nat 64"] u
    by (simp add: drain_step_def lookup_into_def MAX_ENTRIES_def del: of_nat_numeral)
  obtain m' where m': "drain lookup update 63 (?m, 0, [?n]) =
      (m', 0, [?n] @ rev (filter (\<lambda>v. v \<noteq> 0) (take 63 ?xs)))" "valid m'"
      "cells m' = ?n # replicate 63 0 @ drop 63 ?xs"
    using drain_in_range [OF m, of 63 0 "[?n]"] len by auto
  have "drain lookup update MAX_CPU (m, ?n, []) = drain lookup update 63 (?m, 0, [?n])"
    using drain.simps(2) [of lookup update 63 "(m, ?n, [])"] step by (simp add: MAX_CPU_def)
  then have d: "drain lookup update MAX_CPU (m, ?n, []) =
      (m', 0, ?n # rev (filter (\<lambda>v. v \<noteq> 0) ms))"
    using m'(1) len by simp
  have "lookup m 0 = Some ?n"
    using lookup_cells [OF assms(1), of 0] c by (simp add: MAX_ENTRIES_def)
  then have "poll_map lookup update m value =
      (update m' 0 0, 0, ?n # rev (filter (\<lambda>v. v \<noteq> 0) ms))"
    using nz d by (simp add: poll_map_def lookup_into_def)
  moreover have "cells (update m' 0 0) = cpuindex_mask_maps"
    using len m' by (simp add: update_cells cpuindex_mask_maps_def MAX_ENTRIES_def numeral_eq_Suc)
  ultimately show ?thesis using m'(2) by (auto simp: update_valid)
qed

lemma poll_map_empty:
  assumes "valid m" "cells m = cpuindex_mask_maps"
  shows "poll_map lookup update m value = (m, 0, [])"
  using lookup_cells [OF assms(1), of 0] assms(2)
  by (simp add: poll_map_def lookup_into_def MAX_ENTRIES_def cpuindex_mask_maps_def)

end

section \<open>One child at a time\<close>

text \<open>
  The messages of a run of the parent, each with the outcomes of the calls it makes.
\<close>

type_synonym daemon_input = "save_env \<times> huc_msg_header \<times> bytes \<times> int"

definition parent_run :: "daemon_input list \<Rightarrow> daemon \<Rightarrow> daemon" where
  "parent_run ms s = foldl (\<lambda>s (env, h, data, pid). snd (handle_message env h data pid s)) s ms"

definition child_inv :: "daemon \<Rightarrow> bool" where
  "child_inv s \<longleftrightarrow> running s = (if child_pid s = -1 then {} else {child_pid s})"

lemma handle_message_child_inv:
  "child_inv s \<Longrightarrow> 0 < pid \<Longrightarrow> pid \<notin> running s \<Longrightarrow>
   child_inv (snd (handle_message env h data pid s)) \<and>
   running (snd (handle_message env h data pid s)) \<subseteq> insert pid (running s)"
  by (auto simp: child_inv_def handle_message_def Let_def split: if_splits)

lemma parent_run_child_inv:
  assumes "child_inv s" "\<forall>(env, h, data, pid) \<in> set ms. 0 < pid \<and> pid \<notin> running s"
    and "distinct (map (\<lambda>(env, h, data, pid). pid) ms)"
  shows "child_inv (parent_run ms s)"
  using assms
proof (induction ms arbitrary: s)
  case Nil
  then show ?case by (simp add: parent_run_def)
next
  case (Cons m ms)
  obtain env h data pid where m: "m = (env, h, data, pid)" by (cases m)
  let ?s = "snd (handle_message env h data pid s)"
  have s: "child_inv ?s" "running ?s \<subseteq> insert pid (running s)"
    using handle_message_child_inv [OF Cons.prems(1)] Cons.prems(2) m by auto
  have "\<forall>(env, h, data, pid') \<in> set ms. pid' \<noteq> pid"
    using Cons.prems(3) m by force
  then have "\<forall>(env, h, data, pid') \<in> set ms. 0 < pid' \<and> pid' \<notin> running ?s"
    using Cons.prems(2) s(2) by fastforce
  then have "child_inv (parent_run ms ?s)" using Cons.IH s(1) Cons.prems(3) by simp
  then show ?case by (simp add: parent_run_def m)
qed

section \<open>Properties of the daemon\<close>

lemma message_words:
  assumes "length p \<le> n"
  shows "take (length p) (word_bytes (dev_word_at (with_message s h p)) 5 (words_for n)) = p"
proof -
  have "length p \<le> 4 * words_for n" using assms words_for_bounds(1) [of n] by simp
  moreover have "mem_get (the (buf (with_message s h p))) 20 (length p) = p"
    using with_message_bytes [of s h p] by (simp add: mem_get_append)
  moreover have "dev_word_at (with_message s h p) = (\<lambda>j. load32 (the (buf (with_message s h p))) (4 * j))"
    by (simp add: dev_word_at_def fun_eq_iff)
  ultimately show ?thesis by (simp add: word_bytes_load32 mem_get_take)
qed

lemma header_word: "header_of_u32 (dev_word_at (with_message s h p) 4) = h"
  by (simp add: dev_word_at_def with_message_def)

lemma recv_bytecode_from_words:
  assumes "huc_wf d" "dev_word_at d = dev_word_at (with_message s h p)"
    and "length p = unat (payload_len h)" "length p \<le> 65516" "flag drv = 2"
  shows "\<exists>m k'. recv_bytecode file_lseek (file_read dev_ioread32) True stack heap
      \<lparr>k_dev = d, k_drv = drv, k_off = off\<rparr> =
      Some (\<lparr>rm_path = Received, rm_header = h, rm_size = length p, rm_mem = m,
             rm_written = int (4 * words_for (length p))\<rparr>, k') \<and>
    mem_get m 0 (length p) = p \<and> huc_wf (k_dev k') \<and> drv_ok (k_drv k') \<and>
    dev_word_at (k_dev k') = dev_word_at d \<and>
    drv_stage (k_drv k') = (if p = [] then Payload 0 else Idle)"
proof -
  let ?k = "\<lparr>k_dev = d, k_drv = drv, k_off = off\<rparr>"
  let ?n = "words_for (length p)"
  have "huc_wf (k_dev ?k) \<and> drv_ok (k_drv ?k)" "drv_stage (k_drv ?k) = Header"
    "h = header_of_u32 (dev_word_at (k_dev ?k) 4)"
    using assms header_word [of s h p] by (simp_all add: drv_ok_def drv_stage_def)
  from hucbus.huc_file.recv_bytecode_delivers [OF this, of stack heap] assms
  obtain k' m where r: "recv_bytecode file_lseek (file_read dev_ioread32) True stack heap ?k =
      Some (\<lparr>rm_path = Received, rm_header = h, rm_size = length p, rm_mem = m,
             rm_written = int (4 * ?n)\<rparr>, k')"
    "mem_get m 0 (4 * ?n) = word_bytes (dev_word_at d) 5 ?n"
    "huc_wf (k_dev k') \<and> drv_ok (k_drv k')" "dev_word_at (k_dev k') = dev_word_at d"
    "drv_stage (k_drv k') = (if payload_len h = 0 then Payload 0 else Idle)"
    by auto
  have "mem_get m 0 (length p) = p"
    using arg_cong [OF r(2), of "take (length p)"] words_for_bounds(1) [of "length p"]
      message_words [of p "length p" s h] assms(2)
    by (simp add: mem_get_take)
  moreover have "payload_len h = 0 \<longleftrightarrow> p = []" using assms(3) by (metis length_0_conv unat_eq_zero)
  ultimately show ?thesis using r by auto
qed

lemmas recv_bytecode_from_device = recv_bytecode_from_words [OF with_message_wf refl]

text \<open>When the driver is armed for a header and the device holds a message of at most
  65516 payload bytes, receiving returns: the daemon gets the header and exactly the payload
  bytes of the device.\<close>

lemma daemon_receives_message:
  assumes "huc_wf s" "length p = unat (payload_len h)" "length p \<le> 65516" "flag drv = 2"
  shows "\<exists>r k'. recv_bytecode file_lseek (file_read dev_ioread32) True stack heap
      \<lparr>k_dev = with_message s h p, k_drv = drv, k_off = off\<rparr> = Some (r, k') \<and>
    rm_path r = Received \<and> rm_header r = h \<and> mem_get (rm_mem r) 0 (length p) = p"
  using recv_bytecode_from_device [OF assms, of stack heap off] by auto

text \<open>C39. The payload is stored in units of four bytes whatever its length: the bytes
  written exceed the allocated block, by one to three bytes, exactly when the length is not
  a multiple of four.\<close>

theorem recv_overruns_block:
  assumes "huc_wf s" "length p = unat (payload_len h)" "length p \<le> 65516" "flag drv = 2"
    and "recv_bytecode file_lseek (file_read dev_ioread32) True stack heap
      \<lparr>k_dev = with_message s h p, k_drv = drv, k_off = off\<rparr> = Some (r, k')"
  shows "rm_size r = length p \<and> (int (rm_size r) < rm_written r \<longleftrightarrow> \<not> 4 dvd length p) \<and>
    rm_written r \<le> int (rm_size r) + 3"
proof -
  have "rm_size r = length p" "rm_written r = int (4 * words_for (length p))"
    using recv_bytecode_from_device [OF assms(1-4), of stack heap off] assms(5) by auto
  moreover have "length p < 4 * words_for (length p) \<longleftrightarrow> \<not> 4 dvd length p"
    unfolding words_for_def by presburger
  ultimately show ?thesis using words_for_bounds(2) [of "length p"] by auto
qed

theorem recv_overruns_block_witness:
  "\<exists>r k'. recv_bytecode file_lseek (file_read dev_ioread32) True (\<lambda>_. 0) (\<lambda>_. 0)
      \<lparr>k_dev = with_message sample_dev \<lparr>version = 1, msg_type = 1, payload_len = 1\<rparr> [5],
       k_drv = \<lparr>flag = 2, payload_left = 0, major = 240\<rparr>, k_off = 0\<rparr> = Some (r, k') \<and>
    int (rm_size r) < rm_written r"
proof -
  let ?h = "\<lparr>version = 1, msg_type = 1, payload_len = 1\<rparr>"
  let ?drv = "\<lparr>flag = 2, payload_left = 0, major = 240\<rparr>"
  obtain r k' where r: "recv_bytecode file_lseek (file_read dev_ioread32) True (\<lambda>_. 0) (\<lambda>_. 0)
      \<lparr>k_dev = with_message sample_dev ?h [5], k_drv = ?drv, k_off = 0\<rparr> = Some (r, k')"
    using recv_bytecode_from_device [OF sample_dev_wf, of "[5]" ?h ?drv "\<lambda>_. 0" "\<lambda>_. 0" 0] by auto
  with recv_overruns_block [OF sample_dev_wf _ _ _ r] show ?thesis by auto
qed

text \<open>A message without payload reaches the daemon twice: the driver leaves the
  payload stage only after a payload read, so the next receive reads the stale header as
  if a second message had arrived.\<close>

lemma empty_message_received_twice:
  assumes "huc_wf s" "payload_len h = 0" "flag drv = 2"
  shows "\<exists>r k' r' k''.
    recv_bytecode file_lseek (file_read dev_ioread32) True stack heap
      \<lparr>k_dev = with_message s h [], k_drv = drv, k_off = off\<rparr> = Some (r, k') \<and>
    recv_bytecode file_lseek (file_read dev_ioread32) True stack heap k' = Some (r', k'') \<and>
    rm_path r = Received \<and> rm_path r' = Received \<and> rm_header r = h \<and> rm_header r' = h \<and>
    drv_stage (k_drv k'') = Idle"
proof -
  obtain m k' where r: "recv_bytecode file_lseek (file_read dev_ioread32) True stack heap
      \<lparr>k_dev = with_message s h [], k_drv = drv, k_off = off\<rparr> =
      Some (\<lparr>rm_path = Received, rm_header = h, rm_size = 0, rm_mem = m, rm_written = 0\<rparr>, k')"
    "huc_wf (k_dev k') \<and> drv_ok (k_drv k')" "drv_stage (k_drv k') = Payload 0"
    "dev_word_at (k_dev k') = dev_word_at (with_message s h [])"
    using recv_bytecode_from_device [OF assms(1) _ _ assms(3), of "[]" h stack heap off] assms(2)
    by auto
  have "h = header_of_u32 (dev_word_at (k_dev k') 4)" by (simp add: r(4) header_word)
  from hucbus.huc_file.recv_bytecode_again [OF r(2,3) this assms(2), of stack heap] r(1)
  show ?thesis by fastforce
qed

text \<open>\<^verbatim>\<open>findPosition\<close> always returns: the index of the single CPU of a mask with one
  bit, and -1 for every other mask, zero included.\<close>

lemma findPosition_correct:
  "\<exists>p. findPosition n = Some p \<and>
    (if card {i. bit n i} = 1 then 0 \<le> p \<and> p < 64 \<and> n = push_bit (nat p) 1 else p = -1)"
proof (cases "isPowerOfTwo n")
  case True
  then obtain i where "i < 64" "n = push_bit i 1" by (auto simp: isPowerOfTwo_iff)
  then show ?thesis using True findPosition_single [of i] by (simp add: isPowerOfTwo_card)
next
  case False
  then show ?thesis by (simp add: findPosition_def isPowerOfTwo_card)
qed

lemma child_turn_after_calls:
  assumes "bpf_array_map lookup update cells valid"
    and "valid m" "cells m = cpuindex_mask_maps" "vs \<noteq> []" "length vs \<le> 63"
  shows "\<exists>m'. poll_map lookup update (fold (bpf_prog1 lookup update) vs m) old =
      (m', 0, of_nat (length vs) # rev (filter (\<lambda>v. v \<noteq> 0) vs)) \<and>
    valid m' \<and> cells m' = cpuindex_mask_maps"
proof -
  let ?m = "fold (bpf_prog1 lookup update) vs m"
  have "valid ?m \<and> cells ?m = recorded vs"
    using bpf_array_map.prog1_run [OF assms(1,2), of "[]" vs] assms(3,5)
    by (simp add: recorded_Nil MAX_ENTRIES_def)
  then show ?thesis
    using bpf_array_map.poll_map_recorded [OF assms(1), of ?m vs old] assms(4,5)
    by (simp add: MAX_ENTRIES_def)
qed

text \<open>C38. As long as every fork succeeds with a fresh process id, at most one child runs
  after any sequence of messages: the one of the last injection.\<close>

theorem at_most_one_child:
  assumes "\<forall>(env, h, data, pid) \<in> set ms. 0 < pid"
    and "distinct (map (\<lambda>(env, h, data, pid). pid) ms)"
  shows "running (parent_run ms daemon_init) =
    (if child_pid (parent_run ms daemon_init) = -1 then {} else {child_pid (parent_run ms daemon_init)})"
proof -
  have "child_inv daemon_init" by (simp add: child_inv_def daemon_init_def)
  moreover have "running daemon_init = {}" by (simp add: daemon_init_def)
  ultimately have "child_inv (parent_run ms daemon_init)"
    using parent_run_child_inv [of daemon_init ms] assms by simp
  then show ?thesis by (simp add: child_inv_def)
qed

definition save_ok :: "nat \<Rightarrow> save_env" where
  "save_ok n = \<lparr>sv_open = True, sv_written = n, sv_close = 0, sv_flushed = n\<rparr>"

definition injection_of :: "bytes \<Rightarrow> int \<Rightarrow> daemon_input" where
  "injection_of data pid =
     (save_ok (length data),
      \<lparr>version = DEFAULT_VERSION, msg_type = PROGRAM_INJECTION, payload_len = of_nat (length data)\<rparr>,
      data, pid)"

theorem at_most_one_child_witness:
  "running (parent_run [injection_of [1] 50, injection_of [2] 51] daemon_init) = {51}"
  using at_most_one_child [of "[injection_of [1] 50, injection_of [2] 51]"]
  by (simp add: injection_of_def parent_run_def handle_message_def daemon_init_def Let_def)

text \<open>A failing fork makes the parent forget the child it has: the next injection does
  not kill it, and two children forward masks from then on.\<close>

lemma fork_failure_leaves_two_children:
  assumes "msg_type h = PROGRAM_INJECTION" "running s = {child_pid s}" "0 < child_pid s"
    and "0 < pid" "pid \<noteq> child_pid s"
  shows "running (parent_run [(env, h, data, -1), (env, h, data, pid)] s) = {child_pid s, pid}"
  using assms by (auto simp: parent_run_def handle_message_def Let_def)

text \<open>The binary mask the child prints shows the first CPU leftmost; with the length 2
  it is called with, two masks print alike exactly when they agree on CPU 0..15.\<close>

lemma print_binary_mask_low_16:
  "print_binary_mask v 2 = print_binary_mask w 2 \<longleftrightarrow> (take_bit 16 v :: u64) = take_bit 16 w"
proof -
  have "(x AND push_bit i 1 \<noteq> 0) = bit x i" if "i < 16" for x :: u64 and i
  proof -
    have "x AND push_bit i 1 = (if bit x i then push_bit i 1 else 0)"
      using that by (auto intro!: bit_word_eqI simp: bit_simps)
    moreover have "push_bit i 1 \<noteq> (0 :: u64)"
      using that arg_cong [of "push_bit i 1" "0 :: u64" "\<lambda>w. bit w i"] by (auto simp: bit_simps)
    ultimately show ?thesis by simp
  qed
  then have "print_binary_mask v 2 = print_binary_mask w 2 \<longleftrightarrow> (\<forall>i < 16. bit v i = bit w i)"
    by (auto simp: print_binary_mask_def simp del: push_bit_of_1 split: if_splits)
  also have "\<dots> \<longleftrightarrow> take_bit 16 v = take_bit 16 w"
  proof
    assume "\<forall>i < 16. bit v i = bit w i"
    then show "take_bit 16 v = take_bit 16 w"
      by (intro bit_word_eqI) (auto simp: bit_take_bit_iff)
  next
    assume eq: "take_bit 16 v = take_bit 16 w"
    show "\<forall>i < 16. bit v i = bit w i"
    proof (intro allI impI)
      fix i :: nat assume "i < 16"
      then show "bit v i = bit w i"
        using arg_cong [OF eq, of "\<lambda>x. bit x i"] by (simp add: bit_take_bit_iff)
    qed
  qed
  finally show ?thesis .
qed

end
