(* ===== verification/Huc_Daemon_Main.thy ===== *)
theory Huc_Daemon_Main
  imports Huc_Daemon
begin

text \<open>
  The \<^verbatim>\<open>main\<close> function of \<^verbatim>\<open>guestend/daemon.c\<close> as a whole: opening the device node, the
  receive loop with the life of the payload block, the child with the loading of the
  bytecode and its polling loop.
\<close>

section \<open>The payload pointer\<close>

text \<open>
  What the member \<open>payload\<close> of the returned struct is: the struct is a local variable that
  \<^verbatim>\<open>recv_bytecode\<close> returns on every path, set or not.
\<close>

datatype payload_ptr = Garbage | Null | Block nat

definition payload_of :: "recv_msg \<Rightarrow> payload_ptr" where
  "payload_of r =
     (case rm_path r of
        SeekError \<Rightarrow> Garbage
      | ReadError \<Rightarrow> Garbage
      | MallocError \<Rightarrow> Null
      | _ \<Rightarrow> Block (unat (payload_len (rm_header r))))"

text \<open>
  \<^verbatim>\<open>save_bytecode\<close> reads \<open>len\<close> bytes behind the pointer if the file can be opened, then the
  pointer is freed; freeing the null pointer does nothing, and reading from or freeing an
  unset one is undefined.
\<close>

definition save_and_free :: "save_env \<Rightarrow> payload_ptr \<Rightarrow> nat \<Rightarrow> c_fault + unit" where
  "save_and_free env p len =
     (case p of
        Garbage \<Rightarrow> Inl WildPointer
      | Null \<Rightarrow> if sv_open env \<and> 0 < len then Inl NullDeref else Inr ()
      | Block n \<Rightarrow> if sv_open env \<and> n < len then Inl OutOfBounds else Inr ())"

text \<open>Blocks are allocated with the length in the header, so the last test never fails.\<close>

section \<open>One turn of the receive loop\<close>

text \<open>The state beside the daemon's: the blocks that were never freed, by size.\<close>

definition daemon_turn ::
    "save_env \<Rightarrow> int \<Rightarrow> recv_msg \<Rightarrow> daemon \<times> nat list \<Rightarrow> c_fault + daemon_role \<times> daemon \<times> nat list" where
  "daemon_turn env pid r st =
     (case st of (s, leaked) \<Rightarrow>
        let h = rm_header r; len = unat (payload_len h) in
        if msg_type h = PROGRAM_INJECTION then
          rbind (save_and_free env (payload_of r) len) (\<lambda>_.
            case handle_message env h (mem_get (rm_mem r) 0 len) pid s of
              (role, s) \<Rightarrow> Inr (role, s, leaked))
        else Inr (Parent, s, leaked @ (case payload_of r of Block n \<Rightarrow> [n] | _ \<Rightarrow> [])))"

section \<open>The whole program\<close>

text \<open>
  The outcomes of the calls of one turn.  A turn of the parent ends the list of what the
  model follows when no input is left; a child leaves the loop.
\<close>

record turn_env =
  te_malloc :: bool
  te_stack :: mem
  te_heap :: mem
  te_save :: save_env
  te_pid :: int

datatype daemon_end = OpenFailed | Waiting | Faulted c_fault | InChild

fun daemon_loop ::
    "('k \<Rightarrow> int \<Rightarrow> int \<times> 'k) \<Rightarrow> ('k \<Rightarrow> nat \<Rightarrow> (int \<times> bytes \<times> 'k) option) \<Rightarrow> turn_env list \<Rightarrow>
     'k \<Rightarrow> daemon \<times> nat list \<Rightarrow> daemon_end \<times> 'k \<times> daemon \<times> nat list" where
  "daemon_loop lseek read [] k st = (Waiting, k, st)"
| "daemon_loop lseek read (te # tes) k st =
     (case recv_bytecode lseek read (te_malloc te) (te_stack te) (te_heap te) k of
        None \<Rightarrow> (Waiting, k, st)
      | Some (r, k) \<Rightarrow>
          case daemon_turn (te_save te) (te_pid te) r st of
            Inl e \<Rightarrow> (Faulted e, k, st)
          | Inr (role, st) \<Rightarrow>
              if role = Child then (InChild, k, st) else daemon_loop lseek read tes k st)"

definition daemon_main ::
    "('k \<Rightarrow> int \<Rightarrow> int \<times> 'k) \<Rightarrow> ('k \<Rightarrow> nat \<Rightarrow> (int \<times> bytes \<times> 'k) option) \<Rightarrow> int \<Rightarrow> turn_env list \<Rightarrow>
     'k \<Rightarrow> daemon_end \<times> 'k \<times> daemon \<times> nat list" where
  "daemon_main lseek read open_ret tes k =
     (if open_ret < 0 then (OpenFailed, k, daemon_init, [])
      else daemon_loop lseek read tes k (daemon_init, []))"

section \<open>The child\<close>

text \<open>
  The child returns 1 when the bytecode cannot be loaded; otherwise it polls the map for
  ever.  \<open>n\<close> turns of the polling: the map, the variable and the masks of each turn.
\<close>

fun poll_turns ::
    "('m \<Rightarrow> u32 \<Rightarrow> u64 option) \<Rightarrow> ('m \<Rightarrow> u32 \<Rightarrow> u64 \<Rightarrow> 'm) \<Rightarrow> nat \<Rightarrow> 'm \<times> u64 \<Rightarrow> 'm \<times> u64 \<times> u64 list list" where
  "poll_turns lookup update 0 st = (fst st, snd st, [])"
| "poll_turns lookup update (Suc n) st =
     (case poll_map lookup update (fst st) (snd st) of
        (m, v, masks) \<Rightarrow>
          case poll_turns lookup update n (m, v) of (m, v, rest) \<Rightarrow> (m, v, masks # rest))"

definition child_process ::
    "('m \<Rightarrow> u32 \<Rightarrow> u64 option) \<Rightarrow> ('m \<Rightarrow> u32 \<Rightarrow> u64 \<Rightarrow> 'm) \<Rightarrow> int \<Rightarrow> nat \<Rightarrow> 'm \<Rightarrow> int + 'm \<times> u64 \<times> u64 list list" where
  "child_process lookup update load_ret n m =
     (if load_ret \<noteq> 0 then Inl 1 else Inr (poll_turns lookup update n (m, 0)))"

section \<open>When a turn goes wrong\<close>

lemma save_and_free_fault_iff:
  "(\<exists>e. save_and_free env (payload_of r) (unat (payload_len (rm_header r))) = Inl e) \<longleftrightarrow>
   rm_path r \<in> {SeekError, ReadError} \<or>
   rm_path r = MallocError \<and> sv_open env \<and> payload_len (rm_header r) \<noteq> 0"
  by (cases "rm_path r") (auto simp: save_and_free_def payload_of_def unat_gt_0)

text \<open>A file whose calls never report an error makes receiving end only in success.\<close>

definition reads_ok :: "('k \<Rightarrow> nat \<Rightarrow> (int \<times> bytes \<times> 'k) option) \<Rightarrow> bool" where
  "reads_ok read \<longleftrightarrow> (\<forall>k n ret bs k'. read k n = Some (ret, bs, k') \<longrightarrow> 0 \<le> ret)"

lemma reads_okD: "reads_ok read \<Longrightarrow> read k n = Some (ret, bs, k') \<Longrightarrow> \<not> ret < 0"
  unfolding reads_ok_def not_less by blast

lemma recv_payload_path:
  assumes "recv_payload read k m offset left = Some (p, m', offset', k')" "reads_ok read"
  shows "p = Received"
proof -
  have "reads_ok read \<longrightarrow> fst y = Received" if "recv_payload read k m offset left = Some y" for y
    using _ that
  proof (rule recv_payload.raw_induct [where P = "\<lambda>read k m offset left y. reads_ok read \<longrightarrow> fst y = Received"],
      goal_cases)
    case (1 recv_payload read k m offset left y)
    then show ?case
    proof (cases "0 < left"; cases "read k 4")
      fix x
      assume a: "0 < left" "read k 4 = Some x"
      obtain len bs k1 where x: "x = (len, bs, k1)" by (cases x)
      show ?case using 1 a x reads_okD [of read k 4 len bs k1] by (cases "len < 0") auto
    qed auto
  qed
  with assms show ?thesis by fastforce
qed

lemma recv_bytecode_path:
  assumes "recv_bytecode lseek read True stack heap k = Some (r, k')" "reads_ok read"
    and "\<And>k off. fst (lseek k off) = off"
  shows "rm_path r = Received"
proof -
  obtain k1 where k1: "lseek k 16 = (16, k1)" using assms(3) [of k 16] by (metis prod.collapse)
  obtain len bs k2 where k2: "read k1 header_size = Some (len, bs, k2)"
    using assms(1) k1 by (auto simp: recv_bytecode_def Let_def split: option.splits)
  have len: "\<not> len < 0" using reads_okD [OF assms(2) k2] .
  obtain k3 where k3: "lseek k2 20 = (20, k3)" using assms(3) [of k2 20] by (metis prod.collapse)
  let ?h = "header_of_mem (mem_put stack 0 bs) 0"
  obtain p m off where "recv_payload read k3 heap 0 (int (unat (payload_len ?h))) = Some (p, m, off, k')"
    "rm_path r = p"
    using assms(1) k1 k2 len k3 by (auto simp: recv_bytecode_def Let_def split: option.splits)
  then show ?thesis using recv_payload_path assms(2) by metis
qed

lemma file_reads_ok: "reads_ok (file_read ioread32)"
  by (auto simp: reads_ok_def file_read_def huc_read_def Let_def rbind_eq_Inr
      split: sum.splits read_out.splits if_splits)

lemma daemon_turn_ok:
  assumes "rm_path r = Received"
  shows "\<exists>x. daemon_turn env pid r st = Inr x"
proof -
  have "\<nexists>e. save_and_free env (payload_of r) (unat (payload_len (rm_header r))) = Inl e"
    unfolding save_and_free_fault_iff using assms by simp
  then obtain u where "save_and_free env (payload_of r) (unat (payload_len (rm_header r))) = Inr u"
    by (metis sum.exhaust)
  then show ?thesis by (simp add: daemon_turn_def Let_def split: prod.splits)
qed

lemma daemon_loop_never_faults:
  assumes "\<forall>te \<in> set tes. te_malloc te"
  shows "fst (daemon_loop file_lseek (file_read ioread32) tes k st) \<noteq> Faulted e"
  using assms
proof (induction tes arbitrary: k st)
  case (Cons te tes)
  show ?case
  proof (cases "recv_bytecode file_lseek (file_read ioread32) True (te_stack te) (te_heap te) k")
    case (Some rk)
    obtain r k' where rk: "rk = (r, k')" by (cases rk)
    have "rm_path r = Received"
      using Some rk by (intro recv_bytecode_path [OF _ file_reads_ok]) (auto simp: file_lseek_def)
    then obtain role st' where "daemon_turn (te_save te) (te_pid te) r st = Inr (role, st')"
      using daemon_turn_ok by (metis surj_pair)
    then show ?thesis using Cons Some rk by simp
  qed (use Cons in simp)
qed simp

section \<open>Polling more than once\<close>

context bpf_array_map
begin

lemma poll_turns_empty:
  assumes "valid m" "cells m = cpuindex_mask_maps"
  shows "poll_turns lookup update n (m, v) = (m, if n = 0 then v else 0, replicate n [])"
  using poll_map_empty [OF assms] by (induction n arbitrary: v) simp_all

end

section \<open>Properties of the main program\<close>




definition sample_turn :: turn_env where
  "sample_turn = \<lparr>te_malloc = True, te_stack = (\<lambda>_. 0), te_heap = (\<lambda>_. 0), te_save = save_ok 3, te_pid = 50\<rparr>"


text \<open>When the bytecode was loaded and up to 63 calls were recorded, the child forwards them
  in its first turn, after the count taken for a mask, newest first; every later turn
  without new calls forwards nothing.  When loading fails the child returns 1.\<close>

lemma child_forwards_once:
  assumes "bpf_array_map lookup update cells valid"
    and "valid m" "cells m = cpuindex_mask_maps" "vs \<noteq> []" "length vs \<le> 63"
  shows "\<exists>m'. child_process lookup update 0 (Suc n) (fold (bpf_prog1 lookup update) vs m) =
      Inr (m', 0, (of_nat (length vs) # rev (filter (\<lambda>v. v \<noteq> 0) vs)) # replicate n []) \<and>
    cells m' = cpuindex_mask_maps \<and>
    (load_ret \<noteq> 0 \<longrightarrow> child_process lookup update load_ret (Suc n) m = Inl 1)"
proof -
  obtain m' where m': "poll_map lookup update (fold (bpf_prog1 lookup update) vs m) 0 =
      (m', 0, of_nat (length vs) # rev (filter (\<lambda>v. v \<noteq> 0) vs))" "valid m'" "cells m' = cpuindex_mask_maps"
    using child_turn_after_calls [OF assms] by blast
  show ?thesis
    using m' bpf_array_map.poll_turns_empty [OF assms(1) m'(2,3), of n 0]
    by (intro exI [of _ m']) (simp add: child_process_def)
qed

end
