(* ===== verification/Huc_System.thy ===== *)
theory Huc_System
  imports Huc_Hostend Huc_Daemon_Main
begin

text \<open>
  The parts put together on the path of an injected bytecode.  How the guest's PCI core
  finds the driver for the device; and the device, the interrupt handler and the receiver of
  the daemon as one component, which refines an abstract mailbox that holds at most one
  message.
\<close>

section \<open>Registration\<close>

text \<open>
  What \<^verbatim>\<open>huc_class_init\<close> tells QEMU about the device; the vendor number is a constant of
  QEMU's headers and a parameter here.
\<close>

record pci_class =
  vendor_id :: u16
  device_id :: u16
  has_realize :: bool
  has_exit :: bool

definition HUC_DEVICE_ID :: u16 where "HUC_DEVICE_ID = 0x11eb"

definition huc_class_init :: "u16 \<Rightarrow> pci_class" where
  "huc_class_init PCI_VENDOR_ID_QEMU =
     \<lparr>vendor_id = PCI_VENDOR_ID_QEMU, device_id = HUC_DEVICE_ID, has_realize = True, has_exit = True\<rparr>"

record type_info =
  ti_name :: string
  ti_instance_init :: HucState
  ti_class :: pci_class

definition huc_register_types :: "u16 \<Rightarrow> type_info" where
  "huc_register_types PCI_VENDOR_ID_QEMU =
     \<lparr>ti_name = ''hucdev'', ti_instance_init = huc_instance_init,
      ti_class = huc_class_init PCI_VENDOR_ID_QEMU\<rparr>"

text \<open>The driver's table of devices, and its registration with the PCI core.\<close>

definition QEMU_VENDOR_ID :: u16 where "QEMU_VENDOR_ID = 0x1234"

definition pci_ids :: "(u16 \<times> u16) list" where
  "pci_ids = [(QEMU_VENDOR_ID, HUC_DEVICE_ID)]"

definition pci_match :: "(u16 \<times> u16) list \<Rightarrow> pci_class \<Rightarrow> bool" where
  "pci_match ids c \<longleftrightarrow> (vendor_id c, device_id c) \<in> set ids"

text \<open>
  \<^verbatim>\<open>huc_init\<close>: when the registration succeeds the core probes every device that matches; the
  devices are given with the outcomes of their probes.
\<close>

definition huc_init ::
    "int \<Rightarrow> (pci_class \<times> probe_env) list \<Rightarrow> DriverState \<Rightarrow> int \<times> DriverState \<times> drv_event list" where
  "huc_init register_ret devs s =
     (if register_ret < 0 then (1, s, [])
      else case foldl (\<lambda>(s, es) (c, env).
             if pci_match pci_ids c then let (r, s, e) = huc_probe env s in (s, es @ e) else (s, es))
             (s, []) devs of (s, es) \<Rightarrow> (0, s, es))"

definition huc_exit :: "nat \<Rightarrow> drv_event list" where
  "huc_exit bound = concat (replicate bound huc_pci_remove)"

lemma driver_matches_device:
  "pci_match pci_ids (ti_class (huc_register_types vendor)) \<longleftrightarrow> vendor = 0x1234"
  by (simp add: pci_match_def pci_ids_def huc_register_types_def huc_class_init_def QEMU_VENDOR_ID_def)

text \<open>After loading and unloading the module the PCI device stays enabled.\<close>

lemma unload_leaves_device_enabled:
  assumes "huc_init 0 [(huc_class_init 0x1234, env)] s = (r, s', es)"
    and "fst (huc_probe env s) = 0"
  shows "held (es @ huc_exit 1) = {PciEnabled, IrqLine}"
  using assms
  by (auto simp: huc_init_def pci_match_def pci_ids_def huc_class_init_def QEMU_VENDOR_ID_def
      huc_probe_def huc_exit_def huc_pci_remove_def held_def Let_def EINVAL_def split: if_splits)

section \<open>A mailbox for one message\<close>

text \<open>
  The specification: a new message replaces one that was not taken; taking returns the last
  message and empties the box, and waits when there is none.
\<close>

datatype 'm mail_op = Send 'm | Recv

fun mailbox :: "'m mail_op list \<Rightarrow> 'm option \<Rightarrow> 'm option list \<times> 'm option" where
  "mailbox [] b = ([], b)"
| "mailbox (Send m # ops) b = mailbox ops (Some m)"
| "mailbox (Recv # ops) b = (case mailbox ops None of (out, b') \<Rightarrow> (b # out, b'))"

text \<open>
  A sequence of operations on an implementation.  A receiver that would wait is recorded as
  \<open>None\<close> and left out, as if it gave up; \<open>None\<close> as the result of the run is a fault.
\<close>

fun mail_run ::
    "('k \<Rightarrow> 'm \<Rightarrow> 'k option) \<Rightarrow> ('k \<Rightarrow> ('m \<times> 'k) option) \<Rightarrow> 'm mail_op list \<Rightarrow> 'k \<Rightarrow>
     ('m option list \<times> 'k) option" where
  "mail_run send recv [] k = Some ([], k)"
| "mail_run send recv (Send m # ops) k = Option.bind (send k m) (mail_run send recv ops)"
| "mail_run send recv (Recv # ops) k =
     (case recv k of
        None \<Rightarrow> map_option (\<lambda>(out, k). (None # out, k)) (mail_run send recv ops k)
      | Some (m, k) \<Rightarrow> map_option (\<lambda>(out, k). (Some m # out, k)) (mail_run send recv ops k))"

locale mailbox_impl =
  fixes send :: "'k \<Rightarrow> 'm \<Rightarrow> 'k option"
    and recv :: "'k \<Rightarrow> ('m \<times> 'k) option"
    and rel :: "'k \<Rightarrow> 'm option \<Rightarrow> bool"
    and fits :: "'m \<Rightarrow> bool"
  assumes send_rel: "rel k b \<Longrightarrow> fits m \<Longrightarrow> \<exists>k'. send k m = Some k' \<and> rel k' (Some m)"
    and recv_full: "rel k (Some m) \<Longrightarrow> \<exists>k'. recv k = Some (m, k') \<and> rel k' None"
    and recv_empty: "rel k None \<Longrightarrow> recv k = None"
begin

lemma run_refines:
  assumes "rel k b" "\<forall>m. Send m \<in> set ops \<longrightarrow> fits m"
  shows "\<exists>k'. mail_run send recv ops k = Some (fst (mailbox ops b), k') \<and> rel k' (snd (mailbox ops b))"
  using assms
proof (induction ops arbitrary: k b)
  case (Cons op ops)
  show ?case
  proof (cases op)
    case (Send m)
    then obtain k1 where "send k m = Some k1" "rel k1 (Some m)" using send_rel Cons.prems by force
    then show ?thesis using Cons.IH [of k1 "Some m"] Cons.prems Send by auto
  next
    case Recv
    have "\<exists>k1. rel k1 None \<and> mail_run send recv (op # ops) k =
        map_option (\<lambda>(out, k). (b # out, k)) (mail_run send recv ops k1)"
    proof (cases b)
      case None
      then show ?thesis using Cons.prems(1) Recv recv_empty by auto
    next
      case (Some m)
      then obtain k1 where "recv k = Some (m, k1)" "rel k1 None" using Cons.prems(1) recv_full by blast
      then show ?thesis using Some Recv by auto
    qed
    then show ?thesis using Cons.IH [of _ None] Cons.prems Recv by (fastforce split: prod.splits)
  qed
qed simp

end

section \<open>The device, the driver and the receiver as a mailbox\<close>

text \<open>
  Sending: the bytes of a message arrive at the connected socket, the device handles them,
  and the interrupt it raises is handled by the driver.  Receiving: the daemon's
  \<^verbatim>\<open>recv_bytecode\<close> on the device node, and the header and payload it returns.
\<close>

type_synonym injection = "huc_msg_header \<times> bytes"

definition system_send ::
    "(nat \<Rightarrow> int option) \<Rightarrow> u64 \<Rightarrow> HucState chardev \<Rightarrow> injection \<Rightarrow> HucState chardev option" where
  "system_send get_cpu fresh k m =
     (case handle_acceptfd stream_recv get_cpu fresh (k_dev k) (header_bytes (fst m) @ snd m) of
        Inr (d, []) \<Rightarrow>
          (case irq_handler dev_ioread32 (dev_iowrite32 get_cpu) (major (k_drv k)) d (k_drv k) of
             Inr (ret, d, drv) \<Rightarrow> Some (k\<lparr>k_dev := d, k_drv := drv\<rparr>)
           | Inl e \<Rightarrow> None)
      | _ \<Rightarrow> None)"

definition system_recv ::
    "mem \<Rightarrow> mem \<Rightarrow> HucState chardev \<Rightarrow> (injection \<times> HucState chardev) option" where
  "system_recv stack heap k =
     map_option (\<lambda>(r, k). ((rm_header r, mem_get (rm_mem r) 0 (unat (payload_len (rm_header r)))), k))
       (recv_bytecode file_lseek (file_read dev_ioread32) True stack heap k)"

definition injection_fits :: "injection \<Rightarrow> bool" where
  "injection_fits m \<longleftrightarrow> msg_type (fst m) = PROGRAM_INJECTION \<and>
     length (snd m) = unat (payload_len (fst m)) \<and> 0 < length (snd m) \<and> length (snd m) \<le> 65516"

definition system_rel :: "HucState chardev \<Rightarrow> injection option \<Rightarrow> bool" where
  "system_rel k b \<longleftrightarrow>
     huc_wf (k_dev k) \<and> irq_status (k_dev k) = 0 \<and> drv_ok (k_drv k) \<and>
     (case b of
        None \<Rightarrow> drv_stage (k_drv k) = Idle
      | Some m \<Rightarrow> flag (k_drv k) = 2 \<and> injection_fits m \<and>
          (\<exists>s. dev_word_at (k_dev k) = dev_word_at (with_message s (fst m) (snd m))))"

text \<open>Between two interrupts no cause is pending; reads keep that.\<close>

interpretation quiet: huc_bus dev_ioread32 "dev_iowrite32 get_cpu"
    "\<lambda>d. huc_wf d \<and> irq_status d = 0" irq_status dev_word_at
  for get_cpu
proof (unfold_locales, goal_cases)
  case (1 d)
  then show ?case by (simp add: hucbus.read_status)
next
  case (2 d i)
  then show ?case using hucbus.read_word [of d i] by blast
next
  case (3 d v)
  then show ?case using hucbus.acknowledge [of d get_cpu v] by auto
qed

lemma system_send_rel:
  assumes "cpus_are get_cpu tids" "system_rel k b" "injection_fits m"
  shows "\<exists>k'. system_send get_cpu fresh k m = Some k' \<and> system_rel k' (Some m)"
proof -
  obtain h p where m: "m = (h, p)" by (cases m)
  let ?s = "k_dev k"
  let ?d = "hucdev_raise_irq (with_message ?s h p) 1"
  have wf: "huc_wf ?s" "irq_status ?s = 0" "drv_ok (k_drv k)" using assms(2) by (simp_all add: system_rel_def)
  have fits: "msg_type h = PROGRAM_INJECTION" "length p = unat (payload_len h)"
    using assms(3) m by (simp_all add: injection_fits_def)
  have "handle_acceptfd stream_recv get_cpu fresh ?s (header_bytes h @ p) = Inr (?d, [])"
    using handle_acceptfd_message [where recv = stream_recv and p = p and h = h, OF wf(1)]
      fits dispatch_injection [OF assms(1)]
    by (simp add: stream_recv_def)
  moreover have d: "huc_wf ?d" "irq_status ?d = 1" "dev_word_at ?d = dev_word_at (with_message ?s h p)"
    using with_message_wf [OF wf(1), of h p] wf(2)
    by (simp_all add: hucdev_raise_irq_def Let_def huc_wf_def dev_word_at_def fun_eq_iff)
  moreover obtain d' where "irq_handler dev_ioread32 (dev_iowrite32 get_cpu) (major (k_drv k)) ?d (k_drv k) =
      Inr (IRQ_HANDLED, d', (k_drv k)\<lparr>flag := 2\<rparr>)" "huc_wf d'" "irq_status d' = 0" "dev_word_at d' = dev_word_at ?d"
    using hucbus.irq_handler_handles [OF d(1) refl, of get_cpu "k_drv k"] d(2) by (auto simp: flag_after_def)
  ultimately show ?thesis
    using wf(3) assms(3) m by (auto simp: system_send_def system_rel_def drv_ok_def)
qed

lemma system_recv_full:
  assumes "system_rel k (Some m)"
  shows "\<exists>k'. system_recv stack heap k = Some (m, k') \<and> system_rel k' None"
proof -
  obtain h p where m: "m = (h, p)" by (cases m)
  obtain s where s: "dev_word_at (k_dev k) = dev_word_at (with_message s h p)"
    using assms m by (auto simp: system_rel_def)
  have fits: "length p = unat (payload_len h)" "p \<noteq> []" "length p \<le> 65516" "flag (k_drv k) = 2"
    using assms m by (auto simp: system_rel_def injection_fits_def)
  let ?n = "words_for (length p)"
  have "(huc_wf (k_dev k) \<and> irq_status (k_dev k) = 0) \<and> drv_ok (k_drv k)" "drv_stage (k_drv k) = Header"
    "h = header_of_u32 (dev_word_at (k_dev k) 4)"
    using assms fits s header_word [of s h p] by (simp_all add: system_rel_def drv_stage_def)
  from quiet.huc_file.recv_bytecode_delivers [OF this, of stack heap] fits
  obtain k' mm where r: "recv_bytecode file_lseek (file_read dev_ioread32) True stack heap k =
      Some (\<lparr>rm_path = Received, rm_header = h, rm_size = length p, rm_mem = mm,
             rm_written = int (4 * ?n)\<rparr>, k')"
    "mem_get mm 0 (4 * ?n) = word_bytes (dev_word_at (k_dev k)) 5 ?n"
    "(huc_wf (k_dev k') \<and> irq_status (k_dev k') = 0) \<and> drv_ok (k_drv k')"
    "drv_stage (k_drv k') = (if payload_len h = 0 then Payload 0 else Idle)"
    by auto
  have "mem_get mm 0 (length p) = p"
    using arg_cong [OF r(2), of "take (length p)"] words_for_bounds(1) [of "length p"]
      message_words [of p "length p" s h] s
    by (simp add: mem_get_take)
  moreover have "payload_len h \<noteq> 0" using fits(1,2) by auto
  ultimately show ?thesis using r m fits(1) by (auto simp: system_recv_def system_rel_def)
qed

lemma system_recv_empty: "system_rel k None \<Longrightarrow> system_recv stack heap k = None"
proof -
  assume a: "system_rel k None"
  then have "huc_wf (k_dev k) \<and> drv_ok (k_drv k)" "drv_stage (k_drv k) = Idle"
    by (simp_all add: system_rel_def)
  then have "file_read dev_ioread32 (k\<lparr>k_off := 16\<rparr>) header_size = None"
    by (intro hucbus.huc_file.read_idle) simp_all
  then show ?thesis by (simp add: system_recv_def recv_bytecode_def file_lseek_def)
qed

interpretation system: mailbox_impl "system_send (cpu_of tids) fresh" "system_recv stack heap"
    system_rel injection_fits
  for tids fresh stack heap
  by unfold_locales
    (rule system_send_rel [OF cpus_are_cpu_of], assumption+, erule system_recv_full, erule system_recv_empty)

section \<open>Properties of the composition\<close>


definition sample_injection :: "u8 \<Rightarrow> injection" where
  "sample_injection x = (\<lparr>version = 1, msg_type = 1, payload_len = 1\<rparr>, [x])"


end
