(* ===== verification/Huc_Concurrent.thy ===== *)
theory Huc_Concurrent
  imports Huc_System
begin

text \<open>
  The guest side with everything that runs at the same time: any number of readers of the
  device node, the interrupt handler, callers of \<^verbatim>\<open>ioctl\<close>, and the host, which sends messages
  whenever it likes.  QEMU runs the handlers of a device one after the other (they hold its
  global lock), so an access to the device is one step; in the driver every access to
  \<^verbatim>\<open>flag\<close> and \<^verbatim>\<open>payload_left\<close> is a step of its own (the subtraction from \<^verbatim>\<open>payload_left\<close> is
  one).  Without interruption the steps amount to \<open>huc_read\<close> and \<open>irq_handler\<close>.
\<close>

section \<open>State\<close>

text \<open>
  Where a reader is inside \<^verbatim>\<open>huc_read\<close>, with its local variables \<^verbatim>\<open>len\<close> and \<^verbatim>\<open>kbuf\<close>: not in
  the call, past the wait, past \<^verbatim>\<open>ioread32\<close>, past the first test of \<^verbatim>\<open>flag\<close> (negative or
  positive), past the store of the payload length, past the second test, past the
  subtraction, past the test for the end, and about to copy.
\<close>

datatype read_pc =
    InUser
  | Awake nat
  | Fetched nat u32
  | NotHeader nat u32
  | HeaderSeen nat u32
  | HeaderSaved nat u32
  | PayloadSeen nat u32
  | Subtracted nat u32
  | LastSeen nat u32
  | Copying nat u32

text \<open>Inside \<^verbatim>\<open>irq_handler\<close>: the status was read, and the readers were woken up.\<close>

datatype irq_pc = IrqIdle | IrqStatus u32 | IrqWoken u32

record reader =
  r_pc :: read_pc
  r_off :: int
  r_got :: "u32 list"

record guest =
  g_dev :: HucState
  g_drv :: DriverState
  g_irq :: irq_pc
  g_rd :: "nat \<Rightarrow> reader"

definition upd_rd :: "nat \<Rightarrow> (reader \<Rightarrow> reader) \<Rightarrow> guest \<Rightarrow> guest" where
  "upd_rd i f s = s\<lparr>g_rd := (g_rd s)(i := f (g_rd s i))\<rparr>"

lemma upd_rd_simps [simp]:
  "g_dev (upd_rd i f s) = g_dev s" "g_drv (upd_rd i f s) = g_drv s" "g_irq (upd_rd i f s) = g_irq s"
  "g_rd (upd_rd i f s) j = (if i = j then f (g_rd s i) else g_rd s j)"
  by (simp_all add: upd_rd_def)

abbreviation goto :: "nat \<Rightarrow> read_pc \<Rightarrow> guest \<Rightarrow> guest" where
  "goto i pc \<equiv> upd_rd i (\<lambda>r. r\<lparr>r_pc := pc\<rparr>)"

section \<open>Steps\<close>

datatype actor =
    Host
  | Ioctl
  | Irq
  | Seek nat
  | Enter nat nat
  | Signalled nat nat
  | Read nat
  | BadCopy nat

text \<open>A step of the host: a client connects, or the connection delivers a message or ends.\<close>

inductive host_step :: "(nat \<Rightarrow> int option) \<Rightarrow> HucState \<Rightarrow> HucState \<Rightarrow> bool" for get_cpu where
  connect: "fd_watch (trace d) (listen_fd d) = ListenHandler \<Longrightarrow> 0 \<le> fd \<Longrightarrow> fd \<noteq> listen_fd d \<Longrightarrow>
    host_step get_cpu d (handle_listenfd fd d)"
| deliver: "fd_watch (trace d) (connect_fd d) = AcceptHandler \<Longrightarrow>
    handle_acceptfd (recv :: bytes \<Rightarrow> nat \<Rightarrow> recv_res \<times> bytes) get_cpu fresh d net = Inr (d', net') \<Longrightarrow>
    host_step get_cpu d d'"

inductive guest_step :: "(nat \<Rightarrow> int option) \<Rightarrow> actor \<Rightarrow> guest \<Rightarrow> guest \<Rightarrow> bool" for get_cpu where
  host: "host_step get_cpu (g_dev s) d \<Longrightarrow> guest_step get_cpu Host s (s\<lparr>g_dev := d\<rparr>)"
| ioctl: "huc_ioctl (dev_iowrite32 get_cpu) uaccess (g_dev s) cmd arg = Inr (ret, d) \<Longrightarrow>
    guest_step get_cpu Ioctl s (s\<lparr>g_dev := d\<rparr>)"
| irq_enter: "g_irq s = IrqIdle \<Longrightarrow> dev_ioread32 (g_dev s) DRV_REG_STATUS_IRQ = Inr st \<Longrightarrow>
    guest_step get_cpu Irq s (s\<lparr>g_irq := IrqStatus st\<rparr>)"
| irq_wake: "g_irq s = IrqStatus st \<Longrightarrow>
    guest_step get_cpu Irq s (s\<lparr>g_drv := (g_drv s)\<lparr>flag := flag_after st (flag (g_drv s))\<rparr>,
      g_irq := IrqWoken st\<rparr>)"
| irq_ack: "g_irq s = IrqWoken st \<Longrightarrow> dev_iowrite32 get_cpu (g_dev s) DRV_REG_LOWER_IRQ st = Inr d \<Longrightarrow>
    guest_step get_cpu Irq s (s\<lparr>g_dev := d, g_irq := IrqIdle\<rparr>)"
| seek: "r_pc (g_rd s i) = InUser \<Longrightarrow> guest_step get_cpu (Seek i) s (upd_rd i (\<lambda>r. r\<lparr>r_off := off\<rparr>) s)"
| enter: "r_pc (g_rd s i) = InUser \<Longrightarrow> 1 \<le> flag (g_drv s) \<Longrightarrow>
    guest_step get_cpu (Enter i len) s (goto i (Awake len) s)"
| signalled: "r_pc (g_rd s i) = InUser \<Longrightarrow> guest_step get_cpu (Signalled i len) s (goto i (Awake len) s)"
| nothing: "r_pc (g_rd s i) = Awake len \<Longrightarrow> r_off (g_rd s i) mod 4 \<noteq> 0 \<or> len = 0 \<Longrightarrow>
    guest_step get_cpu (Read i) s (goto i InUser s)"
| fetch: "r_pc (g_rd s i) = Awake len \<Longrightarrow> \<not> (r_off (g_rd s i) mod 4 \<noteq> 0 \<or> len = 0) \<Longrightarrow>
    dev_ioread32 (g_dev s) (of_int (r_off (g_rd s i))) = Inr w \<Longrightarrow>
    guest_step get_cpu (Read i) s (goto i (Fetched len w) s)"
| is_header: "r_pc (g_rd s i) = Fetched len w \<Longrightarrow> flag (g_drv s) = 2 \<Longrightarrow>
    guest_step get_cpu (Read i) s (goto i (HeaderSeen len w) s)"
| no_header: "r_pc (g_rd s i) = Fetched len w \<Longrightarrow> flag (g_drv s) \<noteq> 2 \<Longrightarrow>
    guest_step get_cpu (Read i) s (goto i (NotHeader len w) s)"
| save_length: "r_pc (g_rd s i) = HeaderSeen len w \<Longrightarrow>
    guest_step get_cpu (Read i) s (goto i (HeaderSaved len w)
      (s\<lparr>g_drv := (g_drv s)\<lparr>payload_left := ucast (payload_len (header_of_u32 w))\<rparr>\<rparr>))"
| to_payload: "r_pc (g_rd s i) = HeaderSaved len w \<Longrightarrow>
    guest_step get_cpu (Read i) s (goto i (Copying len w) (s\<lparr>g_drv := (g_drv s)\<lparr>flag := 1\<rparr>\<rparr>))"
| is_payload: "r_pc (g_rd s i) = NotHeader len w \<Longrightarrow> flag (g_drv s) = 1 \<Longrightarrow>
    guest_step get_cpu (Read i) s (goto i (PayloadSeen len w) s)"
| no_payload: "r_pc (g_rd s i) = NotHeader len w \<Longrightarrow> flag (g_drv s) \<noteq> 1 \<Longrightarrow>
    guest_step get_cpu (Read i) s (goto i (Copying len w) s)"
| subtract: "r_pc (g_rd s i) = PayloadSeen len w \<Longrightarrow>
    guest_step get_cpu (Read i) s (goto i (Subtracted len w)
      (s\<lparr>g_drv := (g_drv s)\<lparr>payload_left := payload_left (g_drv s) - of_nat len\<rparr>\<rparr>))"
| more: "r_pc (g_rd s i) = Subtracted len w \<Longrightarrow> \<not> sint (payload_left (g_drv s)) \<le> 0 \<Longrightarrow>
    guest_step get_cpu (Read i) s (goto i (Copying len w) s)"
| last: "r_pc (g_rd s i) = Subtracted len w \<Longrightarrow> sint (payload_left (g_drv s)) \<le> 0 \<Longrightarrow>
    guest_step get_cpu (Read i) s (goto i (LastSeen len w) s)"
| finish: "r_pc (g_rd s i) = LastSeen len w \<Longrightarrow>
    guest_step get_cpu (Read i) s (goto i (Copying len w) (s\<lparr>g_drv := (g_drv s)\<lparr>flag := 0\<rparr>\<rparr>))"
| copy: "r_pc (g_rd s i) = Copying len w \<Longrightarrow>
    guest_step get_cpu (Read i) s
      (upd_rd i (\<lambda>r. r\<lparr>r_pc := InUser, r_off := r_off r + 4, r_got := r_got r @ [w]\<rparr>) s)"
| bad_copy: "r_pc (g_rd s i) = Copying len w \<Longrightarrow> guest_step get_cpu (BadCopy i) s (goto i InUser s)"

text \<open>Runs in which only some of the actors take steps.\<close>

definition acts :: "(nat \<Rightarrow> int option) \<Rightarrow> actor set \<Rightarrow> guest \<Rightarrow> guest \<Rightarrow> bool" where
  "acts get_cpu A s s' \<longleftrightarrow> (\<exists>a\<in>A. guest_step get_cpu a s s')"

section \<open>The steps of one call amount to the driver's functions\<close>

lemma upd_rd_more [simp]:
  "upd_rd i f (upd_rd i g s) = upd_rd i (\<lambda>r. f (g r)) s"
  "(upd_rd i f s)\<lparr>g_drv := drv\<rparr> = upd_rd i f (s\<lparr>g_drv := drv\<rparr>)"
  by (simp_all add: upd_rd_def)

lemma acts_step: "(acts get_cpu A)\<^sup>*\<^sup>* s s' \<Longrightarrow> guest_step get_cpu a s' s'' \<Longrightarrow> a \<in> A \<Longrightarrow> (acts get_cpu A)\<^sup>*\<^sup>* s s''"
  by (rule rtranclp.rtrancl_into_rtrancl) (auto simp: acts_def)

lemma acts_mono: "(acts get_cpu A)\<^sup>*\<^sup>* s s' \<Longrightarrow> A \<subseteq> B \<Longrightarrow> (acts get_cpu B)\<^sup>*\<^sup>* s s'"
  by (erule rtranclp_mono [THEN predicate2D, rotated]) (unfold acts_def, blast)

text \<open>Alone, a reader that has fetched a word leaves the driver as \<open>account_read\<close> does.\<close>

lemma account_alone:
  assumes "r_pc (g_rd s i) = Fetched len w"
  shows "(acts get_cpu {Read i})\<^sup>*\<^sup>* s (goto i (Copying len w) (s\<lparr>g_drv := account_read (g_drv s) w len\<rparr>))"
proof -
  let ?A = "(acts get_cpu {Read i})\<^sup>*\<^sup>*"
  let ?d = "(g_drv s)\<lparr>payload_left := payload_left (g_drv s) - of_nat len\<rparr>"
  consider "flag (g_drv s) = 2" | "flag (g_drv s) = 1" "sint (payload_left ?d) \<le> 0"
    | "flag (g_drv s) = 1" "\<not> sint (payload_left ?d) \<le> 0" | "flag (g_drv s) \<noteq> 2" "flag (g_drv s) \<noteq> 1"
    by blast
  then show ?thesis
  proof cases
    case 1
    have "?A s (goto i (HeaderSeen len w) s)"
      using acts_step [OF rtranclp.rtrancl_refl is_header [OF assms 1]] by simp
    from acts_step [OF acts_step [OF this save_length] to_payload] 1 show ?thesis
      by (simp add: account_read_def)
  next
    case 2
    then have "?A s (goto i (NotHeader len w) s)"
      using acts_step [OF rtranclp.rtrancl_refl no_header [OF assms]] by simp
    from acts_step [OF acts_step [OF acts_step [OF acts_step [OF this is_payload] subtract] last] finish] 2
    show ?thesis by (simp add: account_read_def)
  next
    case 3
    then have "?A s (goto i (NotHeader len w) s)"
      using acts_step [OF rtranclp.rtrancl_refl no_header [OF assms]] by simp
    from acts_step [OF acts_step [OF acts_step [OF this is_payload] subtract] more] 3
    show ?thesis by (simp add: account_read_def)
  next
    case 4
    then have "?A s (goto i (NotHeader len w) s)"
      using acts_step [OF rtranclp.rtrancl_refl no_header [OF assms]] by simp
    from acts_step [OF this no_payload] 4 show ?thesis by (simp add: account_read_def)
  qed
qed

text \<open>A whole call of \<^verbatim>\<open>huc_read\<close>, and of the interrupt handler.\<close>

lemma read_alone:
  assumes "r_pc (g_rd s i) = InUser" "1 \<le> flag (g_drv s)" "0 < len"
    and "r_off (g_rd s i) = 4 * k" "dev_ioread32 (g_dev s) (of_int (4 * k)) = Inr w"
  shows "huc_read dev_ioread32 False False (g_dev s) (g_drv s) len (r_off (g_rd s i)) =
      Inr (Returned (int len) (le32 w) (r_off (g_rd s i) + 4), account_read (g_drv s) w len)"
    and "(acts get_cpu {Enter i len, Read i})\<^sup>*\<^sup>* s
      (upd_rd i (\<lambda>r. r\<lparr>r_pc := InUser, r_off := r_off r + 4, r_got := r_got r @ [w]\<rparr>)
        (s\<lparr>g_drv := account_read (g_drv s) w len\<rparr>))"
proof -
  show "huc_read dev_ioread32 False False (g_dev s) (g_drv s) len (r_off (g_rd s i)) =
      Inr (Returned (int len) (le32 w) (r_off (g_rd s i) + 4), account_read (g_drv s) w len)"
    using assms by (simp add: huc_read_def)
  let ?A = "(acts get_cpu {Enter i len, Read i})\<^sup>*\<^sup>*"
  have "?A s (goto i (Awake len) s)"
    using acts_step [OF rtranclp.rtrancl_refl enter [OF assms(1,2)]] by simp
  from acts_step [OF this fetch] assms(3-5) have 1: "?A s (goto i (Fetched len w) s)" by simp
  have "?A (goto i (Fetched len w) s) (goto i (Copying len w) (s\<lparr>g_drv := account_read (g_drv s) w len\<rparr>))"
    using acts_mono [OF account_alone [of "goto i (Fetched len w) s" i len w get_cpu], of "{Enter i len, Read i}"]
    by simp
  with 1 have "?A s (goto i (Copying len w) (s\<lparr>g_drv := account_read (g_drv s) w len\<rparr>))" by simp
  from acts_step [OF this copy] show "?A s
      (upd_rd i (\<lambda>r. r\<lparr>r_pc := InUser, r_off := r_off r + 4, r_got := r_got r @ [w]\<rparr>)
        (s\<lparr>g_drv := account_read (g_drv s) w len\<rparr>))"
    by simp
qed

lemma irq_alone:
  assumes "g_irq s = IrqIdle" "dev = major (g_drv s)"
    and "irq_handler dev_ioread32 (dev_iowrite32 get_cpu) dev (g_dev s) (g_drv s) = Inr (ret, d, drv)"
  shows "(acts get_cpu {Irq})\<^sup>*\<^sup>* s (s\<lparr>g_dev := d, g_drv := drv\<rparr>)"
proof -
  obtain st where st: "dev_ioread32 (g_dev s) DRV_REG_STATUS_IRQ = Inr st"
    "dev_iowrite32 get_cpu (g_dev s) DRV_REG_LOWER_IRQ st = Inr d"
    "drv = (g_drv s)\<lparr>flag := flag_after st (flag (g_drv s))\<rparr>"
    using assms(2,3)
    by (auto simp: irq_handler_def rbind_eq_Inr Let_def flag_after_def msg_simps split: if_splits)
  let ?A = "(acts get_cpu {Irq})\<^sup>*\<^sup>*"
  have "?A s (s\<lparr>g_irq := IrqStatus st\<rparr>)"
    using acts_step [OF rtranclp.rtrancl_refl irq_enter [OF assms(1) st(1)]] by simp
  from acts_step [OF acts_step [OF this irq_wake [where st = st]] irq_ack [where st = st and d = d]] st(2)
  have "?A s (s\<lparr>g_drv := drv, g_dev := d, g_irq := IrqIdle\<rparr>)" by (simp add: st(3))
  moreover have "s\<lparr>g_drv := drv, g_dev := d, g_irq := IrqIdle\<rparr> = s\<lparr>g_dev := d, g_drv := drv\<rparr>"
    using assms(1) by (cases s) simp
  ultimately show ?thesis by simp
qed

section \<open>Well-formed states\<close>

definition guest_ok :: "guest \<Rightarrow> bool" where
  "guest_ok s \<longleftrightarrow> dev_inv (g_dev s) \<and> flag (g_drv s) \<in> {0, 1, 2}"

definition guest_start :: "HucState \<Rightarrow> int \<Rightarrow> guest" where
  "guest_start d n = \<lparr>g_dev = d, g_drv = driver_init n, g_irq = IrqIdle,
     g_rd = (\<lambda>_. \<lparr>r_pc = InUser, r_off = 0, r_got = []\<rparr>)\<rparr>"

lemma host_step_inv: "host_step get_cpu d d' \<Longrightarrow> dev_inv d \<Longrightarrow> dev_inv d'"
  by (erule host_step.cases) (auto intro: dev_inv_listen dev_inv_message)

lemma dev_iowrite32_inv: "dev_iowrite32 get_cpu d off v = Inr d' \<Longrightarrow> dev_inv d \<Longrightarrow> dev_inv d'"
  unfolding dev_iowrite32_def by (blast intro: dev_frame_inv dev_frame_bufmmio_write)

lemma huc_ioctl_inv:
  "huc_ioctl (dev_iowrite32 get_cpu) f d cmd arg = Inr (ret, d') \<Longrightarrow> dev_inv d \<Longrightarrow> dev_inv d'"
  by (auto simp: huc_ioctl_def rbind_eq_Inr intro: dev_iowrite32_inv split: if_splits)

lemma guest_step_ok: "guest_step get_cpu a s s' \<Longrightarrow> guest_ok s \<Longrightarrow> guest_ok s'"
  by (induction rule: guest_step.induct)
    (auto simp: guest_ok_def flag_after_def intro: host_step_inv dev_iowrite32_inv huc_ioctl_inv)

lemma guest_run_ok: "(acts get_cpu A)\<^sup>*\<^sup>* s s' \<Longrightarrow> guest_ok s \<Longrightarrow> guest_ok s'"
  by (induction rule: rtranclp_induct) (auto simp: acts_def dest: guest_step_ok)

lemma dev_ioread32_total: "huc_wf d \<Longrightarrow> \<exists>w. dev_ioread32 d off = Inr w"
  by (simp add: dev_ioread32_def hucdev_bufmmio_read_eq hucdev_ops_access_size_def)

lemma dev_iowrite32_total:
  "huc_wf d \<Longrightarrow> cpus_are get_cpu tids \<Longrightarrow> \<exists>d'. dev_iowrite32 get_cpu d off v = Inr d'"
  unfolding dev_iowrite32_def by (rule hucdev_bufmmio_write_total) (simp_all add: hucdev_ops_access_size_def)

lemma huc_ioctl_total:
  "huc_wf d \<Longrightarrow> cpus_are get_cpu tids \<Longrightarrow>
   \<exists>ret d'. huc_ioctl (dev_iowrite32 get_cpu) f d cmd arg = Inr (ret, d')"
  using dev_iowrite32_total [of d get_cpu tids]
  by (auto simp: huc_ioctl_def rbind_eq_Inr)

lemma reader_progress:
  assumes "huc_wf (g_dev s)" "r_pc (g_rd s i) \<noteq> InUser"
  shows "\<exists>s'. guest_step get_cpu (Read i) s s'"
proof -
  obtain w where "dev_ioread32 (g_dev s) (of_int (r_off (g_rd s i))) = Inr w"
    using dev_ioread32_total [OF assms(1)] by blast
  then show ?thesis
    using assms(2) by (cases "r_pc (g_rd s i)") (simp | blast intro: guest_step.intros)+
qed

lemma irq_progress:
  assumes "huc_wf (g_dev s)" "cpus_are get_cpu tids"
  shows "\<exists>s'. guest_step get_cpu Irq s s'"
proof (cases "g_irq s")
  case IrqIdle
  then show ?thesis using dev_ioread32_total [OF assms(1)] by (meson irq_enter)
next
  case (IrqStatus st)
  then show ?thesis by (meson irq_wake)
next
  case (IrqWoken st)
  then show ?thesis using dev_iowrite32_total [OF assms] by (meson irq_ack)
qed

section \<open>A transfer that the host does not disturb\<close>

definition stage_at :: "nat \<Rightarrow> nat \<Rightarrow> DriverState \<Rightarrow> bool" where
  "stage_at n k drv \<longleftrightarrow>
     (if k = 0 then flag drv = 2
      else if k \<le> words_for n then flag drv = 1 \<and> sint (payload_left drv) = int n - 4 * (int k - 1)
      else flag drv = 0)"

text \<open>Where the driver is when reader \<open>i\<close> has got \<open>k\<close> words of a message of \<open>n\<close> bytes.\<close>

definition reader_at :: "nat \<Rightarrow> (nat \<Rightarrow> u32) \<Rightarrow> nat \<Rightarrow> read_pc \<Rightarrow> DriverState \<Rightarrow> bool" where
  "reader_at n word k pc drv =
     (case pc of
        InUser \<Rightarrow> k \<le> Suc (words_for n) \<and> stage_at n k drv
      | Awake l \<Rightarrow> l = 4 \<and> k \<le> words_for n \<and> stage_at n k drv
      | Fetched l w \<Rightarrow> l = 4 \<and> w = word (4 + k) \<and> k \<le> words_for n \<and> stage_at n k drv
      | NotHeader l w \<Rightarrow> l = 4 \<and> w = word (4 + k) \<and> 1 \<le> k \<and> k \<le> words_for n \<and> stage_at n k drv
      | HeaderSeen l w \<Rightarrow> l = 4 \<and> w = word 4 \<and> k = 0 \<and> flag drv = 2
      | HeaderSaved l w \<Rightarrow> l = 4 \<and> w = word 4 \<and> k = 0 \<and> flag drv = 2 \<and> sint (payload_left drv) = int n
      | PayloadSeen l w \<Rightarrow> l = 4 \<and> w = word (4 + k) \<and> 1 \<le> k \<and> k \<le> words_for n \<and> stage_at n k drv
      | Subtracted l w \<Rightarrow> l = 4 \<and> w = word (4 + k) \<and> 1 \<le> k \<and> k \<le> words_for n \<and> flag drv = 1 \<and>
          sint (payload_left drv) = int n - 4 * int k
      | LastSeen l w \<Rightarrow> l = 4 \<and> w = word (4 + k) \<and> k = words_for n \<and> flag drv = 1
      | Copying l w \<Rightarrow> l = 4 \<and> w = word (4 + k) \<and> k \<le> words_for n \<and> stage_at n (Suc k) drv)"

definition device_shows :: "(nat \<Rightarrow> u32) \<Rightarrow> HucState \<Rightarrow> bool" where
  "device_shows word d \<longleftrightarrow> huc_wf d \<and> irq_status d = 0 \<and> (\<forall>j\<ge>4. dev_word_at d j = word j)"

definition transfer_inv :: "nat \<Rightarrow> nat \<Rightarrow> (nat \<Rightarrow> u32) \<Rightarrow> guest \<Rightarrow> bool" where
  "transfer_inv i n word s \<longleftrightarrow>
     device_shows word (g_dev s) \<and> g_irq s \<in> {IrqIdle, IrqStatus 0, IrqWoken 0} \<and>
     r_off (g_rd s i) = 4 * int (4 + length (r_got (g_rd s i))) \<and>
     (\<forall>j<length (r_got (g_rd s i)). r_got (g_rd s i) ! j = word (4 + j)) \<and>
     reader_at n word (length (r_got (g_rd s i))) (r_pc (g_rd s i)) (g_drv s)"

lemma device_shows_ioctl:
  assumes "device_shows word d" "cpus_are get_cpu tids"
    and "huc_ioctl (dev_iowrite32 get_cpu) f d cmd arg = Inr (ret, d')"
  shows "device_shows word d'"
proof -
  have wf: "huc_wf d" using assms(1) by (simp add: device_shows_def)
  have "dev_iowrite32 get_cpu d 8 v = Inr d'' \<Longrightarrow> device_shows word d''" for v d''
    using assms(1)
    by (auto simp: dev_iowrite32_def hucdev_bufmmio_write_eq hucdev_ops_access_size_def doorbell_eq [OF wf]
        Let_def device_shows_def huc_wf_def dev_word_at_def load32_put_disjoint)
  moreover have "dev_iowrite32 get_cpu d 12 v = Inr d'' \<Longrightarrow> device_shows word d''" for v d''
    using assms(1,2)
    by (auto simp: dev_iowrite32_def hucdev_bufmmio_write_eq hucdev_ops_access_size_def
        set_vcpu_affinity_cpus_are device_shows_def huc_wf_def dev_word_at_def)
  ultimately show ?thesis
    using assms(1,3) by (auto simp: huc_ioctl_def rbind_eq_Inr drv_simps split: if_splits)
qed

lemma device_shows_status: "device_shows word d \<Longrightarrow> dev_ioread32 d DRV_REG_STATUS_IRQ = Inr 0"
  by (simp add: device_shows_def drv_simps hucbus.read_status)

lemma device_shows_ack:
  "device_shows word d \<Longrightarrow> dev_iowrite32 get_cpu d DRV_REG_LOWER_IRQ 0 = Inr d' \<Longrightarrow> device_shows word d'"
  by (auto simp: drv_simps dev_iowrite32_def hucdev_bufmmio_write_eq hucdev_ops_access_size_def Let_def
      hucdev_lower_irq_def device_shows_def huc_wf_def dev_word_at_def emit_def)

lemma device_shows_word:
  assumes "device_shows word d" "k \<le> 16379" "dev_ioread32 d (of_int (4 * int (4 + k))) = Inr w"
  shows "w = word (4 + k)"
proof -
  have "(of_int (4 * int (4 + k)) :: u64) = of_nat (4 * (4 + k))" by simp
  then show ?thesis
    using assms hucbus.read_word [of d "4 + k"] by (simp add: device_shows_def)
qed

lemma stage_header:
  "0 < n \<Longrightarrow> sint (payload_left drv) = int n \<Longrightarrow> stage_at n (Suc 0) (drv\<lparr>flag := 1\<rparr>)"
  by (simp add: stage_at_def)

lemma words_for_le: "(k :: nat) \<le> words_for n \<longleftrightarrow> 4 * k < n + 4"
  by (auto simp: words_for_def)

lemma words_for_eq: "k \<le> words_for n \<Longrightarrow> int n \<le> 4 * int k \<Longrightarrow> k = words_for n"
  unfolding words_for_def by arith

declare words_for_simps(2) [simp del]

lemma quiet_step_transfer:
  assumes "guest_step get_cpu a s s'" "a \<in> {Ioctl, Irq, Enter i 4, Read i}" "transfer_inv i n word s"
    and "cpus_are get_cpu tids" "sint (ucast (payload_len (header_of_u32 (word 4))) :: u32) = int n" "0 < n" "n \<le> 65516"
  shows "transfer_inv i n word s'"
  using assms
proof (induction rule: guest_step.induct)
  case (ioctl uaccess s cmd arg ret d)
  then show ?case by (auto simp: transfer_inv_def intro: device_shows_ioctl)
next
  case (irq_enter s st)
  then show ?case by (auto simp: transfer_inv_def dest: device_shows_status)
next
  case (irq_wake s st)
  then show ?case by (auto simp: transfer_inv_def flag_after_def)
next
  case (irq_ack s st d)
  then show ?case by (auto simp: transfer_inv_def intro: device_shows_ack)
next
  case (fetch s j len w)
  then have "j = i" "r_pc (g_rd s i) = Awake len" by auto
  moreover have "w = word (4 + length (r_got (g_rd s i)))"
    using fetch device_shows_word [of word "g_dev s" "length (r_got (g_rd s i))" w]
    by (auto simp: transfer_inv_def reader_at_def words_for_le)
  ultimately show ?case using fetch by (auto simp: transfer_inv_def reader_at_def)
next
  case (save_length s j len w)
  then show ?case by (auto simp: transfer_inv_def reader_at_def)
next
  case (subtract s j len w)
  then have "j = i" "sint (payload_left (g_drv s)) = int n - 4 * (int (length (r_got (g_rd s i))) - 1)"
    "1 \<le> length (r_got (g_rd s i))" "length (r_got (g_rd s i)) \<le> words_for n"
    by (auto simp: transfer_inv_def reader_at_def stage_at_def split: if_splits)
  then have "sint (payload_left (g_drv s) - 4) = int n - 4 * int (length (r_got (g_rd s i)))"
    using sint_sub_4 [of "payload_left (g_drv s)"] subtract(7) by (simp add: words_for_le)
  then show ?case using subtract by (auto simp: transfer_inv_def reader_at_def stage_at_def split: if_splits)
next
  case (last s j len w)
  then show ?case by (auto simp: transfer_inv_def reader_at_def intro: words_for_eq)
next
  case (finish s j len w)
  then show ?case by (auto simp: transfer_inv_def reader_at_def stage_at_def)
next
  case (copy s j len w)
  then show ?case by (auto simp: transfer_inv_def reader_at_def nth_append less_Suc_eq)
qed (auto simp: transfer_inv_def reader_at_def stage_at_def words_for_le Suc_le_eq split: if_splits)

lemma quiet_run_transfer:
  assumes "(acts get_cpu {Ioctl, Irq, Enter i 4, Read i})\<^sup>*\<^sup>* s s'" "transfer_inv i n word s"
    and "cpus_are get_cpu tids" "sint (ucast (payload_len (header_of_u32 (word 4))) :: u32) = int n" "0 < n" "n \<le> 65516"
  shows "transfer_inv i n word s'"
  using assms(1,2)
proof (induction rule: rtranclp_induct)
  case (step x y)
  then obtain a where "a \<in> {Ioctl, Irq, Enter i 4, Read i}" "guest_step get_cpu a x y"
    by (auto simp: acts_def)
  then show ?case using quiet_step_transfer [OF _ _ step.IH [OF step.prems] assms(3-6)] by blast
qed

text \<open>The words a reader of a whole message gets.\<close>

definition message_image :: "(nat \<Rightarrow> u32) \<Rightarrow> nat \<Rightarrow> u32 list" where
  "message_image word n = map word [4..<5 + words_for n]"

lemma message_image_bytes:
  assumes "\<forall>j\<ge>4. word j = dev_word_at (with_message s h p) j" "length p = n"
  shows "take (4 + n) (concat (map le32 (message_image word n))) = header_bytes h @ p"
proof -
  let ?m = "the (buf (with_message s h p))"
  have v: "dev_word_at (with_message s h p) = (\<lambda>j. load32 ?m (4 * j))" by (simp add: dev_word_at_def fun_eq_iff)
  have "message_image word n = map (dev_word_at (with_message s h p)) [4..<4 + Suc (words_for n)]"
    unfolding message_image_def by (intro map_cong) (use assms(1) in auto)
  then have "concat (map le32 (message_image word n)) =
      word_bytes (dev_word_at (with_message s h p)) 4 (Suc (words_for n))"
    by (simp add: word_bytes_def comp_def del: upt_Suc)
  also have "\<dots> = mem_get ?m 16 (4 * Suc (words_for n))"
    by (simp only: v word_bytes_load32) simp
  finally have "take (4 + n) (concat (map le32 (message_image word n))) = mem_get ?m 16 (4 + n)"
    using words_for_bounds(1) [of n] by (simp add: mem_get_take)
  then show ?thesis using with_message_bytes [of s h p] assms(2) by simp
qed

section \<open>Several readers of one message\<close>

text \<open>
  Reads of 4 bytes by several readers, one call after the other; the result lists the readers
  whose call returned.
\<close>

fun read_turns :: "HucState \<Rightarrow> nat list \<Rightarrow> (nat \<Rightarrow> int) \<Rightarrow> DriverState \<Rightarrow> nat list" where
  "read_turns d [] off drv = []"
| "read_turns d (i # is) off drv =
     (case huc_read dev_ioread32 False False d drv 4 (off i) of
        Inr (Returned ret bs off', drv') \<Rightarrow> i # read_turns d is (off(i := off')) drv'
      | _ \<Rightarrow> read_turns d is off drv)"

lemma stage_read:
  assumes "stage_at n k drv" "k \<le> words_for n" "0 < n" "n \<le> 65516"
    and "k = 0 \<Longrightarrow> payload_len (header_of_u32 w) = of_nat n"
  shows "0 < flag drv" "stage_at n (Suc k) (account_read drv w 4)"
proof -
  show "0 < flag drv" using assms(1,2) by (auto simp: stage_at_def split: if_splits)
  show "stage_at n (Suc k) (account_read drv w 4)"
  proof (cases "k = 0")
    case True
    have "sint (ucast (of_nat n :: u16) :: u32) = int n"
      using assms(4) by (simp only: sint_ucast_u16 unat_of_nat) simp
    moreover have "1 \<le> words_for n" using assms(3) by (simp add: words_for_le)
    ultimately show ?thesis using True assms(1,5) by (simp add: stage_at_def account_read_def)
  next
    case False
    then have d: "flag drv = 1" "sint (payload_left drv) = int n - 4 * (int k - 1)" "4 * k < n + 4"
      using assms(1,2) by (simp_all add: stage_at_def words_for_le)
    moreover have "sint (payload_left drv - 4) = int n - 4 * int k"
      using sint_sub_4 [of "payload_left drv"] d False assms(4) by simp
    ultimately show ?thesis by (auto simp: stage_at_def account_read_def Let_def words_for_le)
  qed
qed

lemma read_turns_stage:
  assumes "huc_wf d" "payload_len (header_of_u32 (dev_word_at d 4)) = of_nat n" "0 < n" "n \<le> 65516"
    and "stage_at n k drv" "k \<le> Suc (words_for n)" "\<forall>i. \<exists>j\<le>k. off i = int (4 * (4 + j))"
  shows "length (read_turns d is off drv) = min (length is) (Suc (words_for n) - k)"
  using assms(5-7)
proof (induction "is" arbitrary: k off drv)
  case (Cons i "is")
  obtain j where j: "j \<le> k" "off i = int (4 * (4 + j))" using Cons.prems(3) by blast
  show ?case
  proof (cases "k \<le> words_for n")
    case True
    have lt: "4 + j < 16384" using True j(1) assms(4) by (simp add: words_for_le)
    have "0 < flag drv" using stage_read(1) [OF Cons.prems(1) True assms(3,4), of "dev_word_at d 4"] assms(2) by simp
    then have "huc_read dev_ioread32 False False d drv 4 (off i) =
        Inr (Returned 4 (le32 (dev_word_at d (4 + j))) (off i + 4), account_read drv (dev_word_at d (4 + j)) 4)"
      using hucbus.huc_read_word [OF assms(1), of drv "4 + j" 4 False] lt j(2) by simp
    moreover have st: "stage_at n (Suc k) (account_read drv (dev_word_at d (4 + j)) 4)"
      by (rule stage_read(2) [OF Cons.prems(1) True assms(3,4)]) (use j(1) assms(2) in simp)
    moreover have "\<forall>i'. \<exists>j'\<le>Suc k. (off(i := off i + 4)) i' = int (4 * (4 + j'))"
      using Cons.prems(3) j by (auto intro: le_SucI exI [of _ "Suc j"])
    from Cons.IH [OF st _ this] True
    have "length (read_turns d is (off(i := off i + 4)) (account_read drv (dev_word_at d (4 + j)) 4)) =
        min (length is) (words_for n - k)"
      by (simp del: fun_upd_apply)
    ultimately show ?thesis using True by (simp add: Suc_diff_le)
  next
    case False
    then have "flag drv = 0" "k = Suc (words_for n)" using Cons.prems by (auto simp: stage_at_def)
    then show ?thesis using Cons.IH [OF Cons.prems] by (simp add: huc_read_def)
  qed
qed simp

section \<open>A message that arrives during a transfer\<close>

definition connected :: "HucState \<Rightarrow> bool" where
  "connected d \<longleftrightarrow> dev_inv d \<and> fd_watch (trace d) (connect_fd d) = AcceptHandler \<and> irq_status d = 0"

lemma deliver_message:
  assumes "connected d" "cpus_are get_cpu tids" "injection_fits (h, p)"
  shows "host_step get_cpu d (hucdev_raise_irq (with_message d h p) 1)"
proof -
  have "huc_wf d" "fd_watch (trace d) (connect_fd d) = AcceptHandler"
    using assms(1) by (simp_all add: connected_def dev_inv_def)
  moreover have "handle_acceptfd stream_recv get_cpu 0 d (header_bytes h @ p) =
      Inr (hucdev_raise_irq (with_message d h p) 1, [])"
    using handle_acceptfd_message [where recv = stream_recv and p = p and h = h, OF \<open>huc_wf d\<close>]
      assms(3) dispatch_injection [OF assms(2)]
    by (simp add: stream_recv_def injection_fits_def)
  ultimately show ?thesis by (blast intro: host_step.deliver)
qed

text \<open>The host delivers a message and the driver handles its interrupt.\<close>

lemma deliver_and_handle:
  assumes "connected (g_dev s)" "g_irq s = IrqIdle" "cpus_are get_cpu tids" "injection_fits (h, p)"
  obtains d where "(acts get_cpu UNIV)\<^sup>*\<^sup>* s (s\<lparr>g_dev := d, g_drv := (g_drv s)\<lparr>flag := 2\<rparr>\<rparr>)" "connected d"
    "dev_word_at d = dev_word_at (with_message (g_dev s) h p)"
proof -
  let ?d = "hucdev_raise_irq (with_message (g_dev s) h p) 1"
  have step: "host_step get_cpu (g_dev s) ?d" using deliver_message [OF assms(1,3,4)] .
  have wf: "dev_inv ?d" using host_step_inv [OF step] assms(1) by (simp add: connected_def)
  have d: "irq_status ?d = 1" "dev_word_at ?d = dev_word_at (with_message (g_dev s) h p)"
    using assms(1) by (simp_all add: hucdev_raise_irq_def Let_def connected_def dev_word_at_def fun_eq_iff)
  obtain d' where d': "irq_handler dev_ioread32 (dev_iowrite32 get_cpu) (major (g_drv s)) ?d (g_drv s) =
      Inr (IRQ_HANDLED, d', (g_drv s)\<lparr>flag := 2\<rparr>)" "irq_status d' = 0" "dev_word_at d' = dev_word_at ?d"
    using hucbus.irq_handler_handles [of ?d "major (g_drv s)" "g_drv s" get_cpu] wf d(1)
    by (auto simp: dev_inv_def flag_after_def)
  have fr: "dev_frame (with_message (g_dev s) h p) ?d" "dev_frame ?d d'"
    by (rule dev_frame_raise, rule irq_handler_frame [OF d'(1)])
  have "connected d'"
    using wf d'(2) dev_frame_inv [OF fr(2)] fr assms(1) by (simp add: connected_def dev_frame_def)
  moreover have "(acts get_cpu UNIV)\<^sup>*\<^sup>* s (s\<lparr>g_dev := d', g_drv := (g_drv s)\<lparr>flag := 2\<rparr>\<rparr>)"
  proof -
    have "(acts get_cpu UNIV)\<^sup>*\<^sup>* s (s\<lparr>g_dev := ?d\<rparr>)"
      by (rule acts_step [OF rtranclp.rtrancl_refl host [OF step]]) simp
    moreover have "(acts get_cpu {Irq})\<^sup>*\<^sup>* (s\<lparr>g_dev := ?d\<rparr>)
        (s\<lparr>g_dev := ?d\<rparr>\<lparr>g_dev := d', g_drv := (g_drv s)\<lparr>flag := 2\<rparr>\<rparr>)"
      using d'(1) assms(2) by (intro irq_alone [where dev = "major (g_drv s)"]) simp_all
    ultimately show ?thesis using acts_mono [of get_cpu "{Irq}" _ _ UNIV] by fastforce
  qed
  ultimately show ?thesis using that d'(3) d(2) by simp
qed

text \<open>The state in which reader 0 has got the header of a message.\<close>

lemma header_taken:
  assumes "connected d" "cpus_are get_cpu tids" "injection_fits (h, p)"
  obtains s where "(acts get_cpu UNIV)\<^sup>*\<^sup>* (guest_start d n) s" "connected (g_dev s)" "g_irq s = IrqIdle"
    "g_rd s = (g_rd (guest_start d n))(0 := \<lparr>r_pc = InUser, r_off = 20, r_got = [dev_word_at (with_message d h p) 4]\<rparr>)"
    "flag (g_drv s) = 1" "sint (payload_left (g_drv s)) = int (length p)"
    "dev_word_at (g_dev s) = dev_word_at (with_message d h p)"
proof -
  let ?s = "upd_rd 0 (\<lambda>r. r\<lparr>r_off := 16\<rparr>) (guest_start d n)"
  have 1: "(acts get_cpu UNIV)\<^sup>*\<^sup>* (guest_start d n) ?s"
    by (rule acts_step [OF rtranclp.rtrancl_refl seek]) (simp_all add: guest_start_def)
  obtain d' where d': "(acts get_cpu UNIV)\<^sup>*\<^sup>* ?s (?s\<lparr>g_dev := d', g_drv := (g_drv ?s)\<lparr>flag := 2\<rparr>\<rparr>)"
    "connected d'" "dev_word_at d' = dev_word_at (with_message d h p)"
    using deliver_and_handle [of ?s get_cpu tids h p] assms by (auto simp: guest_start_def)
  let ?t = "?s\<lparr>g_dev := d', g_drv := (g_drv ?s)\<lparr>flag := 2\<rparr>\<rparr>"
  let ?w = "dev_word_at (with_message d h p) 4"
  let ?u = "upd_rd 0 (\<lambda>r. r\<lparr>r_pc := InUser, r_off := r_off r + 4, r_got := r_got r @ [?w]\<rparr>)
      (?t\<lparr>g_drv := account_read (g_drv ?t) ?w 4\<rparr>)"
  have "dev_ioread32 d' 16 = Inr ?w"
    using hucbus.read_word [of d' 4] d'(2,3) by (simp add: connected_def dev_inv_def)
  then have "(acts get_cpu {Enter 0 4, Read 0})\<^sup>*\<^sup>* ?t ?u"
    by (intro read_alone(2) [where k = 4]) (simp_all add: guest_start_def)
  then have "(acts get_cpu UNIV)\<^sup>*\<^sup>* (guest_start d n) ?u"
    using 1 d'(1) acts_mono [of get_cpu "{Enter 0 4, Read 0}" ?t ?u UNIV] by simp
  moreover have "sint (payload_left (g_drv ?u)) = int (length p)" "flag (g_drv ?u) = 1"
    using assms(3) by (simp_all add: account_read_def header_word sint_ucast_u16 injection_fits_def)
  ultimately show ?thesis using that [of ?u] d' by (simp add: guest_start_def upd_rd_def)
qed

text \<open>Once no message is announced, readers sleep until the host sends again.\<close>

definition asleep :: "guest \<Rightarrow> bool" where
  "asleep s \<longleftrightarrow> huc_wf (g_dev s) \<and> irq_status (g_dev s) = 0 \<and> g_irq s \<in> {IrqIdle, IrqStatus 0, IrqWoken 0} \<and>
     flag (g_drv s) = 0 \<and> (\<forall>i. r_pc (g_rd s i) = InUser)"

definition without_host :: "actor set" where
  "without_host = {a. a \<noteq> Host \<and> (\<forall>i len. a \<noteq> Signalled i len)}"

lemma asleep_shows: "asleep s \<Longrightarrow> device_shows (dev_word_at (g_dev s)) (g_dev s)"
  by (simp add: asleep_def device_shows_def)

lemma asleep_step:
  assumes "guest_step get_cpu a s s'" "a \<in> without_host" "asleep s" "cpus_are get_cpu tids"
  shows "asleep s' \<and> (\<forall>i. r_got (g_rd s' i) = r_got (g_rd s i))"
  using assms
proof (induction rule: guest_step.induct)
  case (ioctl uaccess s cmd arg ret d)
  then have "device_shows (dev_word_at (g_dev s)) d"
    using device_shows_ioctl [OF asleep_shows] by blast
  then show ?case using ioctl by (simp add: asleep_def device_shows_def)
next
  case (irq_enter s st)
  then show ?case using device_shows_status [OF asleep_shows, of s] by (simp add: asleep_def)
next
  case (irq_ack s st d)
  then have "device_shows (dev_word_at (g_dev s)) d"
    using device_shows_ack [OF asleep_shows, of s get_cpu d] by (auto simp: asleep_def)
  then show ?case using irq_ack by (simp add: asleep_def device_shows_def)
qed (auto simp: asleep_def without_host_def flag_after_def)

lemma asleep_forever:
  assumes "(acts get_cpu without_host)\<^sup>*\<^sup>* s s'" "asleep s" "cpus_are get_cpu tids"
  shows "asleep s' \<and> (\<forall>i. r_got (g_rd s' i) = r_got (g_rd s i))"
  using assms(1,2)
proof (induction rule: rtranclp_induct)
  case (step x y)
  then show ?case using asleep_step [OF _ _ _ assms(3), of _ x y] by (auto simp: acts_def)
qed simp

lemma injection_fits_length: "injection_fits (h, p) \<Longrightarrow> 0 < length p" "injection_fits (h, p) \<Longrightarrow> length p \<le> 65516"
  unfolding injection_fits_def snd_conv by blast+

lemma first_payload_word:
  assumes "k \<le> length p" "k \<le> 4" "0 < k"
  shows "take k (le32 (dev_word_at (with_message d h p) 5)) = take k p"
proof -
  let ?v = "dev_word_at (with_message d h p)"
  have "0 < length p" using assms(1,3) by linarith
  then have "words_for (length p) = Suc (words_for (length p - 4))" by (rule words_for_simps)
  then have "take (length p) (le32 (?v 5) @ word_bytes ?v 6 (words_for (length p - 4))) = p"
    using message_words [of p "length p" d h] by simp
  from arg_cong [OF this, of "take k"] assms show ?thesis by (simp add: min_def)
qed

text \<open>The state in which reader 0 has found the last word of a message to be the last.\<close>

lemma last_word_tested:
  assumes "connected d" "cpus_are get_cpu tids" "injection_fits (h, p)" "length p \<le> 4"
  obtains s w where "(acts get_cpu UNIV)\<^sup>*\<^sup>* (guest_start d n) s" "connected (g_dev s)" "g_irq s = IrqIdle"
    "r_pc (g_rd s 0) = LastSeen 4 w" "\<forall>i\<noteq>0. r_pc (g_rd s i) = InUser"
    "r_got (g_rd s 0) = [dev_word_at (with_message d h p) 4]" "take (length p) (le32 w) = p"
proof -
  obtain s where s: "(acts get_cpu UNIV)\<^sup>*\<^sup>* (guest_start d n) s" "connected (g_dev s)" "g_irq s = IrqIdle"
    "g_rd s = (g_rd (guest_start d n))(0 := \<lparr>r_pc = InUser, r_off = 20, r_got = [dev_word_at (with_message d h p) 4]\<rparr>)"
    "flag (g_drv s) = 1" "sint (payload_left (g_drv s)) = int (length p)"
    "dev_word_at (g_dev s) = dev_word_at (with_message d h p)"
    using header_taken [OF assms(1-3)] .
  let ?A = "(acts get_cpu UNIV)\<^sup>*\<^sup>*"
  let ?w = "dev_word_at (with_message d h p) 5"
  let ?left = "(g_drv s)\<lparr>payload_left := payload_left (g_drv s) - 4\<rparr>"
  have read: "dev_ioread32 (g_dev s) 20 = Inr ?w"
    using hucbus.read_word [of "g_dev s" 5] s(2,7) by (simp add: connected_def dev_inv_def)
  have left: "sint (payload_left ?left) \<le> 0"
    using sint_sub_4 [of "payload_left (g_drv s)"] s(6) assms(4) by simp
  have "?A s (goto 0 (Awake 4) s)"
    by (rule acts_step [OF rtranclp.rtrancl_refl enter]) (simp_all add: s(4,5))
  from acts_step [OF this fetch [where i = 0 and len = 4 and w = ?w]]
  have "?A s (goto 0 (Fetched 4 ?w) s)" by (simp add: s(4) read)
  from acts_step [OF acts_step [OF this no_header [where i = 0 and len = 4 and w = ?w]]
      is_payload [where i = 0 and len = 4 and w = ?w]]
  have "?A s (goto 0 (PayloadSeen 4 ?w) s)" by (simp add: s(5))
  from acts_step [OF acts_step [OF this subtract [where i = 0 and len = 4 and w = ?w]]
      last [where i = 0 and len = 4 and w = ?w]]
  have "?A s (goto 0 (LastSeen 4 ?w) (s\<lparr>g_drv := ?left\<rparr>))" using left by simp
  then have "?A (guest_start d n) (goto 0 (LastSeen 4 ?w) (s\<lparr>g_drv := ?left\<rparr>))" using s(1) by simp
  moreover have "take (length p) (le32 ?w) = p"
    using first_payload_word [of "length p" p] injection_fits_length(1) [OF assms(3)] assms(4) by simp
  ultimately show ?thesis
    using s(2-4) by (intro that [of "goto 0 (LastSeen 4 ?w) (s\<lparr>g_drv := ?left\<rparr>)" ?w]) (simp_all add: guest_start_def)
qed

section \<open>Properties of the guest under concurrency\<close>



text \<open>C4.  Interference freedom: once the interrupt of a message has been handled, and until
  the host sends again, a single reader that asks for 4 bytes at a time gets the words of
  the message in order, each exactly once, whatever \<^verbatim>\<open>ioctl\<close> calls and (shared) interrupts
  come in between at any access.  When the driver has no more for it, it has the whole
  message: the bytes of the header and of the payload.\<close>

theorem undisturbed_transfer:
  assumes "huc_wf (g_dev s)" "irq_status (g_dev s) = 0" "g_irq s = IrqIdle" "flag (g_drv s) = 2"
    and "g_rd s i = \<lparr>r_pc = InUser, r_off = 16, r_got = []\<rparr>" "cpus_are get_cpu tids"
    and "\<forall>j\<ge>4. dev_word_at (g_dev s) j = dev_word_at (with_message d h p) j"
    and "length p = unat (payload_len h)" "0 < length p" "length p \<le> 65516"
    and "(acts get_cpu {Ioctl, Irq, Enter i 4, Read i})\<^sup>*\<^sup>* s s'"
  shows "\<exists>rest. r_got (g_rd s' i) @ rest = message_image (dev_word_at (g_dev s)) (length p) \<and>
    (r_pc (g_rd s' i) = InUser \<longrightarrow> (rest = [] \<longleftrightarrow> flag (g_drv s') < 1)) \<and>
    (rest = [] \<longrightarrow> take (4 + length p) (concat (map le32 (r_got (g_rd s' i)))) = header_bytes h @ p)"
proof -
  let ?word = "dev_word_at (g_dev s)"
  let ?n = "length p"
  have hw: "header_of_u32 (?word 4) = h" using assms(7) header_word [of d h p] by simp
  have "transfer_inv i ?n ?word s"
    using assms by (simp add: transfer_inv_def device_shows_def reader_at_def stage_at_def)
  then have inv: "transfer_inv i ?n ?word s'"
    using quiet_run_transfer [OF assms(11)] assms(6,8-10) hw by (simp add: sint_ucast_u16)
  let ?k = "length (r_got (g_rd s' i))"
  have k: "?k \<le> Suc (words_for ?n)"
    using inv by (auto simp: transfer_inv_def reader_at_def split: read_pc.splits)
  have got: "r_got (g_rd s' i) = map ?word [4..<4 + ?k]"
    using inv by (intro nth_equalityI) (auto simp: transfer_inv_def)
  have "[4..<5 + words_for ?n] = [4..<4 + ?k] @ [4 + ?k..<5 + words_for ?n]"
    using k upt_add_eq_append [of 4 "4 + ?k" "Suc (words_for ?n) - ?k"] by simp
  then have "message_image ?word ?n = r_got (g_rd s' i) @ map ?word [4 + ?k..<5 + words_for ?n]"
    using got by (simp add: message_image_def)
  moreover have "r_pc (g_rd s' i) = InUser \<longrightarrow> (map ?word [4 + ?k..<5 + words_for ?n] = [] \<longleftrightarrow> flag (g_drv s') < 1)"
    using inv k by (auto simp: transfer_inv_def reader_at_def stage_at_def split: if_splits)
  ultimately show ?thesis
    using message_image_bytes [of ?word d h p ?n] assms(7)
    by (intro exI [of _ "map ?word [4 + ?k..<5 + words_for ?n]"]) auto
qed

definition sample_conn :: HucState where
  "sample_conn = handle_listenfd 7 sample_dev"

lemma sample_conn_connected: "connected sample_conn"
proof -
  have "dev_inv sample_dev" by (rule dev_reachable_dev_inv [OF sample_dev_reachable])
  then have "dev_inv sample_conn"
    unfolding sample_conn_def by (rule dev_inv_listen) (simp_all add: sample_dev_eq fd_watch_def)
  then show ?thesis
    by (simp add: connected_def sample_conn_def handle_listenfd_def sample_dev_eq fd_watch_def emit_def Let_def)
qed

theorem undisturbed_transfer_witness:
  "\<exists>s'. (acts (cpu_of [100]) {Ioctl, Irq, Enter 0 4, Read 0})\<^sup>*\<^sup>*
      \<lparr>g_dev = with_message sample_dev \<lparr>version = 1, msg_type = 1, payload_len = 1\<rparr> [5],
       g_drv = \<lparr>flag = 2, payload_left = 0, major = 240\<rparr>, g_irq = IrqIdle,
       g_rd = (\<lambda>_. \<lparr>r_pc = InUser, r_off = 16, r_got = []\<rparr>)\<rparr> s' \<and>
    r_pc (g_rd s' 0) = Awake 4 \<and>
    (\<exists>rest. r_got (g_rd s' 0) @ rest =
       message_image (dev_word_at (with_message sample_dev \<lparr>version = 1, msg_type = 1, payload_len = 1\<rparr> [5])) 1)"
proof -
  let ?h = "\<lparr>version = 1, msg_type = 1, payload_len = 1\<rparr>"
  let ?s = "\<lparr>g_dev = with_message sample_dev ?h [5], g_drv = \<lparr>flag = 2, payload_left = 0, major = 240\<rparr>,
      g_irq = IrqIdle, g_rd = (\<lambda>_. \<lparr>r_pc = InUser, r_off = 16, r_got = []\<rparr>)\<rparr>"
  have r: "(acts (cpu_of [100]) {Ioctl, Irq, Enter 0 4, Read 0})\<^sup>*\<^sup>* ?s (goto 0 (Awake 4) ?s)"
    by (rule acts_step [OF rtranclp.rtrancl_refl enter]) simp_all
  have "huc_wf (g_dev ?s)" by (simp add: with_message_wf sample_dev_wf)
  moreover have "irq_status (g_dev ?s) = 0" by (simp add: sample_dev_eq)
  ultimately have "\<exists>rest. r_got (g_rd (goto 0 (Awake 4) ?s) 0) @ rest =
      message_image (dev_word_at (g_dev ?s)) (length [5 :: u8])"
    using undisturbed_transfer [of ?s 0 "cpu_of [100]" "[100]" sample_dev ?h "[5]", OF _ _ _ _ _ _ _ _ _ _ r]
    by auto
  then show ?thesis using r by (intro exI [of _ "goto 0 (Awake 4) ?s"]) simp
qed







end
