(* ===== verification/Huc_Monitor.thy ===== *)
theory Huc_Monitor
  imports Huc_Daemon_Main
begin

text \<open>
  The eBPF program of \<^verbatim>\<open>bytecode.c\<close> and the polling loop of the daemon's child at the same time:
  guest applications call \<^verbatim>\<open>sched_setaffinity\<close> on any number of CPUs, each call runs the program,
  and the child goes over the map and passes the masks on.  One step is one access to the map
  or one \<^verbatim>\<open>ioctl\<close>.  Alone, the steps of the child amount to \<open>poll_map\<close>.  In every interleaving a
  mask is passed on at most as often as it was asked for; the reset of the counter can leave a
  mask behind in the map.
\<close>

section \<open>State and steps\<close>

text \<open>
  The child between its accesses, with the loop counter \<^verbatim>\<open>i\<close> and the variable \<^verbatim>\<open>value\<close>: before the
  lookup of the counter, in the loop before the lookup of entry \<^verbatim>\<open>i\<close>, before the \<^verbatim>\<open>ioctl\<close>, and
  before the entry is cleared.  \<open>calls\<close> and \<open>sent\<close> record the masks asked for and the masks
  passed on, the latter with their loop counter.
\<close>

datatype child_pc = Asleep u64 | Drain nat u64 | Forward nat u64 | Clear nat

record monitor =
  race :: racing
  child :: child_pc
  calls :: "u64 list"
  sent :: "(nat \<times> u64) list"

abbreviation mmap :: "monitor \<Rightarrow> u64 list" where
  "mmap s \<equiv> rmap (race s)"

abbreviation set_map :: "u64 list \<Rightarrow> monitor \<Rightarrow> monitor" where
  "set_map m s \<equiv> s\<lparr>race := (race s)\<lparr>rmap := m\<rparr>\<rparr>"

inductive quiet_step :: "monitor \<Rightarrow> monitor \<Rightarrow> bool" where
  probe: "prog_step (race s) r \<Longrightarrow> quiet_step s (s\<lparr>race := r\<rparr>)"
| poll: "child s = Asleep v0 \<Longrightarrow> v = lookup_into array_lookup (mmap s) 0 v0 \<Longrightarrow>
    quiet_step s (s\<lparr>child := (if v \<noteq> 0 then Drain MAX_CPU v else Asleep v)\<rparr>)"
| look: "child s = Drain (Suc i) v0 \<Longrightarrow> v = lookup_into array_lookup (mmap s) (of_nat (Suc i)) v0 \<Longrightarrow>
    quiet_step s (s\<lparr>child := (if v \<noteq> 0 then Forward (Suc i) v else Drain i v)\<rparr>)"
| forward: "child s = Forward i v \<Longrightarrow>
    quiet_step s (s\<lparr>child := Clear i, sent := sent s @ [(i, v)]\<rparr>)"
| clear: "child s = Clear i \<Longrightarrow>
    quiet_step s (set_map (array_update (mmap s) (of_nat i) 0) s\<lparr>child := Drain (i - 1) 0\<rparr>)"
| reset: "child s = Drain 0 v \<Longrightarrow>
    quiet_step s (set_map (array_update (mmap s) 0 v) s\<lparr>child := Asleep v\<rparr>)"

text \<open>A guest call on a CPU that runs no program at the moment.\<close>

inductive monitor_step :: "nat \<Rightarrow> monitor \<Rightarrow> monitor \<Rightarrow> bool" for ncpu where
  quiet: "quiet_step s s' \<Longrightarrow> monitor_step ncpu s s'"
| call: "t < ncpu \<Longrightarrow> pcs (race s) t = Finished \<Longrightarrow>
    monitor_step ncpu s (s\<lparr>race := goto (race s) t (Entered v), calls := calls s @ [v]\<rparr>)"

definition monitor_start :: monitor where
  "monitor_start =
     \<lparr>race = \<lparr>rmap = cpuindex_mask_maps, pcs = (\<lambda>t. Finished)\<rparr>, child = Asleep 0, calls = [], sent = []\<rparr>"

section \<open>The child alone\<close>

text \<open>Without interference a turn of the child is \<open>poll_map\<close>.\<close>

lemma drain_acc:
  "drain lookup update i (m, v, os) =
     (case drain lookup update i (m, v, []) of (m', v', os') \<Rightarrow> (m', v', os @ os'))"
proof (induction i arbitrary: m v os)
  case (Suc i)
  let ?v = "lookup_into lookup m (of_nat (Suc i)) v"
  show ?case
    using Suc.IH [of "update m (of_nat (Suc i)) 0" 0 "os @ [?v]"]
      Suc.IH [of "update m (of_nat (Suc i)) 0" 0 "[?v]"] Suc.IH [of m 0 os]
    by (simp add: drain_step_def Let_def split: prod.splits)
qed simp

lemma drain_alone:
  assumes "child s = Drain i v"
    and "drain array_lookup array_update i (mmap s, v, map snd (sent s)) = (m', v', os)"
  shows "\<exists>s'. quiet_step\<^sup>*\<^sup>* s s' \<and> mmap s' = m' \<and> child s' = Drain 0 v' \<and> map snd (sent s') = os \<and>
    pcs (race s') = pcs (race s) \<and> calls s' = calls s"
  using assms
proof (induction i arbitrary: s v)
  case (Suc i)
  let ?v = "lookup_into array_lookup (mmap s) (of_nat (Suc i)) v"
  show ?case
  proof (cases "?v = 0")
    case True
    let ?s = "s\<lparr>child := Drain i 0\<rparr>"
    have "quiet_step s ?s" using look [OF Suc.prems(1) refl] True by simp
    moreover have "drain array_lookup array_update i (mmap ?s, 0, map snd (sent ?s)) = (m', v', os)"
      using Suc.prems(2) True by (simp add: drain_step_def Let_def)
    ultimately show ?thesis using Suc.IH [of ?s 0] by (auto intro: converse_rtranclp_into_rtranclp)
  next
    case False
    let ?a = "s\<lparr>child := Forward (Suc i) ?v\<rparr>"
    let ?b = "?a\<lparr>child := Clear (Suc i), sent := sent s @ [(Suc i, ?v)]\<rparr>"
    let ?c = "set_map (array_update (mmap s) (of_nat (Suc i)) 0) ?b\<lparr>child := Drain i 0\<rparr>"
    have steps: "quiet_step s ?a" "quiet_step ?a ?b" "quiet_step ?b ?c"
      using look [OF Suc.prems(1) refl] forward [of ?a "Suc i" ?v] clear [of ?b "Suc i"] False by simp_all
    have "drain array_lookup array_update i (mmap ?c, 0, map snd (sent ?c)) = (m', v', os)"
      using Suc.prems(2) False by (simp add: drain_step_def Let_def)
    from Suc.IH [OF _ this] obtain s' where c: "quiet_step\<^sup>*\<^sup>* ?c s'" and s': "mmap s' = m' \<and> child s' = Drain 0 v' \<and>
      map snd (sent s') = os \<and> pcs (race s') = pcs (race s) \<and> calls s' = calls s" by auto
    have "quiet_step\<^sup>*\<^sup>* s ?c" using steps by (meson rtranclp.rtrancl_into_rtrancl rtranclp.rtrancl_refl)
    then have "quiet_step\<^sup>*\<^sup>* s s'" using c by (rule rtranclp_trans)
    with s' show ?thesis by blast
  qed
qed auto

lemma child_alone:
  assumes "child s = Asleep v" "poll_map array_lookup array_update (mmap s) v = (m', v', masks)"
  shows "\<exists>s'. quiet_step\<^sup>*\<^sup>* s s' \<and> mmap s' = m' \<and> child s' = Asleep v' \<and>
    map snd (sent s') = map snd (sent s) @ masks \<and> pcs (race s') = pcs (race s) \<and> calls s' = calls s"
proof -
  let ?v = "lookup_into array_lookup (mmap s) 0 v"
  have step: "quiet_step s (s\<lparr>child := (if ?v \<noteq> 0 then Drain MAX_CPU ?v else Asleep ?v)\<rparr>)"
    using poll [OF assms(1) refl] .
  show ?thesis
  proof (cases "?v = 0")
    case True
    then show ?thesis using assms step
      by (intro exI [of _ "s\<lparr>child := Asleep 0\<rparr>"]) (auto simp: poll_map_def Let_def)
  next
    case False
    let ?s = "s\<lparr>child := Drain MAX_CPU ?v\<rparr>"
    obtain m v'' os where d: "drain array_lookup array_update MAX_CPU (mmap s, ?v, []) = (m, v'', os)"
      by (metis prod_cases3)
    then have r: "m' = array_update m 0 v''" "v' = v''" "masks = os"
      using assms(2) False by (auto simp: poll_map_def Let_def)
    have "drain array_lookup array_update MAX_CPU (mmap ?s, ?v, map snd (sent ?s)) =
        (m, v'', map snd (sent s) @ os)"
      using drain_acc [of array_lookup array_update MAX_CPU "mmap s" ?v "map snd (sent s)"] d by simp
    from drain_alone [OF _ this] obtain t where t: "quiet_step\<^sup>*\<^sup>* ?s t" "mmap t = m" "child t = Drain 0 v''"
      "map snd (sent t) = map snd (sent s) @ os" "pcs (race t) = pcs (race s)" "calls t = calls s"
      by auto
    let ?t = "set_map (array_update (mmap t) 0 v'') t\<lparr>child := Asleep v''\<rparr>"
    have "quiet_step s ?s" using step False by simp
    with t(1) reset [OF t(3)] have "quiet_step\<^sup>*\<^sup>* s ?t"
      by (meson converse_rtranclp_into_rtranclp rtranclp.rtrancl_into_rtrancl)
    then show ?thesis using t r by (intro exI [of _ ?t]) simp
  qed
qed

section \<open>Where a mask can be\<close>

text \<open>
  A mask that was asked for is carried by the program of a CPU, then sits in an entry of the
  map, then in the hand of the child, and has been passed on at last.  The entry the child has
  read but not cleared yet does not count: what it holds was taken already or will be wiped.
\<close>

fun carries :: "u64 \<Rightarrow> prog_pc \<Rightarrow> bool" where
  "carries v (Entered u) \<longleftrightarrow> u = v"
| "carries v (Checked u) \<longleftrightarrow> u = v"
| "carries v (Added u) \<longleftrightarrow> u = v"
| "carries v (Indexed u i) \<longleftrightarrow> u = v"
| "carries v Finished \<longleftrightarrow> False"

definition inflight :: "nat \<Rightarrow> u64 \<Rightarrow> (nat \<Rightarrow> prog_pc) \<Rightarrow> nat" where
  "inflight n v P = card {t. t < n \<and> carries v (P t)}"

definition entries :: "u64 \<Rightarrow> nat set \<Rightarrow> u64 list \<Rightarrow> nat" where
  "entries v ex m = card {i. 0 < i \<and> i < MAX_ENTRIES \<and> i \<notin> ex \<and> m ! i = v}"

fun excluded :: "child_pc \<Rightarrow> nat set" where
  "excluded (Forward i v) = {i}" | "excluded (Clear i) = {i}"
| "excluded (Asleep v) = {}" | "excluded (Drain i v) = {}"

fun in_hand :: "u64 \<Rightarrow> child_pc \<Rightarrow> nat" where
  "in_hand v (Forward i u) = (if i < MAX_ENTRIES \<and> u = v then 1 else 0)"
| "in_hand v (Clear i) = 0" | "in_hand v (Asleep u) = 0" | "in_hand v (Drain i u) = 0"

definition forwarded :: "u64 \<Rightarrow> (nat \<times> u64) list \<Rightarrow> nat" where
  "forwarded v xs = length (filter (\<lambda>(i, u). i < MAX_ENTRIES \<and> u = v) xs)"

definition whereabouts :: "nat \<Rightarrow> u64 \<Rightarrow> monitor \<Rightarrow> nat" where
  "whereabouts n v s = forwarded v (sent s) + in_hand v (child s) +
     entries v (excluded (child s)) (mmap s) + inflight n v (pcs (race s))"

fun child_ok :: "child_pc \<Rightarrow> bool" where
  "child_ok (Asleep v) \<longleftrightarrow> True"
| "child_ok (Drain i v) \<longleftrightarrow> i \<le> MAX_CPU"
| "child_ok (Forward i v) \<longleftrightarrow> 0 < i \<and> i \<le> MAX_CPU \<and> v \<noteq> 0"
| "child_ok (Clear i) \<longleftrightarrow> 0 < i \<and> i \<le> MAX_CPU"

definition monitor_inv :: "nat \<Rightarrow> monitor \<Rightarrow> bool" where
  "monitor_inv n s \<longleftrightarrow>
     length (mmap s) = MAX_ENTRIES \<and> (\<forall>t\<ge>n. pcs (race s) t = Finished) \<and> child_ok (child s) \<and>
     (\<forall>(i, v) \<in> set (sent s). 0 < i \<and> i \<le> MAX_CPU \<and> v \<noteq> 0) \<and>
     (\<forall>v. v \<noteq> 0 \<longrightarrow> whereabouts n v s \<le> count_list (calls s) v)"

lemma inflight_goto:
  assumes "t < n"
  shows "inflight n v (P(t := pc)) + of_bool (carries v (P t)) = inflight n v P + of_bool (carries v pc)"
proof -
  let ?A = "\<lambda>P. {u. u < n \<and> u \<noteq> t \<and> carries v (P u)}"
  have "{u. u < n \<and> carries v (P u)} = (if carries v (P t) then insert t (?A P) else ?A P)" for P
    using assms by auto
  then have c: "inflight n v P = card (?A P) + of_bool (carries v (P t))" for P
    by (simp add: inflight_def)
  have "?A (P(t := pc)) = ?A P" by auto
  with c [of P] c [of "P(t := pc)"] show ?thesis by simp
qed

lemma entries_store: "entries v ex (m[i := u]) \<le> entries v ex m + of_bool (u = v)"
proof -
  let ?A = "{j. 0 < j \<and> j < MAX_ENTRIES \<and> j \<notin> ex \<and> m ! j = v}"
  have "m ! j = v \<or> j = i \<and> u = v" if "m[i := u] ! j = v" for j
    using that by (cases "j = i"; cases "i < length m") (auto simp: not_less list_update_beyond)
  then have "entries v ex (m[i := u]) \<le> card (if u = v then insert i ?A else ?A)"
    unfolding entries_def by (intro card_mono) auto
  also have "\<dots> \<le> entries v ex m + of_bool (u = v)"
    by (auto simp: entries_def card_insert_if)
  finally show ?thesis .
qed

lemma entries_count: "entries v ex (m[0 := u]) = entries v ex m"
  by (auto simp: entries_def intro: arg_cong [where f = card])

lemma entries_taken:
  assumes "0 < i" "i < MAX_ENTRIES"
  shows "entries v {} m = entries v {i} m + of_bool (m ! i = v)"
proof -
  let ?A = "{j. 0 < j \<and> j < MAX_ENTRIES \<and> j \<noteq> i \<and> m ! j = v}"
  have "{j. 0 < j \<and> j < MAX_ENTRIES \<and> m ! j = v} = (if m ! i = v then insert i ?A else ?A)"
    using assms by auto
  then show ?thesis by (simp add: entries_def)
qed

section \<open>The invariant\<close>

lemma whereabouts_goto:
  assumes "t < n"
  shows "whereabouts n v (s\<lparr>race := goto (race s) t pc\<rparr>) + of_bool (carries v (pcs (race s) t)) =
    whereabouts n v s + of_bool (carries v pc)"
  using inflight_goto [OF assms, of v "pcs (race s)" pc] by (simp add: whereabouts_def goto_def)

lemma prog_step_whereabouts:
  assumes "prog_step (race s) r" "\<forall>t\<ge>n. pcs (race s) t = Finished"
  shows "whereabouts n v (s\<lparr>race := r\<rparr>) \<le> whereabouts n v s \<and> length (rmap r) = length (mmap s) \<and>
    (\<forall>t\<ge>n. pcs r t = Finished)"
proof -
  have lt: "t < n" if "pcs (race s) t \<noteq> Finished" for t using assms(2) that by (meson not_less)
  note goto = whereabouts_goto [OF lt, of _ v s]
  from assms(1) show ?thesis
  proof cases
    case (full t u)
    then show ?thesis using goto [of t Finished] assms(2) by (auto simp: goto_def)
  next
    case (check t u)
    then show ?thesis using goto [of t "Checked u"] assms(2) lt by (fastforce simp: goto_def)
  next
    case (add t u)
    then show ?thesis using goto [of t "Added u"] assms(2) lt
      by (fastforce simp: goto_def whereabouts_def array_update_def entries_count)
  next
    case (index t u)
    then show ?thesis using goto [of t "Indexed u (ucast (mmap s ! 0))"] assms(2) lt
      by (fastforce simp: goto_def)
  next
    case (store t u i)
    then show ?thesis
      using goto [of t Finished] assms(2) entries_store [of v "excluded (child s)" "mmap s" "unat i" u]
      by (auto simp: goto_def whereabouts_def array_update_def)
  qed
qed

lemma lookup_entry:
  assumes "length m = MAX_ENTRIES" "i < MAX_ENTRIES"
  shows "lookup_into array_lookup m (of_nat i) v = m ! i" "array_update m (of_nat i) u = m[i := u]"
proof -
  have "unat (of_nat i :: u32) = i" using assms(2) by (simp add: unat_of_nat MAX_ENTRIES_def)
  then show "lookup_into array_lookup m (of_nat i) v = m ! i" "array_update m (of_nat i) u = m[i := u]"
    using assms by (simp_all add: lookup_into_def array_lookup_def array_update_def)
qed

lemma lookup_last:
  assumes "length m = MAX_ENTRIES"
  shows "lookup_into array_lookup m (of_nat MAX_ENTRIES) v = v" "array_update m (of_nat MAX_ENTRIES) u = m"
  using assms by (simp_all add: lookup_into_def array_lookup_def array_update_def MAX_ENTRIES_def list_update_beyond)

lemma MAX_CPU_ENTRIES: "MAX_CPU = MAX_ENTRIES"
  by (simp add: MAX_CPU_def MAX_ENTRIES_def)

lemma whereabouts_look:
  assumes "child s = Drain (Suc i) v0" "v = lookup_into array_lookup (mmap s) (of_nat (Suc i)) v0"
    and "length (mmap s) = MAX_ENTRIES" "Suc i \<le> MAX_ENTRIES" "u \<noteq> 0"
  shows "whereabouts n u (s\<lparr>child := (if v \<noteq> 0 then Forward (Suc i) v else Drain i v)\<rparr>) = whereabouts n u s"
proof (cases "Suc i = MAX_ENTRIES")
  case True
  have "entries u {MAX_ENTRIES} m = entries u {} m" for m
    by (auto simp: entries_def intro: arg_cong [where f = card])
  then show ?thesis using assms(1) True by (simp add: whereabouts_def)
next
  case False
  then have "v = mmap s ! Suc i" using assms(2,4) lookup_entry(1) [OF assms(3), of "Suc i" v0] by simp
  then show ?thesis using assms(1,4,5) entries_taken [of "Suc i" u "mmap s"] False
    by (simp add: whereabouts_def)
qed

lemma whereabouts_clear:
  assumes "child s = Clear i" "length (mmap s) = MAX_ENTRIES" "0 < i" "i \<le> MAX_ENTRIES" "u \<noteq> 0"
  shows "whereabouts n u (set_map (array_update (mmap s) (of_nat i) 0) s\<lparr>child := Drain (i - 1) 0\<rparr>) \<le>
    whereabouts n u s"
proof -
  have "entries u {} (array_update (mmap s) (of_nat i) 0) \<le> entries u {i} (mmap s)"
    using assms(2-5) lookup_entry(2) [OF assms(2), of i 0] lookup_last(2) [OF assms(2), of 0]
    unfolding entries_def by (cases "i = MAX_ENTRIES") (auto intro!: card_mono simp: nth_list_update)
  then show ?thesis using assms(1) by (simp add: whereabouts_def)
qed

lemma quiet_step_inv: "quiet_step s s' \<Longrightarrow> monitor_inv n s \<Longrightarrow> monitor_inv n s' \<and> calls s' = calls s"
proof (induction rule: quiet_step.induct)
  case (probe s r)
  have p: "whereabouts n v (s\<lparr>race := r\<rparr>) \<le> whereabouts n v s" "length (rmap r) = length (mmap s)"
    "\<forall>t\<ge>n. pcs r t = Finished" for v
    using prog_step_whereabouts [OF probe(1), of n v] probe(2) by (simp_all add: monitor_inv_def)
  then show ?case using probe(2) order_trans [OF p(1)] by (simp add: monitor_inv_def)
next
  case (poll s v0 v)
  then show ?case by (auto simp: monitor_inv_def whereabouts_def)
next
  case (look s i v0 v)
  then show ?case
    using whereabouts_look [OF look(1,2), of _ n] by (simp add: monitor_inv_def MAX_CPU_ENTRIES)
next
  case (forward s i v)
  then show ?case by (auto simp: monitor_inv_def whereabouts_def forwarded_def)
next
  case (clear s i)
  then show ?case
    using whereabouts_clear [OF clear(1), of _ n]
    by (fastforce simp: monitor_inv_def array_update_def MAX_CPU_ENTRIES intro: order_trans)
next
  case (reset s v)
  then show ?case by (simp add: monitor_inv_def whereabouts_def array_update_def entries_count)
qed

lemma monitor_step_inv:
  assumes "monitor_step n s s'" "monitor_inv n s"
  shows "monitor_inv n s'"
  using assms
proof cases
  case (call t v)
  have "whereabouts n u s' = whereabouts n u s + of_bool (v = u)" for u
    using whereabouts_goto [OF call(2), of u s "Entered v"] call(1,3) by (simp add: whereabouts_def)
  then show ?thesis using call assms(2) by (auto simp: monitor_inv_def goto_def)
qed (use quiet_step_inv assms(2) in blast)

section \<open>Runs\<close>

lemma quiet_run: "quiet_step\<^sup>*\<^sup>* s s' \<Longrightarrow> (monitor_step n)\<^sup>*\<^sup>* s s'"
  by (rule rtranclp_mono [THEN predicate2D]) (auto intro: monitor_step.quiet)

lemma probe_run: "prog_step\<^sup>*\<^sup>* (race s) r \<Longrightarrow> quiet_step\<^sup>*\<^sup>* s (s\<lparr>race := r\<rparr>)"
proof (induction rule: rtranclp_induct)
  case (step r r')
  from probe [of "s\<lparr>race := r\<rparr>" r'] step show ?case by (simp add: rtranclp.rtrancl_into_rtrancl)
qed simp

text \<open>A call that nothing interrupts is \<open>bpf_prog1\<close>.\<close>

lemma call_alone:
  assumes "t < n" "pcs (race s) t = Finished" "length (mmap s) = MAX_ENTRIES"
  shows "(monitor_step n)\<^sup>*\<^sup>* s
    (set_map (bpf_prog1 array_lookup array_update v (mmap s)) (s\<lparr>calls := calls s @ [v]\<rparr>))"
proof -
  let ?s = "s\<lparr>race := goto (race s) t (Entered v), calls := calls s @ [v]\<rparr>"
  have idle: "(pcs (race s))(t := Finished) = pcs (race s)" using assms(2) by auto
  have m: "0 < length (mmap s)" using assms(3) by (simp add: MAX_ENTRIES_def)
  have "fold run_cpu [t, t, t, t] (race ?s) =
      (race s)\<lparr>rmap := bpf_prog1 array_lookup array_update v (mmap s)\<rparr>"
    using m idle assms(2)
    by (cases "mmap s ! 0 = of_nat (MAX_ENTRIES - 1)")
      (simp_all add: run_cpu_def goto_def bpf_prog1_def array_lookup_def array_update_def Let_def)
  with schedule_steps [of "race ?s" "[t, t, t, t]"]
  have "prog_step\<^sup>*\<^sup>* (race ?s) ((race s)\<lparr>rmap := bpf_prog1 array_lookup array_update v (mmap s)\<rparr>)" by simp
  from quiet_run [OF probe_run [OF this], of n] call [of t n s v, OF assms(1,2)] show ?thesis
    by (simp add: converse_rtranclp_into_rtranclp)
qed

lemma drain_zeros:
  assumes "child s = Drain (j + k) 0" "\<And>i. k < i \<Longrightarrow> i \<le> j + k \<Longrightarrow> mmap s ! i = 0"
    and "length (mmap s) = MAX_ENTRIES" "j + k < MAX_ENTRIES"
  shows "quiet_step\<^sup>*\<^sup>* s (s\<lparr>child := Drain k 0\<rparr>)"
  using assms
proof (induction j arbitrary: s)
  case 0
  then have "s\<lparr>child := Drain k 0\<rparr> = s" by (cases s) simp
  then show ?case by simp
next
  case (Suc j)
  let ?s = "s\<lparr>child := Drain (j + k) 0\<rparr>"
  have "lookup_into array_lookup (mmap s) (of_nat (Suc (j + k))) 0 = 0"
    using lookup_entry(1) [OF Suc.prems(3), of "Suc (j + k)" 0] Suc.prems(2,4) by simp
  then have "quiet_step s ?s" using look [of s "j + k" 0, OF _ refl] Suc.prems(1) by simp
  moreover have "quiet_step\<^sup>*\<^sup>* ?s (?s\<lparr>child := Drain k 0\<rparr>)" using Suc.prems by (intro Suc.IH) simp_all
  ultimately show ?case by (simp add: converse_rtranclp_into_rtranclp)
qed

text \<open>The child passes the counter on as a mask and goes over the empty entries above \<open>k\<close>.\<close>

lemma drain_begins:
  assumes "child s = Asleep v0" "mmap s ! 0 = c" "c \<noteq> 0" "length (mmap s) = MAX_ENTRIES"
    and "\<And>i. k < i \<Longrightarrow> i < MAX_ENTRIES \<Longrightarrow> mmap s ! i = 0" "k < MAX_ENTRIES"
  shows "quiet_step\<^sup>*\<^sup>* s (s\<lparr>sent := sent s @ [(MAX_ENTRIES, c)], child := Drain k 0\<rparr>)"
proof -
  let ?a = "s\<lparr>child := Drain MAX_ENTRIES c\<rparr>"
  let ?b = "s\<lparr>child := Forward MAX_ENTRIES c\<rparr>"
  let ?c = "s\<lparr>child := Clear MAX_ENTRIES, sent := sent s @ [(MAX_ENTRIES, c)]\<rparr>"
  let ?d = "s\<lparr>sent := sent s @ [(MAX_ENTRIES, c)], child := Drain (MAX_ENTRIES - 1) 0\<rparr>"
  have pos: "MAX_ENTRIES = Suc (MAX_ENTRIES - 1)" by (simp add: MAX_ENTRIES_def)
  have z: "lookup_into array_lookup (mmap s) 0 v0 = c"
    using lookup_entry(1) [OF assms(4), of 0 v0] assms(2) by (simp add: MAX_ENTRIES_def)
  have "quiet_step s ?a" using poll [OF assms(1) refl] z assms(3) by (simp add: MAX_CPU_ENTRIES)
  moreover have "quiet_step ?a ?b"
    using look [of ?a "MAX_ENTRIES - 1" c, OF _ refl] lookup_last(1) [OF assms(4), of c] assms(3) pos by simp
  moreover have "quiet_step ?b ?c" using forward [of ?b MAX_ENTRIES c] by simp
  moreover have "quiet_step ?c ?d"
    using clear [of ?c MAX_ENTRIES] lookup_last(2) [OF assms(4), of 0] by simp
  moreover have "quiet_step\<^sup>*\<^sup>* ?d (s\<lparr>sent := sent s @ [(MAX_ENTRIES, c)], child := Drain k 0\<rparr>)"
    using drain_zeros [of ?d "MAX_ENTRIES - 1 - k" k] assms(4-6) by (simp add: MAX_ENTRIES_def)
  ultimately show ?thesis by (meson converse_rtranclp_into_rtranclp)
qed

section \<open>Properties of the monitor\<close>

lemma recorded_nth:
  "length ms < MAX_ENTRIES \<Longrightarrow> i < MAX_ENTRIES \<Longrightarrow>
   recorded ms ! i = (if i = 0 then of_nat (length ms) else if i \<le> length ms then ms ! (i - 1) else 0)"
  by (auto simp: recorded_def nth_Cons' nth_append)

lemma prog1_recorded:
  "length ms < MAX_ENTRIES - 1 \<Longrightarrow> bpf_prog1 array_lookup array_update v (recorded ms) = recorded (ms @ [v])"
  using cpuindex.prog1_records [of "recorded ms" ms v] by (simp add: length_recorded MAX_ENTRIES_def)

text \<open>
  One call is recorded and the child has gone down to entry \<open>k\<close>; the states differ only in
  the fields shown.
\<close>

definition draining :: "u64 list \<Rightarrow> nat \<Rightarrow> monitor" where
  "draining vs k =
     \<lparr>race = \<lparr>rmap = recorded vs, pcs = (\<lambda>t. Finished)\<rparr>, child = Drain k 0, calls = vs, sent = [(MAX_ENTRIES, 1)]\<rparr>"

lemma reach_draining:
  assumes "0 < n" "0 < k" "k < MAX_ENTRIES"
  shows "(monitor_step n)\<^sup>*\<^sup>* monitor_start (draining [a] k)"
proof -
  let ?s = "monitor_start\<lparr>race := \<lparr>rmap = recorded [a], pcs = (\<lambda>t. Finished)\<rparr>, calls := [a]\<rparr>"
  have pos: "length [a] < MAX_ENTRIES" by (simp add: MAX_ENTRIES_def)
  have "(monitor_step n)\<^sup>*\<^sup>* monitor_start ?s"
    using call_alone [of 0 n monitor_start a] assms(1) prog1_recorded [of "[]" a]
    by (simp add: monitor_start_def recorded_Nil cpuindex_mask_maps_def MAX_ENTRIES_def)
  moreover have "quiet_step\<^sup>*\<^sup>* ?s (?s\<lparr>sent := sent ?s @ [(MAX_ENTRIES, 1)], child := Drain k 0\<rparr>)"
    using pos assms recorded_nth [OF pos]
    by (intro drain_begins [where ?v0.0 = 0]) (simp_all add: monitor_start_def length_recorded)
  ultimately show ?thesis
    using quiet_run by (fastforce simp: draining_def monitor_start_def intro: rtranclp_trans)
qed

lemma forward_entry:
  assumes "child s = Drain 1 0" "mmap s ! 1 = a" "a \<noteq> 0" "length (mmap s) = MAX_ENTRIES"
  shows "quiet_step\<^sup>*\<^sup>* s (set_map ((mmap s)[1 := 0]) (s\<lparr>sent := sent s @ [(1, a)]\<rparr>)\<lparr>child := Drain 0 0\<rparr>)"
proof -
  let ?a = "s\<lparr>child := Forward 1 a\<rparr>"
  let ?b = "s\<lparr>child := Clear 1, sent := sent s @ [(1, a)]\<rparr>"
  have one: "1 < MAX_ENTRIES" by (simp add: MAX_ENTRIES_def)
  have "quiet_step s ?a"
    using look [of s 0 0, OF _ refl] lookup_entry(1) [OF assms(4) one, of 0] assms(1-3) by simp
  moreover have "quiet_step ?a ?b" using forward [of ?a 1 a] by simp
  moreover have "quiet_step ?b (set_map ((mmap s)[1 := 0]) (s\<lparr>sent := sent s @ [(1, a)]\<rparr>)\<lparr>child := Drain 0 0\<rparr>)"
    using clear [of ?b 1] lookup_entry(2) [OF assms(4) one, of 0] by simp
  ultimately show ?thesis by (meson converse_rtranclp_into_rtranclp rtranclp.rtrancl_refl)
qed

text \<open>A call that comes after the child has passed the entry it gets.\<close>

definition stranded :: "u64 \<Rightarrow> u64 \<Rightarrow> monitor" where
  "stranded a b =
     \<lparr>race = \<lparr>rmap = [0, 0, b] @ replicate 61 0, pcs = (\<lambda>t. Finished)\<rparr>, child = Asleep 0,
      calls = [a, b], sent = [(MAX_ENTRIES, 1), (1, a)]\<rparr>"

lemma recorded_two: "recorded [a, b] = [2, a, b] @ replicate 61 0"
  by (simp add: recorded_def MAX_ENTRIES_def)

lemma reach_stranded:
  assumes "0 < n" "a \<noteq> 0"
  shows "(monitor_step n)\<^sup>*\<^sup>* monitor_start (stranded a b)"
proof -
  let ?s = "draining [a, b] 1"
  let ?t = "set_map ((mmap ?s)[1 := 0]) (?s\<lparr>sent := sent ?s @ [(1, a)]\<rparr>)\<lparr>child := Drain 0 0\<rparr>"
  have len: "length (recorded [a, b]) = MAX_ENTRIES" by (intro length_recorded) (simp add: MAX_ENTRIES_def)
  have "(monitor_step n)\<^sup>*\<^sup>* (draining [a] 1) ?s"
    using call_alone [of 0 n "draining [a] 1" b] assms(1) prog1_recorded [of "[a]" b]
      length_recorded [of "[a]"]
    by (simp add: draining_def MAX_ENTRIES_def)
  moreover have "quiet_step\<^sup>*\<^sup>* ?s ?t"
    using len assms(2) by (intro forward_entry) (simp_all add: draining_def recorded_two)
  moreover have "quiet_step ?t (stranded a b)"
    using reset [of ?t 0] by (simp add: draining_def stranded_def recorded_two array_update_def)
  ultimately show ?thesis
    using reach_draining [of n 1 a] assms(1) quiet_run [of ?s ?t n] quiet [of ?t "stranded a b" n]
    by (simp add: MAX_ENTRIES_def)
qed

lemma nothing_more:
  assumes "quiet_step\<^sup>*\<^sup>* s s'" "child s = Asleep 0" "mmap s ! 0 = 0" "0 < length (mmap s)"
    and "pcs (race s) = (\<lambda>t. Finished)"
  shows "s' = s"
  using assms
proof (induction rule: rtranclp_induct)
  case (step y z)
  then have y: "y = s" by simp
  from step(2) have "z = s" unfolding y
  proof cases
    case (poll v0 v)
    moreover have "s\<lparr>child := Asleep 0\<rparr> = s" using step.prems(1) by (cases s) simp
    ultimately show ?thesis using step.prems by (simp add: lookup_into_def array_lookup_def)
  qed (use step.prems in \<open>auto elim!: prog_step.cases\<close>)
  then show ?case .
qed simp

lemma monitor_reachable_inv: "(monitor_step n)\<^sup>*\<^sup>* monitor_start s \<Longrightarrow> monitor_inv n s"
proof (induction rule: rtranclp_induct)
  case base
  have "{i. 0 < i \<and> i < MAX_ENTRIES \<and> cpuindex_mask_maps ! i = v} = {}" if "v \<noteq> 0" for v
    using that by (auto simp: cpuindex_mask_maps_def)
  then show ?case
    by (simp add: monitor_inv_def monitor_start_def cpuindex_mask_maps_def whereabouts_def forwarded_def
        entries_def inflight_def)
qed (rule monitor_step_inv)

text \<open>C6.  Nothing is invented and nothing is passed on twice: for any number of CPUs and in every
  interleaving of guest calls, eBPF programs and the child, whatever the child passes on from
  an entry of the map (with its loop counter below 64) is a mask that guest applications asked
  for, and it is passed on at most as often as they did; it never passes on an empty mask.\<close>

theorem masks_forwarded_at_most_once:
  assumes "(monitor_step n)\<^sup>*\<^sup>* monitor_start s"
  shows "length (filter (\<lambda>(i, u). i < MAX_ENTRIES \<and> u = v) (sent s)) \<le> count_list (calls s) v \<and>
    (\<forall>(i, u) \<in> set (sent s). 0 < i \<and> i \<le> MAX_ENTRIES \<and> u \<noteq> 0 \<and> (i < MAX_ENTRIES \<longrightarrow> u \<in> set (calls s)))"
proof -
  have inv: "monitor_inv n s" by (rule monitor_reachable_inv [OF assms])
  then have nz: "\<forall>(i, u) \<in> set (sent s). 0 < i \<and> i \<le> MAX_ENTRIES \<and> u \<noteq> 0"
    by (simp add: monitor_inv_def MAX_CPU_ENTRIES)
  have le: "forwarded u (sent s) \<le> count_list (calls s) u" if "u \<noteq> 0" for u
    using inv that by (fastforce simp: monitor_inv_def whereabouts_def)
  have "forwarded 0 (sent s) = 0" using nz by (auto simp: forwarded_def filter_empty_conv)
  then have all: "forwarded u (sent s) \<le> count_list (calls s) u" for u
    using le [of u] by (cases "u = 0") simp_all
  have "u \<in> set (calls s)" if "(i, u) \<in> set (sent s)" "i < MAX_ENTRIES" for i u
  proof -
    have "forwarded u (sent s) \<noteq> 0" using that by (auto simp: forwarded_def filter_empty_conv)
    then have "count_list (calls s) u \<noteq> 0" using all [of u] by linarith
    then show ?thesis by (simp add: count_list_0_iff)
  qed
  then show ?thesis using all [of v] nz by (fastforce simp: forwarded_def)
qed

theorem masks_forwarded_at_most_once_witness:
  "\<exists>s. (monitor_step 1)\<^sup>*\<^sup>* monitor_start s \<and> calls s = [4, 8] \<and> sent s = [(64, 1), (1, 4)] \<and>
     length (filter (\<lambda>(i, u). i < MAX_ENTRIES \<and> u = 4) (sent s)) \<le> count_list (calls s) 4"
  using masks_forwarded_at_most_once [OF reach_stranded [of 1 4 8], of 4] reach_stranded [of 1 4 8]
  by (intro exI [of _ "stranded 4 8"]) (simp add: stranded_def MAX_ENTRIES_def)

text \<open>C7.  A mask can be left behind: when a call gets an entry that the child has passed in its
  current turn, the reset of the counter hides the entry.  The mask sits in the map, the
  application was answered, and as long as no other application calls, the child never passes
  it on, however long it polls.\<close>

theorem mask_left_behind:
  assumes "0 < n" "a \<noteq> 0" "b \<noteq> 0"
  shows "\<exists>s. (monitor_step n)\<^sup>*\<^sup>* monitor_start s \<and> calls s = [a, b] \<and> b \<in> set (mmap s) \<and>
    (\<forall>t. pcs (race s) t = Finished) \<and>
    (\<forall>s'. quiet_step\<^sup>*\<^sup>* s s' \<longrightarrow> sent s' = [(MAX_ENTRIES, 1), (1, a)] \<and> b \<in> set (mmap s'))"
proof -
  have "s' = stranded a b" if "quiet_step\<^sup>*\<^sup>* (stranded a b) s'" for s'
    by (rule nothing_more [OF that]) (simp_all add: stranded_def)
  moreover have "calls (stranded a b) = [a, b]" "b \<in> set (mmap (stranded a b))"
    "pcs (race (stranded a b)) t = Finished" "sent (stranded a b) = [(MAX_ENTRIES, 1), (1, a)]" for t
    by (simp_all add: stranded_def)
  ultimately show ?thesis using reach_stranded [OF assms(1,2), of b] by blast
qed

theorem mask_left_behind_witness:
  "\<exists>s. (monitor_step 2)\<^sup>*\<^sup>* monitor_start s \<and> calls s = [4, 8] \<and>
     (\<forall>s'. quiet_step\<^sup>*\<^sup>* s s' \<longrightarrow> sent s' = [(MAX_ENTRIES, 1), (1, 4)])"
  using mask_left_behind [of 2 4 8] by auto

text \<open>
  The reset also races with a program between its increment and the read of the counter: the
  program then stores its mask in entry 0, where it is taken for the counter.
\<close>

lemma reset_race_overwrites_count:
  assumes "0 < n" "a \<noteq> 0"
  shows "\<exists>s. (monitor_step n)\<^sup>*\<^sup>* monitor_start s \<and> calls s = [a, b] \<and> child s = Asleep 0 \<and>
    (\<forall>t. pcs (race s) t = Finished) \<and> mmap s = b # replicate 63 0"
proof -
  let ?s = "draining [a] 1"
  let ?t = "set_map ((mmap ?s)[1 := 0]) (?s\<lparr>sent := sent ?s @ [(1, a)]\<rparr>)\<lparr>child := Drain 0 0\<rparr>"
  let ?u = "?t\<lparr>race := goto (race ?t) 0 (Entered b), calls := [a, b]\<rparr>"
  let ?v = "?u\<lparr>race := fold run_cpu [0, 0] (race ?u)\<rparr>"
  let ?w = "set_map (array_update (mmap ?v) 0 0) (?v\<lparr>child := Asleep 0\<rparr>)"
  let ?x = "?w\<lparr>race := fold run_cpu [0, 0] (race ?w)\<rparr>"
  have r: "recorded [a] = [1, a] @ replicate 62 0" by (simp add: recorded_def MAX_ENTRIES_def)
  have z: "replicate 63 (0 :: u64) = 0 # replicate 62 0" by (simp add: numeral_eq_Suc)
  have "quiet_step\<^sup>*\<^sup>* ?s ?t"
    using assms(2) by (intro forward_entry) (simp_all add: draining_def r MAX_ENTRIES_def)
  moreover have "monitor_step n ?t ?u" using call [of 0 n ?t b] assms(1) by (simp add: draining_def)
  moreover have "quiet_step\<^sup>*\<^sup>* ?u ?v" "quiet_step\<^sup>*\<^sup>* ?w ?x" by (rule probe_run, rule schedule_steps)+
  moreover have "quiet_step ?v ?w" using reset [of ?v 0] by (simp add: draining_def)
  ultimately have "(monitor_step n)\<^sup>*\<^sup>* ?s ?x"
    by (meson quiet_run quiet rtranclp_trans converse_rtranclp_into_rtranclp)
  then have "(monitor_step n)\<^sup>*\<^sup>* monitor_start ?x"
    using reach_draining [of n 1 a] assms(1) by (simp add: MAX_ENTRIES_def)
  moreover have "mmap ?x = b # replicate 63 0 \<and> (\<forall>t. pcs (race ?x) t = Finished)"
    by (simp add: run_cpu_def goto_def draining_def r z array_update_def MAX_ENTRIES_def)
  moreover have "calls ?x = [a, b]" "child ?x = Asleep 0" by simp_all
  ultimately show ?thesis by (intro exI [of _ ?x]) simp
qed

end
