(* ===== verification/Huc_Copies.thy ===== *)
theory Huc_Copies
  imports Huc_Hostend
begin

text \<open>
  The program has no shared library: the host tools, the device, the driver and the daemon
  each carry their own copy of the message header and of some helpers.  This theory models
  the other copies and shows that they agree with the one the rest of the library uses:
  the six declarations of the message (numbers of the message types and layout of the
  structs in memory), the functions that build a message, and the helpers of the host tools.
\<close>

section \<open>Declarations of the message\<close>

text \<open>
  A struct as the list of its fields with their sizes; every field is an unsigned integer
  and aligned to its size, as in the ABI of the platform.
\<close>

type_synonym c_struct = "(string \<times> nat) list"

record msg_decl =
  md_types :: "(string \<times> u8) list"
  md_version :: u8
  md_header :: c_struct

definition align_up :: "nat \<Rightarrow> nat \<Rightarrow> nat" where
  "align_up n a = (n + a - 1) div a * a"

fun field_offsets :: "nat \<Rightarrow> c_struct \<Rightarrow> (string \<times> nat) list" where
  "field_offsets off [] = []"
| "field_offsets off ((f, sz) # fs) =
     (let off = align_up off sz in (f, off) # field_offsets (off + sz) fs)"

fun fields_end :: "nat \<Rightarrow> c_struct \<Rightarrow> nat" where
  "fields_end off [] = off"
| "fields_end off ((f, sz) # fs) = fields_end (align_up off sz + sz) fs"

definition struct_size :: "c_struct \<Rightarrow> nat" where
  "struct_size fs = align_up (fields_end 0 fs) (foldr (max \<circ> snd) fs 1)"

definition hostend_huc_decl :: msg_decl where
  "hostend_huc_decl =
     \<lparr>md_types = [(''PROGRAM_INJECTION'', 1), (''PROGRAM_INJECTION_RESULT'', 2),
        (''PROGRAM_INJECTION_AFFINITY'', 3), (''PROGRAM_INJECTION_AFFINITY_RESULT'', 4),
        (''SHUTDOWN_REQUEST'', 15), (''ERROR'', 16), (''RESET'', 17), (''PIN_ON_SAME'', 18),
        (''HT_REMAPPING'', 19)],
      md_version = 1, md_header = [(''version'', 1), (''type'', 1), (''payload_len'', 2)]\<rparr>"

definition hostend_bpf_decl :: msg_decl where
  "hostend_bpf_decl =
     \<lparr>md_types = [(''PROGRAM_INJECTION'', 1), (''PROGRAM_INJECTION_RESULT'', 2),
        (''PROGRAM_INJECTION_AFFINITY'', 3), (''PROGRAM_INJECTION_AFFINITY_RESULT'', 4),
        (''SHUTDOWN_REQUEST'', 15), (''ERROR'', 16), (''RESET'', 17), (''PIN_ON_SAME'', 18),
        (''HT_REMAPPING'', 19)],
      md_version = 1, md_header = [(''version'', 1), (''type'', 1), (''payload_len'', 2)]\<rparr>"

definition qemu_huc_decl :: msg_decl where
  "qemu_huc_decl =
     \<lparr>md_types = [(''PROGRAM_INJECTION'', 1), (''PROGRAM_INJECTION_RESULT'', 2),
        (''PROGRAM_INJECTION_AFFINITY'', 3), (''PROGRAM_INJECTION_AFFINITY_RESULT'', 4),
        (''SHUTDOWN_REQUEST'', 15), (''ERROR'', 16), (''RESET'', 17), (''PIN_ON_SAME'', 18),
        (''HT_REMAPPING'', 19)],
      md_version = 1, md_header = [(''version'', 1), (''type'', 1), (''payload_len'', 2)]\<rparr>"

definition qemu_bpf_decl :: msg_decl where
  "qemu_bpf_decl =
     \<lparr>md_types = [(''PROGRAM_INJECTION'', 1), (''PROGRAM_INJECTION_RESULT'', 2),
        (''PROGRAM_INJECTION_AFFINITY'', 3), (''PROGRAM_INJECTION_AFFINITY_RESULT'', 4),
        (''SHUTDOWN_REQUEST'', 15), (''ERROR'', 16), (''RESET'', 17), (''PIN_ON_SAME'', 18),
        (''HT_REMAPPING'', 19)],
      md_version = 1, md_header = [(''version'', 1), (''type'', 1), (''payload_len'', 2)]\<rparr>"

definition driver_huc_decl :: msg_decl where
  "driver_huc_decl =
     \<lparr>md_types = [(''PROGRAM_INJECTION'', 1), (''PROGRAM_INJECTION_RESULT'', 2),
        (''PROGRAM_INJECTION_AFFINITY'', 3), (''PROGRAM_INJECTION_AFFINITY_RESULT'', 4),
        (''SHUTDOWN_REQUEST'', 15), (''ERROR'', 16), (''RESET'', 17), (''PIN_ON_SAME'', 18),
        (''HT_REMAPPING'', 19)],
      md_version = 1, md_header = [(''version'', 1), (''type'', 1), (''payload_len'', 2)]\<rparr>"

definition guestend_bpf_decl :: msg_decl where
  "guestend_bpf_decl =
     \<lparr>md_types = [(''PROGRAM_INJECTION'', 1), (''PROGRAM_INJECTION_RESULT'', 2),
        (''PROGRAM_INJECTION_AFFINITY'', 3), (''PROGRAM_INJECTION_AFFINITY_RESULT'', 4),
        (''SHUTDOWN_REQUEST'', 15), (''ERROR'', 16), (''RESET'', 17), (''PIN_ON_SAME'', 18),
        (''HT_REMAPPING'', 19)],
      md_version = 1, md_header = [(''version'', 1), (''type'', 1), (''payload_len'', 2)]\<rparr>"

lemmas decl_defs = hostend_huc_decl_def hostend_bpf_decl_def qemu_huc_decl_def qemu_bpf_decl_def
  driver_huc_decl_def guestend_bpf_decl_def

text \<open>What a program compiled against a declaration reads from four bytes of a message.\<close>

definition field_value :: "msg_decl \<Rightarrow> string \<Rightarrow> mem \<Rightarrow> nat \<Rightarrow> bytes option" where
  "field_value decl f m base =
     (case (map_of (field_offsets 0 (md_header decl)) f, map_of (md_header decl) f) of
        (Some off, Some sz) \<Rightarrow> Some (mem_get m (base + off) sz)
      | _ \<Rightarrow> None)"

section \<open>Building a message\<close>

definition guestend_prepare_bpf_injection_message ::
    "bytes option \<Rightarrow> bool \<Rightarrow> nat \<Rightarrow> u16 \<Rightarrow> c_fault + bpf_injection_msg_t" where
  "guestend_prepare_bpf_injection_message file malloc_ok stream_ok junk =
     (let h = \<lparr>version = DEFAULT_VERSION, msg_type = PROGRAM_INJECTION, payload_len = junk\<rparr> in
      case file of
        None \<Rightarrow> Inr \<lparr>header = h, payload = PUninit\<rparr>
      | Some content \<Rightarrow>
          (let h = h\<lparr>payload_len := of_nat (length content)\<rparr>;
               len = fread_count content stream_ok (unat (payload_len h))
           in if \<not> malloc_ok \<and> 0 < len then Inl NullDeref
              else if len \<noteq> unat (payload_len h) then
                Inr \<lparr>header = h\<lparr>msg_type := MSG_ERROR\<rparr>, payload = PFreed\<rparr>
              else Inr \<lparr>header = h,
                        payload = (if malloc_ok then PBlock (take len content) else PNull)\<rparr>))"

definition qemu_prepare_bpf_injection_message ::
    "bytes option \<Rightarrow> bool \<Rightarrow> nat \<Rightarrow> u16 \<Rightarrow> c_fault + bpf_injection_msg_t" where
  "qemu_prepare_bpf_injection_message file malloc_ok stream_ok junk =
     (let h = \<lparr>version = DEFAULT_VERSION, msg_type = PROGRAM_INJECTION, payload_len = junk\<rparr> in
      case file of
        None \<Rightarrow> Inr \<lparr>header = h, payload = PUninit\<rparr>
      | Some content \<Rightarrow>
          (let h = h\<lparr>payload_len := of_nat (length content)\<rparr>;
               len = fread_count content stream_ok (unat (payload_len h))
           in if \<not> malloc_ok \<and> 0 < len then Inl NullDeref
              else if len \<noteq> unat (payload_len h) then
                Inr \<lparr>header = h\<lparr>msg_type := MSG_ERROR\<rparr>, payload = PFreed\<rparr>
              else Inr \<lparr>header = h,
                        payload = (if malloc_ok then PBlock (take len content) else PNull)\<rparr>))"

text \<open>The device's copy of the newer function, which its header compiles out.\<close>

definition qemu_prepare_huc_message :: "bytes option \<Rightarrow> bool \<Rightarrow> nat \<Rightarrow> u16 \<Rightarrow> huc_msg_t" where
  "qemu_prepare_huc_message file malloc_ok stream_ok junk =
     (let h = \<lparr>version = DEFAULT_VERSION, msg_type = PROGRAM_INJECTION, payload_len = junk\<rparr> in
      case file of
        None \<Rightarrow> \<lparr>header = h, payload = PUninit\<rparr>
      | Some content \<Rightarrow>
          (let h = h\<lparr>payload_len := of_nat (length content)\<rparr>;
               len = fread_count content stream_ok (unat (payload_len h))
           in if \<not> malloc_ok then \<lparr>header = h, payload = PNull\<rparr>
              else if len \<noteq> unat (payload_len h) then
                \<lparr>header = h\<lparr>msg_type := MSG_ERROR\<rparr>, payload = PFreed\<rparr>
              else \<lparr>header = h, payload = PBlock (take len content)\<rparr>))"

lemma qemu_prepare_agrees: "qemu_prepare_huc_message = prepare_huc_message"
  by (intro ext) (simp add: qemu_prepare_huc_message_def prepare_huc_message_def Let_def split: option.split)

lemma prepare_copies_agree:
  "guestend_prepare_bpf_injection_message = prepare_bpf_injection_message"
  "qemu_prepare_bpf_injection_message = prepare_bpf_injection_message"
  by (intro ext; simp add: guestend_prepare_bpf_injection_message_def
      qemu_prepare_bpf_injection_message_def prepare_bpf_injection_message_def Let_def
      split: option.split)+

section \<open>Helpers of the host tools\<close>

definition injectProgram_init_sockaddr :: "nat option \<Rightarrow> u16 \<Rightarrow> sockaddr_in option" where
  "injectProgram_init_sockaddr host port =
     map_option (\<lambda>h_addr. \<lparr>sin_port = htons port, sin_addr = h_addr\<rparr>) host"

definition pinonsame_init_sockaddr :: "nat option \<Rightarrow> u16 \<Rightarrow> sockaddr_in option" where
  "pinonsame_init_sockaddr host port =
     map_option (\<lambda>h_addr. \<lparr>sin_port = htons port, sin_addr = h_addr\<rparr>) host"

definition reset_init_sockaddr :: "nat option \<Rightarrow> u16 \<Rightarrow> sockaddr_in option" where
  "reset_init_sockaddr host port =
     map_option (\<lambda>h_addr. \<lparr>sin_port = htons port, sin_addr = h_addr\<rparr>) host"

definition pinonsame_saveToFile ::
    "(string \<rightharpoonup> bytes) \<Rightarrow> string \<Rightarrow> bytes \<Rightarrow> nat \<Rightarrow> bool \<Rightarrow> nat \<Rightarrow> int \<Rightarrow> nat \<Rightarrow> int \<times> (string \<rightharpoonup> bytes)" where
  "pinonsame_saveToFile fs path buf len fopen_ok written fclose_ret flushed =
     (if \<not> fopen_ok then (1, fs)
      else if written \<noteq> len \<or> fclose_ret \<noteq> 0 then (1, fs(path \<mapsto> take flushed buf))
      else (0, fs(path \<mapsto> take len buf)))"

definition reset_saveToFile ::
    "(string \<rightharpoonup> bytes) \<Rightarrow> string \<Rightarrow> bytes \<Rightarrow> nat \<Rightarrow> bool \<Rightarrow> nat \<Rightarrow> int \<Rightarrow> nat \<Rightarrow> int \<times> (string \<rightharpoonup> bytes)" where
  "reset_saveToFile fs path buf len fopen_ok written fclose_ret flushed =
     (if \<not> fopen_ok then (1, fs)
      else if written \<noteq> len \<or> fclose_ret \<noteq> 0 then (1, fs(path \<mapsto> take flushed buf))
      else (0, fs(path \<mapsto> take len buf)))"

definition pinonsame_send_bpf_injection_message :: "huc_msg_t \<Rightarrow> c_fault + host_event list" where
  "pinonsame_send_bpf_injection_message mymsg =
     rbind (Inr [SendBytes (header_bytes (header mymsg))]) (\<lambda>es.
     rbind (send_payload (payload mymsg) (unat (payload_len (header mymsg)))) (\<lambda>es'. Inr (es @ es')))"

definition reset_send_bpf_injection_message :: "huc_msg_t \<Rightarrow> c_fault + host_event list" where
  "reset_send_bpf_injection_message mymsg =
     rbind (Inr [SendBytes (header_bytes (header mymsg))]) (\<lambda>es.
     rbind (send_payload (payload mymsg) (unat (payload_len (header mymsg)))) (\<lambda>es'. Inr (es @ es')))"

lemma tool_copies_agree:
  "injectProgram_init_sockaddr = init_sockaddr" "pinonsame_init_sockaddr = init_sockaddr"
  "reset_init_sockaddr = init_sockaddr"
  "pinonsame_saveToFile = saveToFile" "reset_saveToFile = saveToFile"
  "pinonsame_send_bpf_injection_message = send_bpf_injection_message"
  "reset_send_bpf_injection_message = send_bpf_injection_message"
  by (intro ext; simp add: injectProgram_init_sockaddr_def pinonsame_init_sockaddr_def reset_init_sockaddr_def
      init_sockaddr_def map_option_case pinonsame_saveToFile_def reset_saveToFile_def saveToFile_def
      pinonsame_send_bpf_injection_message_def reset_send_bpf_injection_message_def
      send_bpf_injection_message_def)+

section \<open>Properties of the copies\<close>

text \<open>One message, six declarations: all copies of the header number the message types as
  the rest of the program does, and a program compiled against any of them finds the fields
  of a header at the same places of the four bytes another one has sent.\<close>

lemma declarations_agree:
  assumes "decl \<in> {hostend_huc_decl, hostend_bpf_decl, qemu_huc_decl, qemu_bpf_decl, driver_huc_decl,
      guestend_bpf_decl}"
  shows "map_of (md_types decl) ''PROGRAM_INJECTION'' = Some PROGRAM_INJECTION \<and>
    map_of (md_types decl) ''PROGRAM_INJECTION_AFFINITY'' = Some PROGRAM_INJECTION_AFFINITY \<and>
    map_of (md_types decl) ''ERROR'' = Some MSG_ERROR \<and> map_of (md_types decl) ''RESET'' = Some RESET \<and>
    map_of (md_types decl) ''PIN_ON_SAME'' = Some PIN_ON_SAME \<and>
    map_of (md_types decl) ''HT_REMAPPING'' = Some HT_REMAPPING \<and> md_version decl = DEFAULT_VERSION \<and>
    distinct (map snd (md_types decl)) \<and> struct_size (md_header decl) = length (header_bytes h) \<and>
    field_value decl ''version'' (mem_put m base (header_bytes h)) base = Some [version h] \<and>
    field_value decl ''type'' (mem_put m base (header_bytes h)) base = Some [msg_type h] \<and>
    field_value decl ''payload_len'' (mem_put m base (header_bytes h)) base = Some (le16 (payload_len h))"
proof -
  have eq: "decl = hostend_huc_decl" using assms by (auto simp: decl_defs)
  have "mem_get (mem_put m base (header_bytes h)) (base + 2) 2 = le16 (payload_len h)"
    by (simp add: mem_get_def header_bytes_def le16_def mem_put_nth upt_rec numeral_eq_Suc)
  moreover have "struct_size (md_header hostend_huc_decl) = 4" by code_simp
  then have "struct_size (md_header hostend_huc_decl) = length (header_bytes h)" by simp
  ultimately show ?thesis unfolding eq
    by (simp add: hostend_huc_decl_def msg_simps field_value_def align_up_def Let_def
        mem_get_def header_bytes_def mem_put_nth)
qed

text \<open>The two generations of the function that builds a message agree: the older one
  gives the same message as \<^verbatim>\<open>prepare_huc_message\<close> whenever the allocation succeeds or there
  is no file, and after a failed allocation they agree exactly for files without payload
  (a length that is a multiple of 65536); otherwise the older one faults or
  reports an error where the newer one goes on with a null payload.\<close>

lemma prepare_generations_agree_iff:
  "prepare_bpf_injection_message file malloc_ok stream_ok junk =
     Inr (prepare_huc_message file malloc_ok stream_ok junk) \<longleftrightarrow>
   malloc_ok \<or> file = None \<or> (\<exists>content. file = Some content \<and> length content mod 65536 = 0)"
proof (cases "file")
  case None
  then show ?thesis by (simp add: prepare_bpf_injection_message_def prepare_huc_message_def)
next
  case (Some content)
  have "unat (of_nat (length content) :: u16) = length content mod 65536" by (rule unat_len_mod)
  then show ?thesis
    using Some
    by (auto simp: prepare_bpf_injection_message_def prepare_huc_message_def Let_def fread_count_def)
qed

end
