(* ===== verification/Affinity_Test.thy ===== *)
theory Affinity_Test
  imports Huc_Prelude
begin

text \<open>
  The workloads of \<^verbatim>\<open>guestend/affinity_test\<close>: the CPU masks they pass to the scheduler, the
  memory they touch, and the threads that share a counter, as a step relation with one step
  per operation of a thread.
\<close>

section \<open>CPU sets of 64 bits\<close>

text \<open>
  \<^verbatim>\<open>SET_SIZE\<close> is 8 bytes, one word of the kernel.  \<^verbatim>\<open>CPU_SET_S\<close> converts its argument to an
  unsigned size and ignores a CPU outside the set.
\<close>

definition CPU_SET_S :: "int \<Rightarrow> u64 \<Rightarrow> u64" where
  "CPU_SET_S cpu cs = (if 0 \<le> cpu \<and> cpu < 64 then cs OR push_bit (nat cpu) 1 else cs)"

text \<open>
  \<^verbatim>\<open>setaffinity_thread_self\<close> and its variant: the mask passed to \<^verbatim>\<open>sched_setaffinity\<close>, whose
  result is \<open>sched_ret\<close>, and the value returned.
\<close>

definition setaffinity_thread_self :: "int \<Rightarrow> int \<Rightarrow> u64 \<times> int" where
  "setaffinity_thread_self cpu sched_ret = (CPU_SET_S cpu 0, if sched_ret = -1 then -1 else 0)"

definition setaffinity_allno0_thread_self :: "int \<Rightarrow> u64 \<times> int" where
  "setaffinity_allno0_thread_self sched_ret =
     (CPU_SET_S 3 (CPU_SET_S 2 (CPU_SET_S 1 0)), if sched_ret = -1 then -1 else 0)"

section \<open>Random accesses (complex.c)\<close>

definition N_THREADS :: nat where "N_THREADS = 4"
definition BUFFER_SIZE :: nat where "BUFFER_SIZE = 8 * 1024 * 1024"
definition LOOP_TIMES :: nat where "LOOP_TIMES = 0xFFFF"

text \<open>
  \<open>rnd p\<close> is the \<open>p\<close>-th value of \<^verbatim>\<open>rand\<close>.  The inner loop draws until the value is an index
  of the region; the result is that index and the position after it.
\<close>

partial_function (option) draw :: "(nat \<Rightarrow> nat) \<Rightarrow> nat \<Rightarrow> (nat \<times> nat) option" where
  "draw rnd p = (if rnd p < BUFFER_SIZE then Some (rnd p, Suc p) else draw rnd (Suc p))"

text \<open>What a thread does: yield the CPU, or add 1 to a byte of the region.\<close>

datatype access = Yield | Incr nat

fun work_loop :: "(nat \<Rightarrow> nat) \<Rightarrow> nat \<Rightarrow> nat \<Rightarrow> nat \<Rightarrow> access list option" where
  "work_loop rnd 0 i p = Some []"
| "work_loop rnd (Suc left) i p =
     (case draw rnd p of
        None \<Rightarrow> None
      | Some (index, p) \<Rightarrow>
          map_option (\<lambda>rest. (if i mod 50 = 0 then [Yield] else []) @ Incr index # rest)
            (work_loop rnd left (Suc i) p))"

text \<open>
  The thread: the mask it passes to the scheduler and its accesses; the region may be null,
  because the result of \<^verbatim>\<open>malloc\<close> is not checked.
\<close>

definition doSomething :: "int \<Rightarrow> int \<Rightarrow> bool \<Rightarrow> (nat \<Rightarrow> nat) \<Rightarrow> c_fault + u64 option \<times> access list" where
  "doSomething target_cpu sched_ret region_null rnd =
     (let m = (if 0 \<le> target_cpu then Some (fst (setaffinity_thread_self target_cpu sched_ret)) else None)
      in case work_loop rnd LOOP_TIMES 0 0 of
           None \<Rightarrow> Inl NoReturn
         | Some acc \<Rightarrow> if region_null then Inl NullDeref else Inr (m, acc))"

text \<open>
  \<^verbatim>\<open>main\<close>: the result and how many threads were started; \<open>create\<close> are the results of
  \<^verbatim>\<open>pthread_create\<close>, which are only reported.
\<close>

definition complex_main :: "int \<Rightarrow> int \<Rightarrow> (nat \<Rightarrow> int) \<Rightarrow> int \<times> nat list" where
  "complex_main argc mutex_ret create =
     (if argc \<noteq> 2 then (-1, [])
      else if mutex_ret \<noteq> 0 then (1, [])
      else (0, filter (\<lambda>i. create i = 0) [0..<N_THREADS]))"

section \<open>Work on zones (split\_thread\_test.c)\<close>

definition ZONE_SIZE :: nat where "ZONE_SIZE = 1024 * 1024"

text \<open>\<open>zone0\<close> is all zero; the first byte of the other seven is one.\<close>

definition zone_init :: "nat \<Rightarrow> bytes" where
  "zone_init t = (replicate ZONE_SIZE 0)[0 := (if t = 0 then 0 else 1)]"

definition split_mask :: "bytes \<Rightarrow> u64" where
  "split_mask zone =
     (if zone ! 0 = 0 then CPU_SET_S (sint (zone ! 0)) 0
      else CPU_SET_S 3 (CPU_SET_S 2 (CPU_SET_S 1 0)))"

definition zone_pass :: "bytes \<Rightarrow> bytes" where
  "zone_pass zone = fold (\<lambda>j z. z[j := z ! j + 1]) [0..<length zone] zone"

text \<open>
  The thread: the mask it passes on (only with \<open>split_load\<close> 1) and the zone afterwards.
  \<open>ret\<close> is the result of \<^verbatim>\<open>pthread_setaffinity_np\<close>, compared with -1.
\<close>

definition split_doSomeThing :: "int \<Rightarrow> int \<Rightarrow> bytes \<Rightarrow> u64 option \<times> bytes" where
  "split_doSomeThing split_load ret zone =
     (if split_load = 1 \<and> ret = -1 then (Some (split_mask zone), zone)
      else (if split_load = 1 then Some (split_mask zone) else None, (zone_pass ^^ 0xFF) zone))"

text \<open>
  \<^verbatim>\<open>main\<close>: the result, and what the threads do that could be created; \<open>ret t\<close> is the result of
  \<^verbatim>\<open>pthread_setaffinity_np\<close> in thread \<open>t\<close>.
\<close>

definition split_main :: "int \<Rightarrow> int \<Rightarrow> (nat \<Rightarrow> int) \<Rightarrow> (nat \<Rightarrow> int) \<Rightarrow> int \<times> (u64 option \<times> bytes) list" where
  "split_main argc split_load ret create =
     (if argc \<noteq> 2 then (-1, [])
      else (0, map (\<lambda>t. split_doSomeThing split_load (ret t) (zone_init t))
                 (filter (\<lambda>t. create t = 0) [0..<8])))"

section \<open>Shared counters\<close>

text \<open>
  \<^verbatim>\<open>affinity_test.c\<close>: every thread locks, adds atomically and unlocks; \<^verbatim>\<open>yield_affinity_test.c\<close>
  adds atomically without a lock.  The argument of a program point is the loop counter.
\<close>

datatype thread_pc = Loop nat | Crit nat | Added nat | Done

record counters =
  owner :: "nat option"
  counter :: u64
  thr :: "thread_pc list"

inductive locked_step :: "nat \<Rightarrow> counters \<Rightarrow> counters \<Rightarrow> bool" for lim where
  lock: "t < length (thr s) \<Longrightarrow> thr s ! t = Loop i \<Longrightarrow> i < lim \<Longrightarrow> owner s = None \<Longrightarrow>
    locked_step lim s (s\<lparr>owner := Some t, thr := (thr s)[t := Crit i]\<rparr>)"
| add: "t < length (thr s) \<Longrightarrow> thr s ! t = Crit i \<Longrightarrow>
    locked_step lim s (s\<lparr>counter := counter s + 1, thr := (thr s)[t := Added i]\<rparr>)"
| unlock: "t < length (thr s) \<Longrightarrow> thr s ! t = Added i \<Longrightarrow>
    locked_step lim s (s\<lparr>owner := None, thr := (thr s)[t := Loop (Suc i)]\<rparr>)"
| return_: "t < length (thr s) \<Longrightarrow> thr s ! t = Loop i \<Longrightarrow> \<not> i < lim \<Longrightarrow>
    locked_step lim s (s\<lparr>thr := (thr s)[t := Done]\<rparr>)"

inductive atomic_step :: "nat \<Rightarrow> counters \<Rightarrow> counters \<Rightarrow> bool" for lim where
  fetch_add: "t < length (thr s) \<Longrightarrow> thr s ! t = Loop i \<Longrightarrow> i < lim \<Longrightarrow>
    atomic_step lim s (s\<lparr>counter := counter s + 1, thr := (thr s)[t := Loop (Suc i)]\<rparr>)"
| atomic_return: "t < length (thr s) \<Longrightarrow> thr s ! t = Loop i \<Longrightarrow> \<not> i < lim \<Longrightarrow>
    atomic_step lim s (s\<lparr>thr := (thr s)[t := Done]\<rparr>)"

definition counters_start :: "nat \<Rightarrow> counters" where
  "counters_start n = \<lparr>owner = None, counter = 0, thr = replicate n (Loop 0)\<rparr>"

definition AFFINITY_LIMIT :: nat where "AFFINITY_LIMIT = 0xFFFFFF"
definition YIELD_LIMIT :: nat where "YIELD_LIMIT = 0xFFFF"
definition YIELD_THREADS :: nat where "YIELD_THREADS = 64"

text \<open>
  The two main programs: the result, the mask set for the process (inherited by the threads)
  and the threads started.
\<close>

definition affinity_main :: "int \<Rightarrow> int \<Rightarrow> int \<Rightarrow> int \<Rightarrow> (nat \<Rightarrow> int) \<Rightarrow> int \<times> u64 option \<times> nat list" where
  "affinity_main argc target_cpu sched_ret mutex_ret create =
     (if argc \<noteq> 2 then (-1, None, [])
      else
        let m = (if 0 \<le> target_cpu then Some (CPU_SET_S target_cpu 0) else None)
        in if 0 \<le> target_cpu \<and> sched_ret = -1 then (-1, m, [])
           else if mutex_ret \<noteq> 0 then (1, m, [])
           else (0, m, filter (\<lambda>i. create i = 0) [0..<4]))"

definition yield_main :: "int \<Rightarrow> int \<Rightarrow> int \<Rightarrow> (nat \<Rightarrow> int) \<Rightarrow> int \<times> u64 option \<times> nat list" where
  "yield_main argc target_cpu sched_ret create =
     (if argc \<noteq> 2 then (-1, None, [])
      else
        let m = (if 0 \<le> target_cpu then Some (CPU_SET_S target_cpu 0) else None)
        in if 0 \<le> target_cpu \<and> sched_ret = -1 then (-1, m, [])
           else (0, m, filter (\<lambda>i. create i = 0) [0..<YIELD_THREADS]))"

section \<open>Masks\<close>

lemma CPU_SET_S_selects:
  "CPU_SET_S cpu 0 = (if 0 \<le> cpu \<and> cpu < 64 then 2 ^ nat cpu else 0)"
  by (simp add: CPU_SET_S_def)

lemma split_masks:
  "split_mask (zone_init t) = (if t = 0 then 1 else 0b1110)"
proof -
  have "0 < ZONE_SIZE" by (simp add: ZONE_SIZE_def)
  then have "zone_init t ! 0 = (if t = 0 then 0 else 1)" by (simp add: zone_init_def)
  then show ?thesis by (cases "t = 0") (simp_all add: split_mask_def CPU_SET_S_def)
qed

section \<open>Accesses of a thread\<close>

lemma draw_returns:
  assumes "p \<le> q" "rnd q < BUFFER_SIZE"
  shows "\<exists>i p'. draw rnd p = Some (i, p') \<and> i < BUFFER_SIZE"
  using assms
proof (induction "q - p" arbitrary: p)
  case 0
  then show ?case by (subst draw.simps) simp
next
  case (Suc d)
  then show ?case by (subst draw.simps) (cases "rnd p < BUFFER_SIZE", auto)
qed

fun in_region :: "access \<Rightarrow> bool" where
  "in_region Yield = True"
| "in_region (Incr i) = (i < BUFFER_SIZE)"

lemma work_loop_accesses:
  assumes "\<And>p. \<exists>q\<ge>p. rnd q < BUFFER_SIZE"
  shows "\<exists>acc. work_loop rnd left i p = Some acc \<and> list_all in_region acc \<and>
    length (filter (\<lambda>a. a \<noteq> Yield) acc) = left \<and>
    length (filter (\<lambda>a. a = Yield) acc) = length (filter (\<lambda>j. j mod 50 = 0) [i..<i + left])"
proof (induction left arbitrary: i p)
  case (Suc left)
  obtain q where "p \<le> q" "rnd q < BUFFER_SIZE" using assms by blast
  then obtain x p' where d: "draw rnd p = Some (x, p')" "x < BUFFER_SIZE"
    using draw_returns by blast
  obtain acc where "work_loop rnd left (Suc i) p' = Some acc" "list_all in_region acc"
    "length (filter (\<lambda>a. a \<noteq> Yield) acc) = left"
    "length (filter (\<lambda>a. a = Yield) acc) = length (filter (\<lambda>j. j mod 50 = 0) [Suc i..<Suc i + left])"
    using Suc by blast
  moreover have "[i..<i + Suc left] = i # [Suc i..<Suc i + left]" by (simp add: upt_conv_Cons)
  ultimately show ?case using d by simp
qed simp

lemma yields_below: "length (filter (\<lambda>j. j mod 50 = 0) [0..<n]) = (n + 49) div 50"
proof (induction n)
  case (Suc n)
  have "Suc (n + 49) div 50 = (if n mod 50 = 0 then Suc ((n + 49) div 50) else (n + 49) div 50)"
  proof -
    have "Suc (n + 49) mod 50 = n mod 50" using mod_add_self2 [of n 50] by (simp only: add_Suc_right [symmetric]) simp
    then show ?thesis by (simp only: div_Suc [of "n + 49"])
  qed
  with Suc show ?case by simp
qed simp

section \<open>Zones\<close>

lemma zone_pass_eq: "zone_pass zone = map (\<lambda>b. b + 1) zone"
proof -
  have "n \<le> length zone \<Longrightarrow> fold (\<lambda>j z. z[j := z ! j + 1]) [0..<n] zone = map (\<lambda>b. b + 1) (take n zone) @ drop n zone" for n
  proof (induction n)
    case (Suc n)
    then have "drop n zone = zone ! n # drop (Suc n) zone" by (intro Cons_nth_drop_Suc [symmetric]) simp
    with Suc show ?case by (simp add: nth_append take_Suc_conv_app_nth list_update_append)
  qed simp
  from this [of "length zone"] show ?thesis by (simp add: zone_pass_def)
qed

lemma zone_passes: "(zone_pass ^^ n) zone = map (\<lambda>b. b + of_nat n) zone"
  by (induction n) (simp_all add: zone_pass_eq comp_def algebra_simps)

section \<open>The locked counter\<close>

text \<open>Additions a thread has made, and steps it still has to make.\<close>

fun adds :: "nat \<Rightarrow> thread_pc \<Rightarrow> nat" where
  "adds lim (Loop i) = i"
| "adds lim (Crit i) = i"
| "adds lim (Added i) = Suc i"
| "adds lim Done = lim"

fun todo :: "nat \<Rightarrow> thread_pc \<Rightarrow> nat" where
  "todo lim (Loop i) = Suc (3 * (lim - i))"
| "todo lim (Crit i) = 3 * (lim - i)"
| "todo lim (Added i) = 3 * (lim - i) - 1"
| "todo lim Done = 0"

fun pc_ok :: "nat \<Rightarrow> thread_pc \<Rightarrow> bool" where
  "pc_ok lim (Loop i) = (i \<le> lim)"
| "pc_ok lim (Crit i) = (i < lim)"
| "pc_ok lim (Added i) = (i < lim)"
| "pc_ok lim Done = True"

fun holds :: "thread_pc \<Rightarrow> bool" where
  "holds (Crit i) = True"
| "holds (Added i) = True"
| "holds _ = False"

definition tally :: "('a \<Rightarrow> nat) \<Rightarrow> 'a list \<Rightarrow> nat" where
  "tally f xs = (\<Sum>x\<leftarrow>xs. f x)"

lemma tally_update: "t < length xs \<Longrightarrow> tally f (xs[t := x]) + f (xs ! t) = tally f xs + f x"
  by (induction xs arbitrary: t) (auto simp: tally_def split: nat.split)

lemma tally_const: "(\<And>x. x \<in> set xs \<Longrightarrow> f x = c) \<Longrightarrow> tally f xs = length xs * c"
  by (induction xs) (auto simp: tally_def)

lemma tally_replicate: "tally f (replicate n x) = n * f x"
  by (subst tally_const [where c = "f x"]) auto

definition counters_inv :: "nat \<Rightarrow> counters \<Rightarrow> bool" where
  "counters_inv lim s \<longleftrightarrow>
     counter s = of_nat (tally (adds lim) (thr s)) \<and>
     (\<forall>t<length (thr s). pc_ok lim (thr s ! t) \<and> (holds (thr s ! t) \<longleftrightarrow> owner s = Some t)) \<and>
     (\<forall>t. owner s = Some t \<longrightarrow> t < length (thr s))"

lemma of_nat_tally_update:
  assumes "t < length xs" "f x = f (xs ! t) + d"
  shows "of_nat (tally f (xs[t := x])) = (of_nat (tally f xs) + of_nat d :: 'a :: ring_1)"
proof -
  have "tally f (xs[t := x]) = tally f xs + d" using tally_update [OF assms(1), of f x] assms(2) by simp
  then show ?thesis by simp
qed

lemma locked_step_inv:
  assumes "locked_step lim s s'" "counters_inv lim s"
  shows "counters_inv lim s'" "length (thr s') = length (thr s)"
    "tally (todo lim) (thr s) = Suc (tally (todo lim) (thr s'))"
proof -
  show "length (thr s') = length (thr s)" using assms(1) by (auto elim!: locked_step.cases)
  show "counters_inv lim s'" using assms
  proof (induction rule: locked_step.induct)
    case (lock t s i)
    have "of_nat (tally (adds lim) ((thr s)[t := Crit i])) = (of_nat (tally (adds lim) (thr s)) + of_nat 0 :: u64)"
      using lock by (intro of_nat_tally_update) simp_all
    with lock show ?case by (auto simp: counters_inv_def nth_list_update)
  next
    case (add t s i)
    have "of_nat (tally (adds lim) ((thr s)[t := Added i])) = (of_nat (tally (adds lim) (thr s)) + of_nat 1 :: u64)"
      using add by (intro of_nat_tally_update) simp_all
    with add show ?case by (fastforce simp: counters_inv_def nth_list_update)
  next
    case (unlock t s i)
    have "of_nat (tally (adds lim) ((thr s)[t := Loop (Suc i)])) = (of_nat (tally (adds lim) (thr s)) + of_nat 0 :: u64)"
      using unlock by (intro of_nat_tally_update) simp_all
    moreover have "owner s = Some t" "i < lim" using unlock by (auto simp: counters_inv_def)
    ultimately show ?case using unlock by (auto simp: counters_inv_def nth_list_update)
  next
    case (return_ t s i)
    then have "i = lim" by (force simp: counters_inv_def)
    then have "of_nat (tally (adds lim) ((thr s)[t := Done])) = (of_nat (tally (adds lim) (thr s)) + of_nat 0 :: u64)"
      using return_ by (intro of_nat_tally_update) simp_all
    moreover have "owner s \<noteq> Some t" using return_ by (force simp: counters_inv_def)
    ultimately show ?case using return_ by (auto simp: counters_inv_def nth_list_update)
  qed
  have drop: "tally (todo lim) (thr s) = Suc (tally (todo lim) ((thr s)[t := x]))"
    if "t < length (thr s)" "todo lim (thr s ! t) = Suc (todo lim x)" for t x
    using tally_update [OF that(1), of "todo lim" x] that(2) by simp
  show "tally (todo lim) (thr s) = Suc (tally (todo lim) (thr s'))"
    using assms
  proof (induction rule: locked_step.cases)
    case (unlock t s i)
    then have "pc_ok lim (thr s ! t)" unfolding counters_inv_def by blast
    then show ?case using unlock drop [of t "Loop (Suc i)"] by auto
  next
    case (add t s i)
    then have "pc_ok lim (thr s ! t)" unfolding counters_inv_def by blast
    then show ?case using add drop [of t "Added i"] by auto
  next
    case (lock t s i)
    then show ?case using drop [of t "Crit i"] by auto
  next
    case (return_ t s i)
    then show ?case using drop [of t Done] by auto
  qed
qed

lemma locked_progress:
  assumes "counters_inv lim s" "t < length (thr s)" "thr s ! t \<noteq> Done"
  shows "\<exists>s'. locked_step lim s s'"
proof (cases "owner s")
  case (Some u)
  then have "u < length (thr s)" "holds (thr s ! u)" using assms(1) by (auto simp: counters_inv_def)
  then show ?thesis by (cases "thr s ! u") (auto intro: locked_step.add locked_step.unlock)
next
  case None
  then have "\<not> holds (thr s ! t)" using assms by (auto simp: counters_inv_def)
  then show ?thesis using assms None
    by (cases "thr s ! t") (auto intro: locked_step.lock locked_step.return_)
qed

lemma locked_run:
  assumes "(locked_step lim ^^ n) (counters_start k) s"
  shows "counters_inv lim s \<and> length (thr s) = k \<and> n + tally (todo lim) (thr s) = k * Suc (3 * lim)"
  using assms
proof (induction n arbitrary: s)
  case 0
  then show ?case
    by (auto simp: counters_start_def counters_inv_def tally_replicate)
next
  case (Suc n)
  then obtain s' where s': "(locked_step lim ^^ n) (counters_start k) s'" "locked_step lim s' s" by auto
  show ?case using Suc.IH [OF s'(1)] locked_step_inv [OF s'(2)] by auto
qed

lemma all_done_iff: "tally (todo lim) xs = 0 \<longleftrightarrow> (\<forall>x \<in> set xs. todo lim x = 0)"
  by (induction xs) (auto simp: tally_def)

section \<open>The counter without a lock\<close>

definition atomic_inv :: "nat \<Rightarrow> counters \<Rightarrow> bool" where
  "atomic_inv lim s \<longleftrightarrow>
     counter s = of_nat (tally (adds lim) (thr s)) \<and>
     (\<forall>t<length (thr s). pc_ok lim (thr s ! t) \<and> \<not> holds (thr s ! t))"

lemma atomic_step_inv:
  assumes "atomic_step lim s s'" "atomic_inv lim s"
  shows "atomic_inv lim s'" "length (thr s') = length (thr s)"
  using assms
proof (induction rule: atomic_step.induct)
  case (fetch_add t s i)
  {
    case 1
    have "of_nat (tally (adds lim) ((thr s)[t := Loop (Suc i)])) = (of_nat (tally (adds lim) (thr s)) + of_nat 1 :: u64)"
      using fetch_add by (intro of_nat_tally_update) simp_all
    with 1 fetch_add show ?case by (auto simp: atomic_inv_def nth_list_update)
  next
    case 2
    then show ?case by simp
  }
next
  case (atomic_return t s i)
  {
    case 1
    then have "i = lim" using atomic_return by (force simp: atomic_inv_def)
    then have "of_nat (tally (adds lim) ((thr s)[t := Done])) = (of_nat (tally (adds lim) (thr s)) + of_nat 0 :: u64)"
      using atomic_return by (intro of_nat_tally_update) simp_all
    with 1 atomic_return show ?case by (auto simp: atomic_inv_def nth_list_update)
  next
    case 2
    then show ?case by simp
  }
qed

lemma atomic_reachable:
  assumes "(atomic_step lim)\<^sup>*\<^sup>* (counters_start k) s"
  shows "atomic_inv lim s \<and> length (thr s) = k"
  using assms
proof (induction rule: rtranclp_induct)
  case base
  then show ?case by (auto simp: counters_start_def atomic_inv_def tally_replicate)
next
  case (step s s')
  then show ?case using atomic_step_inv by auto
qed

lemma all_done_tally: "(\<forall>x \<in> set (thr s). x = Done) \<Longrightarrow> tally (adds lim) (thr s) = length (thr s) * lim"
  by (rule tally_const) auto

section \<open>Properties\<close>

text \<open>C22.  The four threads of \<^verbatim>\<open>affinity_test.c\<close> in every interleaving: at most one thread is
  between lock and unlock, no state in which a thread is still running is a deadlock, every
  run ends after exactly the same number of steps, and when all threads have returned the
  counter is the number of threads times the number of rounds, modulo 2^64.\<close>

theorem locked_counter_exact:
  assumes "(locked_step lim ^^ n) (counters_start k) s"
  shows "(\<forall>t u. t < k \<and> u < k \<and> holds (thr s ! t) \<and> holds (thr s ! u) \<longrightarrow> t = u) \<and>
         n \<le> k * Suc (3 * lim) \<and> (n = k * Suc (3 * lim) \<longleftrightarrow> (\<forall>x \<in> set (thr s). x = Done)) \<and>
         ((\<exists>x \<in> set (thr s). x \<noteq> Done) \<longrightarrow> (\<exists>s'. locked_step lim s s')) \<and>
         ((\<forall>x \<in> set (thr s). x = Done) \<longrightarrow> counter s = of_nat (k * lim))"
proof -
  have inv: "counters_inv lim s" "length (thr s) = k" and n: "n + tally (todo lim) (thr s) = k * Suc (3 * lim)"
    using locked_run [OF assms] by auto
  have "todo lim x = 0 \<longleftrightarrow> x = Done" if x: "x \<in> set (thr s)" for x
  proof -
    have "pc_ok lim x" using x inv(1) by (auto simp: counters_inv_def in_set_conv_nth)
    then show ?thesis by (cases x) auto
  qed
  then have "tally (todo lim) (thr s) = 0 \<longleftrightarrow> (\<forall>x \<in> set (thr s). x = Done)"
    by (auto simp: all_done_iff)
  then have "n = k * Suc (3 * lim) \<longleftrightarrow> (\<forall>x \<in> set (thr s). x = Done)" using n by linarith
  moreover have "\<exists>s'. locked_step lim s s'" if "\<exists>x \<in> set (thr s). x \<noteq> Done"
    using that locked_progress [OF inv(1)] by (auto simp: in_set_conv_nth)
  moreover have "t = u" if "t < k" "u < k" "holds (thr s ! t)" "holds (thr s ! u)" for t u
    using that inv by (metis counters_inv_def option.inject)
  moreover have "counter s = of_nat (k * lim)" if "\<forall>x \<in> set (thr s). x = Done"
  proof -
    have "tally (adds lim) (thr s) = k * lim" using all_done_tally [OF that] inv(2) by simp
    then show ?thesis using inv(1) by (simp add: counters_inv_def)
  qed
  ultimately show ?thesis using n by (intro conjI) (blast, linarith, blast, blast, blast)
qed

theorem locked_counter_exact_witness:
  "\<exists>s. (locked_step AFFINITY_LIMIT ^^ 0) (counters_start 4) s \<and> (\<exists>s'. locked_step AFFINITY_LIMIT s s')"
proof -
  have s: "(locked_step AFFINITY_LIMIT ^^ 0) (counters_start 4) (counters_start 4)" by simp
  have "thr (counters_start 4) = replicate 4 (Loop 0)" by (simp add: counters_start_def)
  then have "\<exists>x \<in> set (thr (counters_start 4)). x \<noteq> Done" by simp
  with locked_counter_exact [OF s] s show ?thesis by blast
qed

text \<open>A thread of \<^verbatim>\<open>complex.c\<close> returns whenever \<^verbatim>\<open>rand\<close> keeps giving values below 8 MiB from
  time to time: it makes exactly 65535 accesses, all inside the region, and yields 1311
  times, and the mask it sets holds its target CPU and nothing else, which for a CPU from 64
  on is the empty set.\<close>

lemma complex_thread_accesses:
  assumes "\<And>p. \<exists>q\<ge>p. rnd q < BUFFER_SIZE"
  shows "\<exists>acc. doSomething target_cpu sched_ret False rnd =
      Inr (if 0 \<le> target_cpu then Some (if target_cpu < 64 then 2 ^ nat target_cpu else 0) else None, acc) \<and>
    list_all in_region acc \<and> length (filter (\<lambda>a. a \<noteq> Yield) acc) = 65535 \<and>
    length (filter (\<lambda>a. a = Yield) acc) = 1311"
proof -
  obtain acc where acc: "work_loop rnd LOOP_TIMES 0 0 = Some acc" "list_all in_region acc"
    "length (filter (\<lambda>a. a \<noteq> Yield) acc) = LOOP_TIMES"
    "length (filter (\<lambda>a. a = Yield) acc) = length (filter (\<lambda>j. j mod 50 = 0) [0..<LOOP_TIMES])"
    using work_loop_accesses [of rnd LOOP_TIMES 0 0, OF assms] by auto
  have "length (filter (\<lambda>a. a = Yield) acc) = 1311"
    unfolding acc(4) yields_below by (simp add: LOOP_TIMES_def)
  moreover have "length (filter (\<lambda>a. a \<noteq> Yield) acc) = 65535"
    unfolding acc(3) by (simp add: LOOP_TIMES_def)
  ultimately show ?thesis
    using acc(1,2) by (intro exI [of _ acc])
      (simp add: doSomething_def setaffinity_thread_self_def CPU_SET_S_selects Let_def)
qed

text \<open>
  A failure of \<^verbatim>\<open>pthread_setaffinity_np\<close>, which is reported as a positive error number, is not
  noticed: the thread works on its zone all the same, and leaves every byte one less, since 255
  increments are added to it.
\<close>

lemma split_thread_zone:
  "0 \<le> ret \<Longrightarrow> split_doSomeThing 1 ret (zone_init t) = (Some (if t = 0 then 1 else 0b1110), map (\<lambda>b. b - 1) (zone_init t))"
  by (simp add: split_doSomeThing_def split_masks zone_passes)

text \<open>
  The whole programs: however many threads could be created, a run that ends leaves the
  counter at that number times the rounds, with all threads on the target CPU if one is given
  (on an empty set when it is 64 or more).
\<close>

definition target_mask :: "int \<Rightarrow> u64 option" where
  "target_mask cpu = (if 0 \<le> cpu then Some (if cpu < 64 then 2 ^ nat cpu else 0) else None)"

lemma affinity_program_total:
  assumes "affinity_main argc target_cpu sched_ret mutex_ret create = (0, m, ts)"
    and "(locked_step AFFINITY_LIMIT)\<^sup>*\<^sup>* (counters_start (length ts)) s" "\<forall>x \<in> set (thr s). x = Done"
  shows "counter s = of_nat (length ts) * 0xFFFFFF" "length ts \<le> 4" "m = target_mask target_cpu"
proof -
  obtain n where "(locked_step AFFINITY_LIMIT ^^ n) (counters_start (length ts)) s"
    using assms(2) by (auto simp: rtranclp_power)
  then show "counter s = of_nat (length ts) * 0xFFFFFF"
    using locked_run all_done_tally [OF assms(3), of AFFINITY_LIMIT]
    by (fastforce simp: counters_inv_def AFFINITY_LIMIT_def)
  show "length ts \<le> 4" "m = target_mask target_cpu"
    using assms(1) length_filter_le [of "\<lambda>i. create i = 0" "[0..<4]"]
    by (auto simp: affinity_main_def target_mask_def CPU_SET_S_selects Let_def split: if_splits)
qed

lemma yield_program_total:
  assumes "yield_main argc target_cpu sched_ret create = (0, m, ts)"
    and "(atomic_step YIELD_LIMIT)\<^sup>*\<^sup>* (counters_start (length ts)) s" "\<forall>x \<in> set (thr s). x = Done"
  shows "counter s = of_nat (length ts) * 0xFFFF" "length ts \<le> 64" "m = target_mask target_cpu"
proof -
  show "counter s = of_nat (length ts) * 0xFFFF"
    using atomic_reachable [OF assms(2)] all_done_tally [OF assms(3), of YIELD_LIMIT]
    by (simp add: atomic_inv_def YIELD_LIMIT_def)
  show "length ts \<le> 64" "m = target_mask target_cpu"
    using assms(1) length_filter_le [of "\<lambda>i. create i = 0" "[0..<YIELD_THREADS]"]
    by (auto simp: yield_main_def target_mask_def CPU_SET_S_selects Let_def YIELD_THREADS_def split: if_splits)
qed

text \<open>
  With \<open>split_load\<close> 1 the thread of the first zone goes to CPU 0 and the seven others share
  CPUs 1 to 3, the set that \<^verbatim>\<open>setaffinity_allno0_thread_self\<close> builds.
\<close>

lemma split_program_masks:
  assumes "\<And>t. 0 \<le> ret t" "\<And>t. create t = 0"
  shows "map fst (snd (split_main 2 1 ret create)) =
    Some 1 # replicate 7 (Some (fst (setaffinity_allno0_thread_self 0)))"
proof -
  have "fst (setaffinity_allno0_thread_self 0) = 0b1110"
    by (simp add: setaffinity_allno0_thread_self_def CPU_SET_S_def)
  then show ?thesis
    using assms by (simp add: split_main_def split_thread_zone upt_rec numeral_eq_Suc)
qed

end
