(* ===== verification/Hucdev_Remap.thy ===== *)
theory Hucdev_Remap
  imports Hucdev Affinity_Test
begin

text \<open>
  The remapping of hyperthreads of \<^verbatim>\<open>qemu-patch/hucdev.c\<close>: the function \<^verbatim>\<open>map_hyperthread\<close> and
  its switch, the message \<^verbatim>\<open>HT_REMAPPING\<close>.  In this version of the device the function and
  its call are disabled (\<^verbatim>\<open>#if 0\<close>), so the switch has no effect on the masks.
\<close>

section \<open>The function\<close>

text \<open>The loop counts the CPUs of the set and remembers the last one.\<close>

definition scan_set :: "u64 \<Rightarrow> nat \<times> nat option" where
  "scan_set cset =
     fold (\<lambda>i (setCount, settedCpu). if CPU_ISSET_S i cset then (setCount + 1, Some i) else (setCount, settedCpu))
       [0..<MAX_CPU] (0, None)"

definition remapped_cpu :: "int \<Rightarrow> int \<Rightarrow> int" where
  "remapped_cpu nprocs settedCpu =
     (if settedCpu mod 2 = 0 then settedCpu div 2 else nprocs div 2 + settedCpu div 2)"

text \<open>\<open>nprocs\<close> is the result of \<^verbatim>\<open>get_nprocs\<close>; the result is the returned number and the set.\<close>

definition map_hyperthread :: "int \<Rightarrow> u64 \<Rightarrow> int \<times> u64" where
  "map_hyperthread nprocs cset =
     (case scan_set cset of
        (setCount, Some settedCpu) \<Rightarrow>
          if setCount = 1 then
            (let remappedCpu = remapped_cpu nprocs (int settedCpu)
             in (remappedCpu, CPU_SET_S remappedCpu 0))
          else (-1, cset)
      | (setCount, None) \<Rightarrow> (-1, cset))"

section \<open>What it computes\<close>

lemma fold_scan:
  "fold (\<lambda>i (n, l). if P i then (n + 1, Some i) else (n, l)) xs (n, l) =
     (n + length (filter P xs), if filter P xs = [] then l else Some (last (filter P xs)))"
  by (induction xs arbitrary: n l) auto

lemma scan_set_eq:
  "scan_set cset = (let js = filter (\<lambda>i. bit cset i) [0..<64] in
     (length js, if js = [] then None else Some (last js)))"
proof -
  have "filter (\<lambda>i. CPU_ISSET_S i cset) [0..<MAX_CPU] = filter (\<lambda>i. bit cset i) [0..<64]"
    by (rule filter_cong) (auto simp: MAX_CPU_def CPU_ISSET_S_def SET_SIZE_def)
  then show ?thesis unfolding scan_set_def by (simp add: fold_scan Let_def)
qed

lemma filter_single: "filter (\<lambda>i. i = c) [0..<n] = (if c < n then [c] else [])"
  by (induction n) auto

lemma scan_single: "c < 64 \<Longrightarrow> scan_set (push_bit c 1) = (1, Some c)"
proof -
  assume c: "c < 64"
  have "filter (\<lambda>i. bit (push_bit c 1 :: u64) i) [0..<64] = filter (\<lambda>i. i = c) [0..<64]"
    using c by (intro filter_cong) (auto simp: bit_exp_iff)
  also have "\<dots> = [c]" using c by (simp add: filter_single)
  finally show ?thesis by (simp add: scan_set_eq)
qed

lemma map_single:
  assumes "c < 64"
  shows "map_hyperthread nprocs (push_bit c 1) =
    (remapped_cpu nprocs (int c), CPU_SET_S (remapped_cpu nprocs (int c)) 0)"
  using scan_single [OF assms] by (simp add: map_hyperthread_def Let_def)

lemma map_not_single:
  assumes "length (filter (\<lambda>i. bit cset i) [0..<64]) \<noteq> 1"
  shows "map_hyperthread nprocs cset = (-1, cset)"
  using assms by (simp add: map_hyperthread_def scan_set_eq Let_def)

lemma remapped_less:
  assumes "even n" "c < n"
  shows "0 \<le> remapped_cpu (int n) (int c)" "remapped_cpu (int n) (int c) < int n"
proof -
  show "0 \<le> remapped_cpu (int n) (int c)" by (simp add: remapped_cpu_def)
  obtain m where "n = 2 * m" using assms(1) by blast
  then show "remapped_cpu (int n) (int c) < int n"
    using assms(2) unfolding remapped_cpu_def by (auto split: if_splits)
qed

lemma remapped_inj:
  assumes "even n" "c < n" "c' < n" "remapped_cpu (int n) (int c) = remapped_cpu (int n) (int c')"
  shows "c = c'"
proof -
  obtain m where "n = 2 * m" using assms(1) by blast
  then have "int n div 2 = int m" by simp
  then show ?thesis
    using assms(2-4) \<open>n = 2 * m\<close> unfolding remapped_cpu_def by (simp split: if_splits; presburger)
qed

lemma remapped_collision:
  assumes "odd n" "n \<noteq> 1"
  shows "remapped_cpu (int n) 1 = remapped_cpu (int n) (int (n - 1))" "1 \<noteq> n - 1" "1 < n"
proof -
  obtain m where m: "n = 2 * m + 1" using assms(1) by (rule oddE)
  then have "0 < m" using assms(2) by (cases m) auto
  then show "1 \<noteq> n - 1" "1 < n" using m by simp_all
  show "remapped_cpu (int n) 1 = remapped_cpu (int n) (int (n - 1))"
    using m by (simp add: remapped_cpu_def)
qed

text \<open>The remapping of hyperthreads: a set of one CPU becomes the set of one CPU, any other
  set stays as it is and -1 is returned; and on a host of \<open>n\<close> CPUs the mapping of the CPUs
  is a permutation exactly when \<open>n\<close> is even (or 1).  On an odd host two CPUs share a target.\<close>

lemma hyperthread_map_permutes_iff:
  assumes "0 < n" "n \<le> 64"
  shows "(bij_betw (\<lambda>c. nat (fst (map_hyperthread (int n) (push_bit c 1)))) {..<n} {..<n} \<longleftrightarrow> even n \<or> n = 1) \<and>
    (\<forall>c<n. even n \<longrightarrow> snd (map_hyperthread (int n) (push_bit c 1)) =
       push_bit (nat (fst (map_hyperthread (int n) (push_bit c 1)))) 1) \<and>
    (length (filter (\<lambda>i. bit cset i) [0..<64]) \<noteq> 1 \<longrightarrow> map_hyperthread (int n) cset = (-1, cset))"
proof -
  let ?f = "\<lambda>c. nat (fst (map_hyperthread (int n) (push_bit c 1)))"
  have f: "?f c = nat (remapped_cpu (int n) (int c))" if "c < n" for c
    using map_single [of c "int n"] that assms(2) by simp
  have "bij_betw ?f {..<n} {..<n}" if "even n"
  proof -
    have "inj_on ?f {..<n}"
    proof (rule inj_onI)
      fix c c' assume a: "c \<in> {..<n}" "c' \<in> {..<n}" "?f c = ?f c'"
      then have "remapped_cpu (int n) (int c) = remapped_cpu (int n) (int c')"
        using f remapped_less(1) [OF that] by (metis eq_nat_nat_iff lessThan_iff)
      then show "c = c'" using remapped_inj [OF that] a by simp
    qed
    moreover have "?f ` {..<n} \<subseteq> {..<n}" using f remapped_less [OF that] by (auto simp: nat_less_iff)
    ultimately show ?thesis by (simp add: bij_betw_def endo_inj_surj)
  qed
  moreover have "bij_betw ?f {..<n} {..<n}" if "n = 1"
    using f [of 0] that by (simp add: bij_betw_def remapped_cpu_def lessThan_Suc)
  moreover have "even n \<or> n = 1" if "bij_betw ?f {..<n} {..<n}"
  proof (rule ccontr)
    assume odd: "\<not> (even n \<or> n = 1)"
    then have c: "remapped_cpu (int n) 1 = remapped_cpu (int n) (int (n - 1))" "1 \<noteq> n - 1" "1 < n"
      using remapped_collision [of n] by blast+
    then have eq: "?f 1 = ?f (n - 1)" using f [of 1] f [of "n - 1"] by simp
    have "inj_on ?f {..<n}" using that by (rule bij_betw_imp_inj_on)
    from inj_onD [OF this eq] c(2,3) show False by simp
  qed
  moreover have "snd (map_hyperthread (int n) (push_bit c 1)) = push_bit (?f c) 1" if "even n" "c < n" for c
    using map_single [of c "int n"] remapped_less [OF that] that assms(2) by (simp add: CPU_SET_S_def)
  ultimately show ?thesis using map_not_single by blast
qed

end
