(* ===== verification/Spscq.thy ===== *)
theory Spscq
  imports Huc_Prelude
begin

text \<open>
  The single-producer single-consumer queue of
  \<^verbatim>\<open>guestend/simplified-spscq/spscq.h\<close>, the workload the affinity experiments run: its
  struct, creation, \<^verbatim>\<open>lq_write\<close> and \<^verbatim>\<open>lq_read\<close>, with the slot map that
  \<^verbatim>\<open>spscq.cpp\<close> installs for \<^verbatim>\<open>SMAP\<close>.  The locale \<open>bounded_fifo\<close> is the contract
  of a bounded queue and is interpreted on the two operations.  A step relation with one
  step per shared access covers the producer and the consumer running concurrently
  (accesses take effect in program order, as the volatile accesses and the barrier ask for
  on x86).
\<close>

section \<open>The queue\<close>

record Blq =
  write_priv :: u32
  read_shadow :: u32
  blq_write :: u32
  read_priv :: u32
  write_shadow :: u32
  blq_read :: u32
  qlen :: u32
  qmask :: u32
  slots :: "u64 list"

text \<open>\<^verbatim>\<open>x - 1\<close> is evaluated by its callers for positive \<open>x\<close> only.\<close>

definition is_power_of_two :: "u32 \<Rightarrow> bool" where
  "is_power_of_two x \<longleftrightarrow> x = 0 \<or> x AND (x - 1) = 0"

text \<open>
  The size of the allocation: each of the six groups of fields is aligned to 128 bytes.
\<close>

definition SPSCQ_ALIGN_SIZE :: nat where "SPSCQ_ALIGN_SIZE = 128"

definition SPSCQ_ALIGNED_SIZE :: "u64 \<Rightarrow> u64" where
  "SPSCQ_ALIGNED_SIZE sz =
     (sz + of_nat SPSCQ_ALIGN_SIZE - 1) AND NOT (of_nat SPSCQ_ALIGN_SIZE - 1)"

definition sizeof_Blq :: u64 where "sizeof_Blq = 6 * of_nat SPSCQ_ALIGN_SIZE"

definition blq_size :: "u32 \<Rightarrow> u64" where
  "blq_size n = SPSCQ_ALIGNED_SIZE (sizeof_Blq + scast n * 8)"

definition blq_init :: "Blq \<Rightarrow> u32 \<Rightarrow> int \<times> Blq" where
  "blq_init q n =
     (if sint n < 2 \<or> \<not> is_power_of_two n then (-1, q)
      else (0, q\<lparr>qlen := n, qmask := n - 1\<rparr>))"

text \<open>\<open>SMAP\<close> reads the slot map; both the map and the slots are C arrays.\<close>

definition SMAP :: "u16 list \<Rightarrow> nat \<Rightarrow> nat" where
  "SMAP smap x = unat (smap ! x)"

definition slot_ok :: "u16 list \<Rightarrow> Blq \<Rightarrow> u32 \<Rightarrow> bool" where
  "slot_ok smap q x \<longleftrightarrow> unat x < length smap \<and> SMAP smap (unat x) < length (slots q)"

definition lq_write :: "u16 list \<Rightarrow> Blq \<Rightarrow> u64 \<Rightarrow> c_fault + int \<times> Blq" where
  "lq_write smap q m =
     (let wr = blq_write q; nxt = (wr + 1) AND qmask q
      in if nxt = blq_read q then Inr (-1, q)
         else if \<not> slot_ok smap q wr then Inl OutOfBounds
         else Inr (0, q\<lparr>slots := (slots q)[SMAP smap (unat wr) := m], blq_write := nxt\<rparr>))"

definition lq_read :: "u16 list \<Rightarrow> Blq \<Rightarrow> c_fault + u64 \<times> Blq" where
  "lq_read smap q =
     (let rd = blq_read q
      in if rd = blq_write q then Inr (0, q)
         else if \<not> slot_ok smap q rd then Inl OutOfBounds
         else Inr (slots q ! SMAP smap (unat rd), q\<lparr>blq_read := (rd + 1) AND qmask q\<rparr>))"

text \<open>
  \<^verbatim>\<open>blq_create\<close>: zeroed memory for \<open>n\<close> slots, then \<^verbatim>\<open>blq_init\<close>; \<open>None\<close> is the null
  pointer.
\<close>

definition blq_create :: "u32 \<Rightarrow> Blq option" where
  "blq_create n =
     (let q = \<lparr>write_priv = 0, read_shadow = 0, blq_write = 0, read_priv = 0, write_shadow = 0,
               blq_read = 0, qlen = 0, qmask = 0, slots = replicate (unat n) 0\<rparr>;
          (ret, q) = blq_init q n
      in if ret \<noteq> 0 then None else Some q)"

text \<open>\<^verbatim>\<open>qslotmap_init\<close> without shuffling, as the program calls it.\<close>

definition qslotmap_init :: "nat \<Rightarrow> u16 list" where
  "qslotmap_init n = map of_nat [0..<n]"

section \<open>The pool of message buffers\<close>

text \<open>
  The part of \<^verbatim>\<open>Global\<close> the producer uses: the \<^verbatim>\<open>len\<close> field of every mbuf of the pool
  (the payload bytes are never touched), the running index and its mask.
\<close>

record Global =
  pool :: "u32 list"
  pool_idx :: u32
  pool_mask :: u32

text \<open>The allocation in \<^verbatim>\<open>main\<close>: twice as many mbufs as the queue has slots.\<close>

definition pool_init :: "u32 \<Rightarrow> Global" where
  "pool_init n = \<lparr>pool = replicate (unat (2 * n)) 0, pool_idx = 0, pool_mask = 2 * n - 1\<rparr>"

text \<open>\<^verbatim>\<open>mbuf_get\<close> returns the mbuf by its number in the pool.\<close>

definition mbuf_get :: "Global \<Rightarrow> u32 \<Rightarrow> c_fault + u32 \<times> Global" where
  "mbuf_get g trash =
     (let i = pool_idx g AND pool_mask g
      in if \<not> unat i < length (pool g) then Inl OutOfBounds
         else Inr (i, g\<lparr>pool := (pool g)[unat i := pool_idx g + (if trash = 0xdeadbeef then 1 else 0)],
                       pool_idx := pool_idx g + 1\<rparr>))"

text \<open>\<^verbatim>\<open>mbuf_put\<close>: \<open>addr\<close> is the address of the mbuf, \<open>len\<close> its length field.\<close>

definition mbuf_put :: "u64 \<Rightarrow> u32 \<Rightarrow> u32 \<times> u32 \<Rightarrow> u32 \<times> u32" where
  "mbuf_put addr len st = (case st of (csum, trash) \<Rightarrow> (csum + len, trash + ucast addr))"

text \<open>The mbufs of the first \<open>k\<close> turns of the producer's loop (its \<^verbatim>\<open>trash\<close> stays 0).\<close>

fun mbuf_gets :: "nat \<Rightarrow> Global \<Rightarrow> c_fault + u32 list \<times> Global" where
  "mbuf_gets 0 g = Inr ([], g)"
| "mbuf_gets (Suc k) g =
     rbind (mbuf_gets k g) (\<lambda>(is, g). rbind (mbuf_get g 0) (\<lambda>(i, g). Inr (is @ [i], g)))"

section \<open>Ring arithmetic\<close>

definition ring_succ :: "nat \<Rightarrow> nat \<Rightarrow> nat" where
  "ring_succ n i = (if Suc i = n then 0 else Suc i)"

definition ring_add :: "nat \<Rightarrow> nat \<Rightarrow> nat \<Rightarrow> nat" where
  "ring_add n r i = (if r + i < n then r + i else r + i - n)"

definition ring_count :: "nat \<Rightarrow> nat \<Rightarrow> nat \<Rightarrow> nat" where
  "ring_count n r w = (if r \<le> w then w - r else w + n - r)"

definition ring_list :: "u16 list \<Rightarrow> u64 list \<Rightarrow> nat \<Rightarrow> nat \<Rightarrow> nat \<Rightarrow> u64 list" where
  "ring_list smap xs n r w = map (\<lambda>i. xs ! SMAP smap (ring_add n r i)) [0..<ring_count n r w]"

lemma ring_succ_less [simp]: "i < n \<Longrightarrow> ring_succ n i < n"
  by (simp add: ring_succ_def)

lemma ring_count_less: "r < n \<Longrightarrow> w < n \<Longrightarrow> ring_count n r w < n"
  by (auto simp: ring_count_def)

lemma ring_count_zero [simp]: "r < n \<Longrightarrow> w < n \<Longrightarrow> ring_count n r w = 0 \<longleftrightarrow> r = w"
  by (auto simp: ring_count_def)

lemma ring_full_iff: "r < n \<Longrightarrow> w < n \<Longrightarrow> ring_succ n w = r \<longleftrightarrow> ring_count n r w = n - 1"
  by (auto simp: ring_count_def ring_succ_def)

lemma ring_count_succ_write:
  "r < n \<Longrightarrow> w < n \<Longrightarrow> ring_succ n w \<noteq> r \<Longrightarrow> ring_count n r (ring_succ n w) = Suc (ring_count n r w)"
  by (auto simp: ring_count_def ring_succ_def)

lemma ring_count_succ_read:
  "r < n \<Longrightarrow> w < n \<Longrightarrow> r \<noteq> w \<Longrightarrow> Suc (ring_count n (ring_succ n r) w) = ring_count n r w"
  by (auto simp: ring_count_def ring_succ_def)

lemma ring_add_count [simp]: "r < n \<Longrightarrow> w < n \<Longrightarrow> ring_add n r (ring_count n r w) = w"
  by (auto simp: ring_count_def ring_add_def)

lemma ring_add_not_end: "r < n \<Longrightarrow> w < n \<Longrightarrow> i < ring_count n r w \<Longrightarrow> ring_add n r i \<noteq> w"
  by (auto simp: ring_count_def ring_add_def split: if_splits)

lemma ring_add_less: "r < n \<Longrightarrow> i < n \<Longrightarrow> ring_add n r i < n"
  by (auto simp: ring_add_def)

lemma ring_add_Suc: "r < n \<Longrightarrow> Suc i < n \<Longrightarrow> ring_add n r (Suc i) = ring_add n (ring_succ n r) i"
  by (auto simp: ring_add_def ring_succ_def)

lemma ring_add_0 [simp]: "r < n \<Longrightarrow> ring_add n r 0 = r"
  by (simp add: ring_add_def)

text \<open>A slot map is good for \<open>n\<close> slots when it permutes them.\<close>

definition smap_ok :: "u16 list \<Rightarrow> nat \<Rightarrow> bool" where
  "smap_ok smap n \<longleftrightarrow> length smap = n \<and> distinct smap \<and> (\<forall>x \<in> set smap. unat x < n)"

lemma SMAP_less: "smap_ok smap n \<Longrightarrow> i < n \<Longrightarrow> SMAP smap i < n"
  by (simp add: smap_ok_def SMAP_def)

lemma SMAP_eq: "smap_ok smap n \<Longrightarrow> i < n \<Longrightarrow> j < n \<Longrightarrow> SMAP smap i = SMAP smap j \<longleftrightarrow> i = j"
  by (auto simp: smap_ok_def SMAP_def nth_eq_iff_index_eq word_unat_eq_iff [symmetric])

lemma ring_list_store:
  assumes "smap_ok smap n" "length xs = n" "r < n" "w < n"
  shows "ring_list smap (xs[SMAP smap w := m]) n r w = ring_list smap xs n r w"
proof -
  have "xs[SMAP smap w := m] ! SMAP smap (ring_add n r i) = xs ! SMAP smap (ring_add n r i)"
    if "i < ring_count n r w" for i
  proof -
    have "ring_add n r i < n"
      using ring_add_less [OF assms(3)] that ring_count_less [OF assms(3,4)] by simp
    then have "SMAP smap w \<noteq> SMAP smap (ring_add n r i)"
      using SMAP_eq [OF assms(1,4)] ring_add_not_end [OF assms(3,4) that] by auto
    then show ?thesis by simp
  qed
  then show ?thesis by (simp add: ring_list_def)
qed

lemma ring_list_publish:
  assumes "r < n" "w < n" "ring_succ n w \<noteq> r"
  shows "ring_list smap xs n r (ring_succ n w) = ring_list smap xs n r w @ [xs ! SMAP smap w]"
  using assms by (simp add: ring_list_def ring_count_succ_write)

lemma ring_list_consume:
  assumes "r < n" "w < n" "r \<noteq> w"
  shows "ring_list smap xs n r w = xs ! SMAP smap r # ring_list smap xs n (ring_succ n r) w"
proof -
  have c: "ring_count n r w = Suc (ring_count n (ring_succ n r) w)"
    using ring_count_succ_read [OF assms] by simp
  have "ring_add n r (Suc i) = ring_add n (ring_succ n r) i" if "i < ring_count n (ring_succ n r) w" for i
    using that c ring_count_less [OF assms(1,2)] by (intro ring_add_Suc [OF assms(1)]) simp
  then show ?thesis
    using assms(1) unfolding ring_list_def c upt_conv_Cons [OF zero_less_Suc]
    by (simp add: map_Suc_upt [symmetric] del: upt_Suc)
qed

lemma ring_list_empty [simp]: "r < n \<Longrightarrow> ring_list smap xs n r r = []"
  by (simp add: ring_list_def)

lemma length_ring_list [simp]: "length (ring_list smap xs n r w) = ring_count n r w"
  by (simp add: ring_list_def)

section \<open>Well-formed queues and their contents\<close>

definition blq_wf :: "u16 list \<Rightarrow> Blq \<Rightarrow> bool" where
  "blq_wf smap q \<longleftrightarrow>
     length (slots q) = unat (qlen q) \<and> qmask q = qlen q - 1 \<and> qlen q \<noteq> 0 \<and> is_power_of_two (qlen q) \<and>
     blq_write q < qlen q \<and> blq_read q < qlen q \<and> smap_ok smap (unat (qlen q))"

definition blq_contents :: "u16 list \<Rightarrow> Blq \<Rightarrow> u64 list" where
  "blq_contents smap q =
     ring_list smap (slots q) (unat (qlen q)) (unat (blq_read q)) (unat (blq_write q))"

lemma unat_next_slot:
  assumes "is_power_of_two n" "n \<noteq> 0" "x < n"
  shows "unat ((x + 1) AND (n - 1)) = ring_succ (unat n) (unat x)"
proof -
  obtain k where k: "k < 32" "n = push_bit k 1"
    using assms word_single_bit_iff [of n] by (auto simp: is_power_of_two_def)
  have n: "unat n = 2 ^ k"
  proof -
    have "n = of_nat (2 ^ k)" using k by simp
    moreover have "(2 :: nat) ^ k < 2 ^ 32" using k by (intro power_strict_increasing) simp_all
    ultimately show ?thesis by (simp only: unat_of_nat) simp
  qed
  have "n - 1 = mask k" using k by (simp add: mask_eq_exp_minus_1)
  then have "unat ((x + 1) AND (n - 1)) = unat (x + 1) mod 2 ^ k"
    by (simp only: take_bit_eq_mask [symmetric] unsigned_take_bit_eq take_bit_eq_mod [of k "unat (x + 1)"])
  moreover have "unat x < 2 ^ k" using assms(3) n by (simp add: word_less_nat_alt)
  moreover have "unat (x + 1) = Suc (unat x)"
  proof -
    have "unat x < unat n" using assms(3) by (simp add: word_less_nat_alt)
    moreover have "unat n < 2 ^ LENGTH(32)" by (rule unsigned_less)
    ultimately have "Suc (unat x) < 2 ^ LENGTH(32)" by linarith
    then show ?thesis by (simp add: unat_word_ariths)
  qed
  ultimately show ?thesis by (auto simp: ring_succ_def n mod_Suc)
qed

lemma blq_wf_slot:
  assumes "blq_wf smap q" "x < qlen q"
  shows "slot_ok smap q x" "(x + 1) AND qmask q < qlen q"
    "unat ((x + 1) AND qmask q) = ring_succ (unat (qlen q)) (unat x)"
proof -
  have x: "unat x < unat (qlen q)" using assms(2) by (simp add: word_less_nat_alt)
  show "slot_ok smap q x"
    using assms x SMAP_less [of smap "unat (qlen q)" "unat x"]
    by (simp add: blq_wf_def slot_ok_def smap_ok_def)
  show u: "unat ((x + 1) AND qmask q) = ring_succ (unat (qlen q)) (unat x)"
    using assms unat_next_slot [of "qlen q" x] by (simp add: blq_wf_def)
  then show "(x + 1) AND qmask q < qlen q" using x by (simp add: word_less_nat_alt)
qed

lemma blq_wf_unat:
  "blq_wf smap q \<Longrightarrow> unat (blq_write q) < unat (qlen q)"
  "blq_wf smap q \<Longrightarrow> unat (blq_read q) < unat (qlen q)"
  by (simp_all add: blq_wf_def word_less_nat_alt)

lemma blq_full_iff:
  assumes "blq_wf smap q"
  shows "(blq_write q + 1) AND qmask q = blq_read q \<longleftrightarrow>
    length (blq_contents smap q) = unat (qlen q) - 1"
  using blq_wf_slot(3) [OF assms, of "blq_write q"] assms
    ring_full_iff [OF blq_wf_unat(2) [OF assms] blq_wf_unat(1) [OF assms]]
  by (simp add: blq_contents_def word_unat_eq_iff blq_wf_def)

lemma blq_empty_iff:
  assumes "blq_wf smap q"
  shows "blq_read q = blq_write q \<longleftrightarrow> blq_contents smap q = []"
proof -
  have "blq_contents smap q = [] \<longleftrightarrow> length (blq_contents smap q) = 0" by simp
  then show ?thesis
    using blq_wf_unat [OF assms] by (simp add: blq_contents_def word_unat_eq_iff del: length_0_conv)
qed

text \<open>The three accesses that change a queue: store into the free slot, publish it, and
  release the oldest one.\<close>

abbreviation next_slot :: "Blq \<Rightarrow> u32 \<Rightarrow> u32" where
  "next_slot q x \<equiv> (x + 1) AND qmask q"

definition store_slot :: "u16 list \<Rightarrow> u32 \<Rightarrow> u64 \<Rightarrow> Blq \<Rightarrow> Blq" where
  "store_slot smap x m q = q\<lparr>slots := (slots q)[SMAP smap (unat x) := m]\<rparr>"

definition slot_at :: "u16 list \<Rightarrow> Blq \<Rightarrow> u32 \<Rightarrow> u64" where
  "slot_at smap q x = slots q ! SMAP smap (unat x)"

lemma store_slot_simps [simp]:
  "blq_write (store_slot smap x m q) = blq_write q" "blq_read (store_slot smap x m q) = blq_read q"
  "qmask (store_slot smap x m q) = qmask q" "qlen (store_slot smap x m q) = qlen q"
  "length (slots (store_slot smap x m q)) = length (slots q)"
  "blq_wf smap' (store_slot smap x m q) = blq_wf smap' q"
  by (simp_all add: store_slot_def blq_wf_def)

lemma store_slot_contents:
  "blq_wf smap q \<Longrightarrow> blq_contents smap (store_slot smap (blq_write q) m q) = blq_contents smap q"
  using blq_wf_unat [of smap q] ring_list_store [of smap "unat (qlen q)" "slots q"]
  by (simp add: blq_contents_def store_slot_def blq_wf_def)

lemma slot_at_store:
  assumes "blq_wf smap q" "x < qlen q" "y < qlen q"
  shows "slot_at smap (store_slot smap x m q) y = (if x = y then m else slot_at smap q y)"
proof -
  have "unat x < unat (qlen q)" "unat y < unat (qlen q)"
    using assms by (simp_all add: word_less_nat_alt)
  moreover have "smap_ok smap (unat (qlen q))" "length (slots q) = unat (qlen q)"
    using assms(1) by (simp_all add: blq_wf_def)
  ultimately show ?thesis
    using SMAP_eq [of smap "unat (qlen q)" "unat x" "unat y"] SMAP_less [of smap "unat (qlen q)" "unat x"]
    by (auto simp: slot_at_def store_slot_def word_unat_eq_iff)
qed

lemma next_slot_inj:
  assumes "blq_wf smap q" "x < qlen q" "y < qlen q" "next_slot q x = next_slot q y"
  shows "x = y"
proof -
  have "ring_succ (unat (qlen q)) (unat x) = ring_succ (unat (qlen q)) (unat y)"
    using assms(4) blq_wf_slot(3) [OF assms(1,2)] blq_wf_slot(3) [OF assms(1,3)] by simp
  then have "unat x = unat y" by (auto simp: ring_succ_def split: if_splits)
  then show ?thesis by (simp add: word_unat_eq_iff)
qed

lemma publish_slot:
  assumes "blq_wf smap q" "next_slot q (blq_write q) \<noteq> blq_read q"
  shows "blq_wf smap (q\<lparr>blq_write := next_slot q (blq_write q)\<rparr>)"
    "blq_contents smap (q\<lparr>blq_write := next_slot q (blq_write q)\<rparr>) =
       blq_contents smap q @ [slot_at smap q (blq_write q)]"
proof -
  have lt: "blq_write q < qlen q" using assms(1) by (simp add: blq_wf_def)
  note nx = blq_wf_slot [OF assms(1) lt] and w = blq_wf_unat [OF assms(1)]
  show "blq_wf smap (q\<lparr>blq_write := next_slot q (blq_write q)\<rparr>)"
    using assms(1) nx(2) by (simp add: blq_wf_def)
  have "ring_succ (unat (qlen q)) (unat (blq_write q)) \<noteq> unat (blq_read q)"
    using nx(3) assms(2) by (metis word_unat_eq_iff)
  then show "blq_contents smap (q\<lparr>blq_write := next_slot q (blq_write q)\<rparr>) =
       blq_contents smap q @ [slot_at smap q (blq_write q)]"
    using w by (simp add: blq_contents_def slot_at_def nx(3) ring_list_publish)
qed

lemma release_slot:
  assumes "blq_wf smap q" "blq_read q \<noteq> blq_write q"
  shows "blq_wf smap (q\<lparr>blq_read := next_slot q (blq_read q)\<rparr>)"
    "blq_contents smap q =
       slot_at smap q (blq_read q) # blq_contents smap (q\<lparr>blq_read := next_slot q (blq_read q)\<rparr>)"
proof -
  have lt: "blq_read q < qlen q" using assms(1) by (simp add: blq_wf_def)
  note nx = blq_wf_slot [OF assms(1) lt] and w = blq_wf_unat [OF assms(1)]
  show "blq_wf smap (q\<lparr>blq_read := next_slot q (blq_read q)\<rparr>)"
    using assms(1) nx(2) by (simp add: blq_wf_def)
  have "unat (blq_read q) \<noteq> unat (blq_write q)" using assms(2) by (simp add: word_unat_eq_iff)
  then show "blq_contents smap q =
       slot_at smap q (blq_read q) # blq_contents smap (q\<lparr>blq_read := next_slot q (blq_read q)\<rparr>)"
    using w ring_list_consume [of "unat (blq_read q)" "unat (qlen q)" "unat (blq_write q)" smap "slots q"]
    by (simp add: blq_contents_def slot_at_def nx(3))
qed

lemma lq_write_room:
  assumes "blq_wf smap q" "length (blq_contents smap q) < length (slots q) - 1"
  shows "\<exists>q'. lq_write smap q m = Inr (0, q') \<and> blq_wf smap q' \<and>
    blq_contents smap q' = blq_contents smap q @ [m] \<and> length (slots q') = length (slots q)"
proof -
  let ?q = "store_slot smap (blq_write q) m q"
  have lt: "blq_write q < qlen q" using assms(1) by (simp add: blq_wf_def)
  have nf: "next_slot q (blq_write q) \<noteq> blq_read q"
    using blq_full_iff [OF assms(1)] assms by (auto simp: blq_wf_def)
  then have "lq_write smap q m = Inr (0, ?q\<lparr>blq_write := next_slot q (blq_write q)\<rparr>)"
    using blq_wf_slot(1) [OF assms(1) lt] by (simp add: lq_write_def Let_def store_slot_def)
  then show ?thesis
    using publish_slot [of smap ?q] nf assms(1) lt by (simp add: store_slot_contents slot_at_store)
qed

lemma lq_read_some:
  assumes "blq_wf smap q" "blq_contents smap q = x # xs"
  shows "\<exists>q'. lq_read smap q = Inr (x, q') \<and> blq_wf smap q' \<and> blq_contents smap q' = xs \<and>
    length (slots q') = length (slots q)"
proof -
  have lt: "blq_read q < qlen q" using assms(1) by (simp add: blq_wf_def)
  have ne: "blq_read q \<noteq> blq_write q" using blq_empty_iff [OF assms(1)] assms(2) by auto
  then have "lq_read smap q = Inr (slot_at smap q (blq_read q), q\<lparr>blq_read := next_slot q (blq_read q)\<rparr>)"
    using blq_wf_slot(1) [OF assms(1) lt] by (simp add: lq_read_def Let_def slot_at_def)
  then show ?thesis using release_slot [OF assms(1) ne] assms(2) by simp
qed

section \<open>The contract of a bounded queue\<close>

datatype 'a fifo_op = Put 'a | Get

text \<open>A sequence of operations: the values accepted and the values delivered, in order.\<close>

fun fifo_run ::
    "('q \<Rightarrow> 'a \<Rightarrow> 'e + int \<times> 'q) \<Rightarrow> ('q \<Rightarrow> 'e + 'a \<times> 'q) \<Rightarrow> 'a \<Rightarrow> 'a fifo_op list \<Rightarrow> 'q \<Rightarrow>
     'e + 'a list \<times> 'a list \<times> 'q" where
  "fifo_run put get none [] q = Inr ([], [], q)"
| "fifo_run put get none (Put x # ops) q =
     rbind (put q x) (\<lambda>(r, q).
     rbind (fifo_run put get none ops q) (\<lambda>(acc, del, q).
     Inr (if r = 0 then x # acc else acc, del, q)))"
| "fifo_run put get none (Get # ops) q =
     rbind (get q) (\<lambda>(x, q).
     rbind (fifo_run put get none ops q) (\<lambda>(acc, del, q).
     Inr (acc, if x = none then del else x # del, q)))"

locale bounded_fifo =
  fixes put :: "'q \<Rightarrow> 'a \<Rightarrow> 'e + int \<times> 'q"
    and get :: "'q \<Rightarrow> 'e + 'a \<times> 'q"
    and none :: 'a
    and ok :: "'q \<Rightarrow> bool"
    and contents :: "'q \<Rightarrow> 'a list"
    and capacity :: "'q \<Rightarrow> nat"
  assumes bounded: "ok q \<Longrightarrow> length (contents q) \<le> capacity q"
    and put_room: "ok q \<Longrightarrow> length (contents q) < capacity q \<Longrightarrow>
      \<exists>q'. put q x = Inr (0, q') \<and> ok q' \<and> contents q' = contents q @ [x] \<and> capacity q' = capacity q"
    and put_full: "ok q \<Longrightarrow> length (contents q) = capacity q \<Longrightarrow> put q x = Inr (-1, q)"
    and get_some: "ok q \<Longrightarrow> contents q = x # xs \<Longrightarrow>
      \<exists>q'. get q = Inr (x, q') \<and> ok q' \<and> contents q' = xs \<and> capacity q' = capacity q"
    and get_none: "ok q \<Longrightarrow> contents q = [] \<Longrightarrow> get q = Inr (none, q)"
begin

lemma run_fifo:
  assumes "ok q" "none \<notin> set (contents q)" "Put none \<notin> set ops"
  shows "\<exists>acc del q'. fifo_run put get none ops q = Inr (acc, del, q') \<and> ok q' \<and>
    capacity q' = capacity q \<and> contents q @ acc = del @ contents q'"
  using assms
proof (induction ops arbitrary: q)
  case Nil
  then show ?case by simp
next
  case (Cons a ops)
  show ?case
  proof (cases a)
    case (Put x)
    show ?thesis
    proof (cases "length (contents q) < capacity q")
      case True
      then obtain q' where "put q x = Inr (0, q')" "ok q'" "contents q' = contents q @ [x]"
          "capacity q' = capacity q"
        using put_room [OF Cons.prems(1)] by blast
      with Put Cons.prems Cons.IH [of q'] show ?thesis by fastforce
    next
      case False
      then have "put q x = Inr (-1, q)"
        using bounded [OF Cons.prems(1)] put_full [OF Cons.prems(1)] by simp
      with Put Cons.prems Cons.IH [of q] show ?thesis by fastforce
    qed
  next
    case Get
    show ?thesis
    proof (cases "contents q")
      case Nil
      then have "get q = Inr (none, q)" by (rule get_none [OF Cons.prems(1)])
      with Get Cons.prems Cons.IH [of q] show ?thesis by fastforce
    next
      case c: (Cons x xs)
      then obtain q' where "get q = Inr (x, q')" "ok q'" "contents q' = xs" "capacity q' = capacity q"
        using get_some [OF Cons.prems(1)] by blast
      with Get c Cons.prems Cons.IH [of q'] show ?thesis by fastforce
    qed
  qed
qed

end

interpretation lq: bounded_fifo "lq_write smap" "lq_read smap" 0 "blq_wf smap" "blq_contents smap"
    "\<lambda>q. length (slots q) - 1"
  for smap
proof (unfold_locales, goal_cases)
  case (1 q)
  then have "length (blq_contents smap q) < unat (qlen q)"
    using blq_wf_unat [OF 1] by (simp add: blq_contents_def ring_count_less)
  then show ?case using 1 by (simp add: blq_wf_def)
next
  case (2 q x)
  then show ?case using lq_write_room [of smap q x] by auto
next
  case (3 q x)
  then show ?case using blq_full_iff [of smap q] by (simp add: lq_write_def Let_def blq_wf_def)
next
  case (4 q x xs)
  then show ?case using lq_read_some [of smap q x xs] by auto
next
  case (5 q)
  then show ?case using blq_empty_iff [of smap q] by (simp add: lq_read_def Let_def)
qed

section \<open>Creation\<close>

lemma smap_ok_init: "n \<le> 65536 \<Longrightarrow> smap_ok (qslotmap_init n) n"
proof -
  assume n: "n \<le> 65536"
  then have u: "unat (of_nat i :: u16) = i" if "i < n" for i
    using that by (simp add: unat_of_nat)
  then have "inj_on (of_nat :: nat \<Rightarrow> u16) {0..<n}"
    by (metis atLeastLessThan_iff inj_onI)
  then show ?thesis using u by (auto simp: smap_ok_def qslotmap_init_def distinct_map)
qed

lemma blq_create_wf:
  assumes "blq_create n = Some q" "unat n \<le> 65536"
  shows "blq_wf (qslotmap_init (unat n)) q" "blq_contents smap q = []" "length (slots q) = unat n"
    "0 < unat n"
proof -
  have n: "2 \<le> sint n" "is_power_of_two n" and q: "qlen q = n" "qmask q = n - 1" "blq_write q = 0"
    "blq_read q = 0" "slots q = replicate (unat n) 0"
    using assms(1) by (auto simp: blq_create_def blq_init_def Let_def split: if_splits)
  have nz: "n \<noteq> 0" using n(1) by auto
  then show "0 < unat n" by (simp add: unat_gt_0)
  show "blq_wf (qslotmap_init (unat n)) q"
    using q n nz assms(2) smap_ok_init by (simp add: blq_wf_def word_gt_0)
  show "blq_contents smap q = []" "length (slots q) = unat n"
    using q nz by (simp_all add: blq_contents_def unat_gt_0)
qed

section \<open>Producer and consumer at the same time\<close>

text \<open>
  The program points of \<^verbatim>\<open>lq_write\<close> (after the test of \<^verbatim>\<open>read\<close>, after the store to the
  slot) and of \<^verbatim>\<open>lq_read\<close> (after the test of \<^verbatim>\<open>write\<close>, after the load from the slot) with
  their local variables.  \<open>enq\<close> and \<open>deq\<close> record the values written and returned.
\<close>

datatype producer_pc = PIdle | PChecked u64 u32 u32 | PStored u64 u32
datatype consumer_pc = CIdle | CChecked u32 | CLoaded u32 u64

record spsc =
  bq :: Blq
  ppc :: producer_pc
  cpc :: consumer_pc
  enq :: "u64 list"
  deq :: "u64 list"

inductive spsc_step :: "u16 list \<Rightarrow> spsc \<Rightarrow> spsc \<Rightarrow> bool" for smap where
  p_full: "ppc s = PIdle \<Longrightarrow> next_slot (bq s) (blq_write (bq s)) = blq_read (bq s) \<Longrightarrow>
    spsc_step smap s s"
| p_check: "ppc s = PIdle \<Longrightarrow> next_slot (bq s) (blq_write (bq s)) \<noteq> blq_read (bq s) \<Longrightarrow>
    spsc_step smap s (s\<lparr>ppc := PChecked m (blq_write (bq s)) (next_slot (bq s) (blq_write (bq s)))\<rparr>)"
| p_store: "ppc s = PChecked m wr nxt \<Longrightarrow>
    spsc_step smap s (s\<lparr>bq := store_slot smap wr m (bq s), ppc := PStored m nxt\<rparr>)"
| p_publish: "ppc s = PStored m nxt \<Longrightarrow>
    spsc_step smap s (s\<lparr>bq := (bq s)\<lparr>blq_write := nxt\<rparr>, ppc := PIdle, enq := enq s @ [m]\<rparr>)"
| c_empty: "cpc s = CIdle \<Longrightarrow> blq_read (bq s) = blq_write (bq s) \<Longrightarrow> spsc_step smap s s"
| c_check: "cpc s = CIdle \<Longrightarrow> blq_read (bq s) \<noteq> blq_write (bq s) \<Longrightarrow>
    spsc_step smap s (s\<lparr>cpc := CChecked (blq_read (bq s))\<rparr>)"
| c_load: "cpc s = CChecked rd \<Longrightarrow>
    spsc_step smap s (s\<lparr>cpc := CLoaded rd (slot_at smap (bq s) rd)\<rparr>)"
| c_advance: "cpc s = CLoaded rd m \<Longrightarrow>
    spsc_step smap s (s\<lparr>bq := (bq s)\<lparr>blq_read := next_slot (bq s) rd\<rparr>, cpc := CIdle,
                        deq := deq s @ [m]\<rparr>)"

definition spsc_start :: "Blq \<Rightarrow> spsc" where
  "spsc_start q = \<lparr>bq = q, ppc = PIdle, cpc = CIdle, enq = [], deq = []\<rparr>"

definition producer_inv :: "u16 list \<Rightarrow> Blq \<Rightarrow> producer_pc \<Rightarrow> bool" where
  "producer_inv smap q pc =
     (case pc of
        PIdle \<Rightarrow> True
      | PChecked m wr nxt \<Rightarrow> wr = blq_write q \<and> nxt = next_slot q wr \<and> nxt \<noteq> blq_read q
      | PStored m nxt \<Rightarrow> nxt = next_slot q (blq_write q) \<and> nxt \<noteq> blq_read q \<and>
          slot_at smap q (blq_write q) = m)"

definition consumer_inv :: "u16 list \<Rightarrow> Blq \<Rightarrow> consumer_pc \<Rightarrow> bool" where
  "consumer_inv smap q pc =
     (case pc of
        CIdle \<Rightarrow> True
      | CChecked rd \<Rightarrow> rd = blq_read q \<and> rd \<noteq> blq_write q
      | CLoaded rd m \<Rightarrow> rd = blq_read q \<and> rd \<noteq> blq_write q \<and> slot_at smap q rd = m)"

definition spsc_inv :: "u16 list \<Rightarrow> spsc \<Rightarrow> bool" where
  "spsc_inv smap s \<longleftrightarrow>
     blq_wf smap (bq s) \<and> enq s = deq s @ blq_contents smap (bq s) \<and>
     producer_inv smap (bq s) (ppc s) \<and> consumer_inv smap (bq s) (cpc s)"

lemma slot_at_upd [simp]:
  "slot_at smap (q\<lparr>blq_write := x\<rparr>) y = slot_at smap q y"
  "slot_at smap (q\<lparr>blq_read := x\<rparr>) y = slot_at smap q y"
  by (simp_all add: slot_at_def)

lemma blq_wf_less: "blq_wf smap q \<Longrightarrow> blq_write q < qlen q" "blq_wf smap q \<Longrightarrow> blq_read q < qlen q"
  by (simp_all add: blq_wf_def)

lemma spsc_step_inv: "spsc_step smap s s' \<Longrightarrow> spsc_inv smap s \<Longrightarrow> spsc_inv smap s'"
proof (induction rule: spsc_step.induct)
  case (p_store s m wr nxt)
  then show ?case
    by (auto simp: spsc_inv_def producer_inv_def consumer_inv_def store_slot_contents slot_at_store
        blq_wf_less split: consumer_pc.splits)
next
  case (p_publish s m nxt)
  then show ?case
    using publish_slot [of smap "bq s"]
    by (auto simp: spsc_inv_def producer_inv_def consumer_inv_def split: consumer_pc.splits)
next
  case (c_advance s rd m)
  then have inv: "blq_wf smap (bq s)" "rd = blq_read (bq s)" "blq_read (bq s) \<noteq> blq_write (bq s)"
      "slot_at smap (bq s) rd = m"
    by (auto simp: spsc_inv_def consumer_inv_def)
  have "next_slot (bq s) (blq_write (bq s)) \<noteq> next_slot (bq s) rd"
  proof
    assume eq: "next_slot (bq s) (blq_write (bq s)) = next_slot (bq s) rd"
    have "rd < qlen (bq s)" using inv(2) blq_wf_less(2) [OF inv(1)] by simp
    from next_slot_inj [OF inv(1) blq_wf_less(1) [OF inv(1)] this eq] have "blq_write (bq s) = rd" .
    then show False using inv(2,3) by (simp only:)
  qed
  then have "producer_inv smap (bq s\<lparr>blq_read := next_slot (bq s) rd\<rparr>) (ppc s)"
    using c_advance by (auto simp: spsc_inv_def producer_inv_def split: producer_pc.splits)
  moreover have "blq_wf smap (bq s\<lparr>blq_read := next_slot (bq s) rd\<rparr>)"
    "blq_contents smap (bq s) = m # blq_contents smap (bq s\<lparr>blq_read := next_slot (bq s) rd\<rparr>)"
    using release_slot [OF inv(1,3)] inv(2,4) by simp_all
  moreover have "enq s = deq s @ blq_contents smap (bq s)"
    using c_advance by (simp add: spsc_inv_def)
  ultimately show ?case by (simp add: spsc_inv_def consumer_inv_def)
qed (auto simp: spsc_inv_def producer_inv_def consumer_inv_def)

lemma spsc_reachable_inv:
  assumes "(spsc_step smap)\<^sup>*\<^sup>* s s'" "spsc_inv smap s"
  shows "spsc_inv smap s'"
  using assms by (induction rule: rtranclp_induct) (auto intro: spsc_step_inv)

lemma spsc_reachable_qlen: "(spsc_step smap)\<^sup>*\<^sup>* s s' \<Longrightarrow> qlen (bq s') = qlen (bq s)"
  by (induction rule: rtranclp_induct) (auto elim!: spsc_step.cases)

lemma spsc_created_inv:
  assumes "blq_create n = Some q" "unat n \<le> 65536" "smap = qslotmap_init (unat n)"
    and "(spsc_step smap)\<^sup>*\<^sup>* (spsc_start q) s"
  shows "spsc_inv smap s" "length (slots (bq s)) = unat n" "length (blq_contents smap (bq s)) < unat n"
proof -
  have "spsc_inv smap (spsc_start q)"
    using blq_create_wf [OF assms(1,2)] assms(3)
    by (simp add: spsc_inv_def spsc_start_def producer_inv_def consumer_inv_def)
  then show inv: "spsc_inv smap s" using spsc_reachable_inv [OF assms(4)] by simp
  then have wf: "blq_wf smap (bq s)" by (simp add: spsc_inv_def)
  have "qlen q = n" using assms(1) by (auto simp: blq_create_def blq_init_def Let_def split: if_splits)
  then have "qlen (bq s) = n" using spsc_reachable_qlen [OF assms(4)] by (simp add: spsc_start_def)
  then show len: "length (slots (bq s)) = unat n" using wf by (simp add: blq_wf_def)
  then show "length (blq_contents smap (bq s)) < unat n"
    using lq.bounded [OF wf] blq_create_wf(4) [OF assms(1,2)] by simp
qed

lemma sint_pow2: "k < 31 \<Longrightarrow> sint (2 ^ k :: u32) = 2 ^ k"
proof -
  assume "k < 31"
  then have "(2 :: int) ^ k < 2 ^ 31" by (intro power_strict_increasing) simp_all
  moreover have "- (2 ^ 31) \<le> (2 :: int) ^ k" by (rule order_trans [of _ 0]) simp_all
  ultimately have "signed_take_bit 31 ((2 :: int) ^ k) = 2 ^ k"
    by (intro signed_take_bit_int_eq_self)
  moreover have "(2 ^ k :: u32) = word_of_int (2 ^ k)" by simp
  ultimately show ?thesis using sint_sbintrunc' [where 'a = 32, of "2 ^ k"] by simp
qed

lemma blq_create_Some_iff:
  "(\<exists>q. blq_create n = Some q) \<longleftrightarrow> (\<exists>k. 1 \<le> k \<and> k < 31 \<and> n = 2 ^ k)"
proof -
  have c: "(\<exists>q. blq_create n = Some q) \<longleftrightarrow> 2 \<le> sint n \<and> is_power_of_two n"
    by (auto simp: blq_create_def blq_init_def Let_def)
  show ?thesis
  proof
    assume "\<exists>q. blq_create n = Some q"
    with c have n: "2 \<le> sint n" "is_power_of_two n" by simp_all
    then have "n \<noteq> 0" by auto
    then obtain k where k: "k < 32" "n = 2 ^ k"
      using n word_single_bit_iff [of n] by (auto simp: is_power_of_two_def)
    have "k \<noteq> 31" "k \<noteq> 0" using n(1) k(2) by (auto intro: ccontr)
    then show "\<exists>k. 1 \<le> k \<and> k < 31 \<and> n = 2 ^ k" using k by (intro exI [of _ k]) auto
  next
    assume "\<exists>k. 1 \<le> k \<and> k < 31 \<and> n = 2 ^ k"
    then obtain k where k: "1 \<le> k" "k < 31" "n = 2 ^ k" by blast
    have "(2 :: int) ^ 1 \<le> 2 ^ k" using k(1) by (intro power_increasing) simp_all
    then have "2 \<le> sint n" using sint_pow2 [OF k(2)] k(3) by simp
    moreover have "is_power_of_two n"
      using word_single_bit_iff [of n] k by (force simp: is_power_of_two_def)
    ultimately show "\<exists>q. blq_create n = Some q" using c by simp
  qed
qed

lemma queue_length_power:
  assumes "blq_create n = Some q"
  obtains k where "1 \<le> k" "k < 31" "n = 2 ^ k" "unat n = 2 ^ k"
proof -
  obtain k where k: "1 \<le> k" "k < 31" "n = 2 ^ k"
    using blq_create_Some_iff [of n] assms by blast
  have "(2 :: nat) ^ k < 2 ^ 32" using k by (intro power_strict_increasing) simp_all
  moreover have "n = of_nat (2 ^ k)" using k by simp
  ultimately have "unat n = 2 ^ k" by (simp only: unat_of_nat) simp
  with k show ?thesis using that by blast
qed

section \<open>Reuse of message buffers\<close>

lemma mbuf_gets_eq:
  assumes "length (pool g) = 2 ^ j" "pool_mask g = mask j" "pool_idx g = 0" "j < 32"
  shows "\<exists>g'. mbuf_gets k g = Inr (map (\<lambda>i. of_nat i AND mask j) [0..<k], g') \<and>
    length (pool g') = 2 ^ j \<and> pool_mask g' = mask j \<and> pool_idx g' = of_nat k"
proof (induction k)
  case 0
  then show ?case using assms by simp
next
  case (Suc k)
  then obtain g' where g': "mbuf_gets k g = Inr (map (\<lambda>i. of_nat i AND mask j) [0..<k], g')"
      "length (pool g') = 2 ^ j" "pool_mask g' = mask j" "pool_idx g' = of_nat k"
    by blast
  have "unat (of_nat k AND mask j :: u32) < 2 ^ j"
    by (simp only: take_bit_eq_mask [symmetric] unsigned_take_bit_eq take_bit_nat_less_exp)
  then show ?case using g' by (simp add: mbuf_get_def Let_def add.commute)
qed

lemma pool_init_mask:
  assumes "n = 2 ^ k" "k < 31"
  shows "length (pool (pool_init n)) = 2 ^ Suc k" "pool_mask (pool_init n) = mask (Suc k)"
    "pool_idx (pool_init n) = 0"
proof -
  have n: "2 * n = of_nat (2 ^ Suc k)" using assms(1) by simp
  have "(2 :: nat) ^ Suc k < 2 ^ 32" using assms(2) by (intro power_strict_increasing) simp_all
  then have "unat (2 * n) = 2 ^ Suc k" unfolding n by (simp only: unat_of_nat) simp
  then show "length (pool (pool_init n)) = 2 ^ Suc k" by (simp only: pool_init_def) simp
  show "pool_mask (pool_init n) = mask (Suc k)" "pool_idx (pool_init n) = 0"
    using assms(1) by (simp_all add: pool_init_def mask_eq_exp_minus_1)
qed

lemma unat_pool_index: "j \<le> 32 \<Longrightarrow> unat (of_nat i AND mask j :: u32) = i mod 2 ^ j"
proof -
  assume j: "j \<le> 32"
  have "unat (of_nat i AND mask j :: u32) = unat (of_nat i :: u32) mod 2 ^ j"
    by (simp only: take_bit_eq_mask [symmetric] unsigned_take_bit_eq take_bit_eq_mod [of j "unat (of_nat i :: u32)"])
  also have "\<dots> = (i mod 2 ^ 32) mod 2 ^ j" by (simp only: unat_of_nat) simp
  also have "\<dots> = i mod 2 ^ j" by (rule mod_mod_cancel, rule le_imp_power_dvd, rule j)
  finally show ?thesis .
qed

lemma mod_distinct: "(a :: nat) < b \<Longrightarrow> b < a + n \<Longrightarrow> a mod n \<noteq> b mod n"
proof
  assume "a < b" "b < a + n" "a mod n = b mod n"
  then have "n dvd b - a" using mod_eq_dvd_iff_nat [of a b n] by simp
  then show False using \<open>a < b\<close> \<open>b < a + n\<close> by (auto dest: dvd_imp_le)
qed

section \<open>Properties of the queue\<close>

lemma blq_contents_bound: "blq_wf smap q \<Longrightarrow> length (blq_contents smap q) \<le> length (slots q) - 1"
  by (rule lq.bounded)


definition sample_blq :: Blq where
  "sample_blq = \<lparr>write_priv = 0, read_shadow = 0, blq_write = 0, read_priv = 0, write_shadow = 0,
     blq_read = 0, qlen = 4, qmask = 3, slots = [0, 0, 0, 0]\<rparr>"

lemma sample_blq_create: "blq_create 4 = Some sample_blq"
proof -
  have "replicate 4 (0 :: u64) = [0, 0, 0, 0]" by (simp add: numeral_eq_Suc)
  then show ?thesis
    by (simp add: blq_create_def blq_init_def is_power_of_two_def sample_blq_def)
qed


text \<open>C9. With one producer and one consumer interleaved at every shared access, the values
  returned are at all times a prefix of the values written, at most \<open>n - 1\<close> values are in
  between, and the producer's store and the consumer's load stay inside the slots and never
  meet in the same slot.\<close>

theorem spsc_concurrent_fifo:
  assumes "blq_create n = Some q" "unat n \<le> 65536" "smap = qslotmap_init (unat n)"
    and "(spsc_step smap)\<^sup>*\<^sup>* (spsc_start q) s"
  shows "\<exists>rest. enq s = deq s @ rest \<and> length rest < unat n \<and>
    (\<forall>m wr nxt. ppc s = PChecked m wr nxt \<longrightarrow> slot_ok smap (bq s) wr) \<and>
    (\<forall>rd. cpc s = CChecked rd \<longrightarrow> slot_ok smap (bq s) rd) \<and>
    (\<forall>m wr nxt rd. ppc s = PChecked m wr nxt \<and> cpc s = CChecked rd \<longrightarrow> wr \<noteq> rd)"
proof -
  note inv = spsc_created_inv [OF assms]
  then have wf: "blq_wf smap (bq s)" by (simp add: spsc_inv_def)
  have "slot_ok smap (bq s) x" if "x < qlen (bq s)" for x
    using blq_wf_slot(1) [OF wf that] .
  then show ?thesis
    using inv blq_wf_less [OF wf]
    by (intro exI [of _ "blq_contents smap (bq s)"])
       (auto simp: spsc_inv_def producer_inv_def consumer_inv_def)
qed

theorem spsc_concurrent_fifo_witness:
  "\<exists>s. (spsc_step (qslotmap_init 4))\<^sup>*\<^sup>* (spsc_start sample_blq) s \<and>
     ppc s = PChecked 7 0 1 \<and> (\<exists>rest. enq s = deq s @ rest) \<and> slot_ok (qslotmap_init 4) (bq s) 0"
proof -
  let ?s = "(spsc_start sample_blq)\<lparr>ppc := PChecked 7 0 1\<rparr>"
  have "spsc_step (qslotmap_init 4) (spsc_start sample_blq) ?s"
    using p_check [of "spsc_start sample_blq" "qslotmap_init 4" 7]
    by (simp add: spsc_start_def sample_blq_def)
  then have r: "(spsc_step (qslotmap_init 4))\<^sup>*\<^sup>* (spsc_start sample_blq) ?s" by simp
  with spsc_concurrent_fifo [OF sample_blq_create _ _ r] show ?thesis
    by (intro exI [of _ ?s]) auto
qed

text \<open>Creating a queue succeeds exactly for a power of two from 2 up to the largest
  positive \<^verbatim>\<open>int\<close>, and the unshuffled slot map is a permutation of the slots exactly for
  lengths up to 65536, the range of its 16-bit entries.\<close>

lemma queue_lengths_accepted:
  "((\<exists>q. blq_create n = Some q) \<longleftrightarrow> (\<exists>k. 1 \<le> k \<and> k < 31 \<and> n = 2 ^ k)) \<and>
   (smap_ok (qslotmap_init l) l \<longleftrightarrow> l \<le> 65536)"
proof
  show "(\<exists>q. blq_create n = Some q) \<longleftrightarrow> (\<exists>k. 1 \<le> k \<and> k < 31 \<and> n = 2 ^ k)"
    by (rule blq_create_Some_iff)
  show "smap_ok (qslotmap_init l) l \<longleftrightarrow> l \<le> 65536"
  proof
    assume "smap_ok (qslotmap_init l) l"
    then have inj: "inj_on (of_nat :: nat \<Rightarrow> u16) {0..<l}"
      by (simp add: smap_ok_def qslotmap_init_def distinct_map)
    have "\<not> 65536 < l" using inj_onD [OF inj, of 0 65536] by auto
    then show "l \<le> 65536" by simp
  qed (rule smap_ok_init)
qed

text \<open>The pool has twice as many mbufs as the queue has slots, so the producer never
  fills an mbuf in flight: the one it takes for its next write is different from every one
  still queued and from the last one the consumer took out, in every interleaving and also
  after the pool index wrapped around.\<close>

lemma mbuf_not_reused_in_flight:
  assumes "blq_create n = Some q" "unat n \<le> 65536" "smap = qslotmap_init (unat n)"
    and "(spsc_step smap)\<^sup>*\<^sup>* (spsc_start q) s"
  shows "\<exists>ms g. mbuf_gets (Suc (length (enq s))) (pool_init n) = Inr (ms, g) \<and>
    (\<forall>j. length (deq s) \<le> Suc j \<and> j < length (enq s) \<longrightarrow> ms ! j \<noteq> ms ! length (enq s))"
proof -
  let ?e = "length (enq s)"
  obtain k where k: "1 \<le> k" "k < 31" "n = 2 ^ k" "unat n = 2 ^ k"
    using queue_length_power [OF assms(1)] .
  obtain g where g: "mbuf_gets (Suc ?e) (pool_init n) =
      Inr (map (\<lambda>i. of_nat i AND mask (Suc k)) [0..<Suc ?e], g)"
    using mbuf_gets_eq [OF pool_init_mask [OF k(3,2)], of "Suc ?e"] k(2) by auto
  have "?e < length (deq s) + 2 ^ k"
    using spsc_created_inv [OF assms] k(4) by (simp add: spsc_inv_def)
  moreover have "(2 :: nat) ^ k \<ge> 2"
    using k(1) power_increasing [of 1 k "2 :: nat"] by simp
  ultimately have near: "?e < j + 2 ^ Suc k" if "length (deq s) \<le> Suc j" for j
    using that by simp
  have "(of_nat j AND mask (Suc k) :: u32) \<noteq> of_nat ?e AND mask (Suc k)"
    if "length (deq s) \<le> Suc j" "j < ?e" for j
  proof
    assume "(of_nat j AND mask (Suc k) :: u32) = of_nat ?e AND mask (Suc k)"
    then have "j mod 2 ^ Suc k = ?e mod 2 ^ Suc k"
      using unat_pool_index [of "Suc k" j] unat_pool_index [of "Suc k" ?e] k(2) by simp
    then show False using mod_distinct [OF that(2) near [OF that(1)]] by simp
  qed
  then show ?thesis using g by (auto simp: nth_append simp del: upt_Suc)
qed

end
