(* ===== verification/Spscq_TSO.thy ===== *)
theory Spscq_TSO
  imports Spscq
begin

text \<open>
  The queue of \<^verbatim>\<open>spscq.h\<close> on the memory of an x86 processor.  The accesses of \<^verbatim>\<open>lq_write\<close> and
  \<^verbatim>\<open>lq_read\<close> are volatile and separated by compiler barriers only, so the processor sees them in
  program order and may delay each thread's stores in a buffer of its own: loads see the own
  pending stores and otherwise memory, and the oldest pending store reaches memory at any
  later time.  Every run on this memory is a run of the sequentially consistent queue of
  \<open>Spscq\<close>; on a memory that may also reorder stores the queue delivers values that were never
  written.
\<close>

section \<open>Stores and their buffers\<close>

text \<open>The stores the two functions make: to a slot, to \<^verbatim>\<open>write\<close> and to \<^verbatim>\<open>read\<close>.\<close>

datatype store = SlotStore u32 u64 | WriteStore u32 | ReadStore u32

fun commit :: "u16 list \<Rightarrow> store \<Rightarrow> Blq \<Rightarrow> Blq" where
  "commit smap (SlotStore x m) q = store_slot smap x m q"
| "commit smap (WriteStore x) q = q\<lparr>blq_write := x\<rparr>"
| "commit smap (ReadStore x) q = q\<lparr>blq_read := x\<rparr>"

record tso =
  tmem :: Blq
  pbuf :: "store list"
  cbuf :: "store list"
  tppc :: producer_pc
  tcpc :: consumer_pc
  tenq :: "u64 list"
  tdeq :: "u64 list"

text \<open>What the producer and the consumer see: memory under their own pending stores.\<close>

definition pview :: "u16 list \<Rightarrow> tso \<Rightarrow> Blq" where
  "pview smap s = fold (commit smap) (pbuf s) (tmem s)"

definition cview :: "u16 list \<Rightarrow> tso \<Rightarrow> Blq" where
  "cview smap s = fold (commit smap) (cbuf s) (tmem s)"

inductive tso_step :: "u16 list \<Rightarrow> tso \<Rightarrow> tso \<Rightarrow> bool" for smap where
  t_full: "tppc s = PIdle \<Longrightarrow> q = pview smap s \<Longrightarrow> next_slot q (blq_write q) = blq_read q \<Longrightarrow> tso_step smap s s"
| t_room: "tppc s = PIdle \<Longrightarrow> q = pview smap s \<Longrightarrow> next_slot q (blq_write q) \<noteq> blq_read q \<Longrightarrow>
    tso_step smap s (s\<lparr>tppc := PChecked m (blq_write q) (next_slot q (blq_write q))\<rparr>)"
| t_store: "tppc s = PChecked m wr nxt \<Longrightarrow>
    tso_step smap s (s\<lparr>pbuf := pbuf s @ [SlotStore wr m], tppc := PStored m nxt\<rparr>)"
| t_publish: "tppc s = PStored m nxt \<Longrightarrow>
    tso_step smap s (s\<lparr>pbuf := pbuf s @ [WriteStore nxt], tppc := PIdle, tenq := tenq s @ [m]\<rparr>)"
| t_empty: "tcpc s = CIdle \<Longrightarrow> q = cview smap s \<Longrightarrow> blq_read q = blq_write q \<Longrightarrow> tso_step smap s s"
| t_some: "tcpc s = CIdle \<Longrightarrow> q = cview smap s \<Longrightarrow> blq_read q \<noteq> blq_write q \<Longrightarrow>
    tso_step smap s (s\<lparr>tcpc := CChecked (blq_read q)\<rparr>)"
| t_load: "tcpc s = CChecked rd \<Longrightarrow> q = cview smap s \<Longrightarrow>
    tso_step smap s (s\<lparr>tcpc := CLoaded rd (slot_at smap q rd)\<rparr>)"
| t_advance: "tcpc s = CLoaded rd m \<Longrightarrow>
    tso_step smap s (s\<lparr>cbuf := cbuf s @ [ReadStore (next_slot (tmem s) rd)], tcpc := CIdle, tdeq := tdeq s @ [m]\<rparr>)"
| p_commit: "pbuf s = st # b \<Longrightarrow> tso_step smap s (s\<lparr>tmem := commit smap st (tmem s), pbuf := b\<rparr>)"
| c_commit: "cbuf s = st # b \<Longrightarrow> tso_step smap s (s\<lparr>tmem := commit smap st (tmem s), cbuf := b\<rparr>)"

definition tso_start :: "Blq \<Rightarrow> tso" where
  "tso_start q = \<lparr>tmem = q, pbuf = [], cbuf = [], tppc = PIdle, tcpc = CIdle, tenq = [], tdeq = []\<rparr>"

text \<open>
  The abstraction takes every store as done when it is issued: the slots and \<^verbatim>\<open>write\<close> as the
  producer sees them, \<^verbatim>\<open>read\<close> as the consumer does.
\<close>

definition sc_view :: "u16 list \<Rightarrow> tso \<Rightarrow> spsc" where
  "sc_view smap s =
     \<lparr>bq = (pview smap s)\<lparr>blq_read := blq_read (cview smap s)\<rparr>, ppc = tppc s, cpc = tcpc s,
      enq = tenq s, deq = tdeq s\<rparr>"

section \<open>The invariant\<close>

text \<open>
  The stores of the producer are numbered through: the even ones go to slots, the odd ones to
  \<^verbatim>\<open>write\<close>, and the index they use is the number of the value modulo the length of the queue.
  The \<open>i\<close>-th store of the consumer sets \<^verbatim>\<open>read\<close> to \<open>i + 1\<close> modulo the length.
\<close>

fun producer_store :: "nat \<Rightarrow> nat \<Rightarrow> store \<Rightarrow> bool" where
  "producer_store n k (SlotStore x m) \<longleftrightarrow> even k \<and> unat x = k div 2 mod n"
| "producer_store n k (WriteStore x) \<longleftrightarrow> odd k \<and> unat x = Suc (k div 2) mod n"
| "producer_store n k (ReadStore x) \<longleftrightarrow> False"

fun consumer_store :: "nat \<Rightarrow> nat \<Rightarrow> store \<Rightarrow> bool" where
  "consumer_store n k (ReadStore x) \<longleftrightarrow> unat x = Suc k mod n"
| "consumer_store n k _ \<longleftrightarrow> False"

fun numbered :: "(nat \<Rightarrow> 'a \<Rightarrow> bool) \<Rightarrow> nat \<Rightarrow> 'a list \<Rightarrow> bool" where
  "numbered P k [] \<longleftrightarrow> True"
| "numbered P k (st # b) \<longleftrightarrow> P k st \<and> numbered P (Suc k) b"

lemma numbered_snoc [simp]: "numbered P k (b @ [st]) \<longleftrightarrow> numbered P k b \<and> P (k + length b) st"
  by (induction b arbitrary: k) auto

fun mid_write :: "producer_pc \<Rightarrow> nat" where
  "mid_write PIdle = 0" | "mid_write (PChecked m wr nxt) = 1" | "mid_write (PStored m nxt) = 1"

fun mid_read :: "consumer_pc \<Rightarrow> nat" where
  "mid_read CIdle = 0" | "mid_read (CChecked rd) = 1" | "mid_read (CLoaded rd m) = 1"

fun slot_issued :: "producer_pc \<Rightarrow> nat" where
  "slot_issued (PStored m nxt) = 1" | "slot_issued PIdle = 0" | "slot_issued (PChecked m wr nxt) = 0"

text \<open>
  \<open>d\<close> and \<open>e\<close> are the numbers of stores that have reached memory.  The consumer never gets ahead
  of the \<^verbatim>\<open>write\<close> in memory, the producer never laps the \<^verbatim>\<open>read\<close> in memory.
\<close>

definition tso_inv :: "u16 list \<Rightarrow> nat \<Rightarrow> nat \<Rightarrow> nat \<Rightarrow> tso \<Rightarrow> bool" where
  "tso_inv smap n d e s \<longleftrightarrow>
     spsc_inv smap (sc_view smap s) \<and> n = unat (qlen (tmem s)) \<and>
     d + length (pbuf s) = 2 * length (tenq s) + slot_issued (tppc s) \<and>
     numbered (producer_store n) d (pbuf s) \<and> unat (blq_write (tmem s)) = d div 2 mod n \<and>
     e + length (cbuf s) = length (tdeq s) \<and>
     numbered (consumer_store n) e (cbuf s) \<and> unat (blq_read (tmem s)) = e mod n \<and>
     length (tdeq s) + mid_read (tcpc s) \<le> d div 2 \<and>
     length (tenq s) + mid_write (tppc s) < n + e"

section \<open>Pending stores\<close>

lemma commit_frame [simp]:
  "qlen (commit smap st q) = qlen q" "qmask (commit smap st q) = qmask q"
  "length (slots (commit smap st q)) = length (slots q)"
  by (cases st; simp)+

lemma commits_frame [simp]:
  "qlen (fold (commit smap) b q) = qlen q" "qmask (fold (commit smap) b q) = qmask q"
  "length (slots (fold (commit smap) b q)) = length (slots q)"
  by (induction b arbitrary: q) simp_all

lemma producer_commit:
  assumes "producer_store n k st"
  shows "blq_read (commit smap st q) = blq_read q"
    "commit smap st (q\<lparr>blq_read := x\<rparr>) = (commit smap st q)\<lparr>blq_read := x\<rparr>"
    "unat (blq_write q) = k div 2 mod n \<Longrightarrow> unat (blq_write (commit smap st q)) = Suc k div 2 mod n"
  using assms by (cases st; auto simp: store_slot_def elim!: oddE)+

lemma producer_commits:
  assumes "numbered (producer_store n) k b"
  shows "blq_read (fold (commit smap) b q) = blq_read q \<and>
    fold (commit smap) b (q\<lparr>blq_read := x\<rparr>) = (fold (commit smap) b q)\<lparr>blq_read := x\<rparr> \<and>
    (unat (blq_write q) = k div 2 mod n \<longrightarrow>
      unat (blq_write (fold (commit smap) b q)) = (k + length b) div 2 mod n)"
  using assms
proof (induction b arbitrary: k q)
  case (Cons st b)
  then show ?case
    using Cons.IH [of "Suc k" "commit smap st q"] producer_commit [where n = n and k = k and st = st and smap = smap and q = q]
    by simp
qed simp

lemma consumer_commit:
  assumes "consumer_store n k st"
  shows "\<exists>x. commit smap st q = q\<lparr>blq_read := x\<rparr> \<and> unat x = Suc k mod n"
  using assms by (cases st) auto

lemma consumer_commits:
  assumes "numbered (consumer_store n) k b"
  shows "slots (fold (commit smap) b q) = slots q \<and> blq_write (fold (commit smap) b q) = blq_write q \<and>
    (unat (blq_read q) = k mod n \<longrightarrow> unat (blq_read (fold (commit smap) b q)) = (k + length b) mod n)"
  using assms
proof (induction b arbitrary: k q)
  case (Cons st b)
  then show ?case
    using Cons.IH [of "Suc k" "commit smap st q"] consumer_commit [of n k st smap q] by auto
qed simp

lemma pending_slots_elsewhere:
  assumes "numbered (producer_store n) k b" "smap_ok smap n" "length (slots q) = n"
    and "r < k div 2" "(k + length b - 1) div 2 < r + n" "unat x = r mod n" "b \<noteq> []"
  shows "slot_at smap (fold (commit smap) b q) x = slot_at smap q x"
  using assms
proof (induction b arbitrary: k q)
  case (Cons st b)
  have n: "0 < n" using Cons.prems(4,5) by (cases n) auto
  have "slot_at smap (commit smap st q) x = slot_at smap q x"
  proof (cases st)
    case (SlotStore y m)
    then have y: "unat y = k div 2 mod n" using Cons.prems(1) by simp
    have "r mod n \<noteq> k div 2 mod n"
      using Cons.prems(4,5) div_le_mono [of k "k + length (st # b) - 1" 2] by (intro mod_distinct) simp_all
    then have "SMAP smap (unat x) \<noteq> SMAP smap (unat y)"
      using SMAP_eq [OF Cons.prems(2), of "unat x" "unat y"] y Cons.prems(6) n by simp
    then show ?thesis using SlotStore by (simp add: slot_at_def store_slot_def)
  qed (simp_all add: slot_at_def)
  moreover have "slot_at smap (fold (commit smap) b (commit smap st q)) x = slot_at smap (commit smap st q) x"
  proof (cases "b = []")
    case False
    then show ?thesis using Cons.prems by (intro Cons.IH [of "Suc k"]) auto
  qed simp
  ultimately show ?case by simp
qed simp

section \<open>Every step is a step of the sequentially consistent queue\<close>

lemma tso_invD:
  assumes "tso_inv smap n d e s"
  shows "n = unat (qlen (tmem s))"
    "d + length (pbuf s) = 2 * length (tenq s) + slot_issued (tppc s)"
    "numbered (producer_store n) d (pbuf s)" "unat (blq_write (tmem s)) = d div 2 mod n"
    "e + length (cbuf s) = length (tdeq s)"
    "numbered (consumer_store n) e (cbuf s)" "unat (blq_read (tmem s)) = e mod n"
    "length (tdeq s) + mid_read (tcpc s) \<le> d div 2"
    "length (tenq s) + mid_write (tppc s) < n + e"
    "producer_inv smap (bq (sc_view smap s)) (tppc s)" "consumer_inv smap (bq (sc_view smap s)) (tcpc s)"
    "blq_wf smap (bq (sc_view smap s))"
  using assms unfolding tso_inv_def spsc_inv_def by (auto simp: sc_view_def)

text \<open>What the invariant says of the indices that the threads see.\<close>

lemma tso_indices:
  assumes "tso_inv smap n d e s"
  shows "unat (blq_write (pview smap s)) = length (tenq s) mod n"
    "unat (blq_read (pview smap s)) = e mod n"
    "unat (blq_write (cview smap s)) = d div 2 mod n"
    "unat (blq_read (cview smap s)) = length (tdeq s) mod n"
    "slots (cview smap s) = slots (tmem s)"
    "blq_wf smap (bq (sc_view smap s))" "0 < n" "d div 2 \<le> length (tenq s)"
    "e \<le> length (tdeq s)" "length (tdeq s) \<le> d div 2"
proof -
  note inv = tso_invD [OF assms]
  have i: "slot_issued (tppc s) < 2" by (cases "tppc s") simp_all
  have "(d + length (pbuf s)) div 2 = length (tenq s)" using inv(2) i by simp
  then show "unat (blq_write (pview smap s)) = length (tenq s) mod n"
    "unat (blq_read (pview smap s)) = e mod n"
    using producer_commits [OF inv(3)] inv(4,7) by (simp_all add: pview_def)
  show "unat (blq_write (cview smap s)) = d div 2 mod n"
    "unat (blq_read (cview smap s)) = length (tdeq s) mod n" "slots (cview smap s) = slots (tmem s)"
    using consumer_commits [OF inv(6)] inv(4,5,7) by (simp_all add: cview_def)
  show wf: "blq_wf smap (bq (sc_view smap s))" by (rule inv(12))
  then show "0 < n" using inv(1) by (simp add: blq_wf_def sc_view_def pview_def unat_gt_0)
  show "d div 2 \<le> length (tenq s)" using inv(2) i by linarith
  show "e \<le> length (tdeq s)" "length (tdeq s) \<le> d div 2" using inv(5,8) by linarith+
qed

lemma tso_next:
  assumes "tso_inv smap n d e s" "unat x = k mod n"
  shows "unat (next_slot (tmem s) x) = Suc k mod n"
proof -
  have wf: "blq_wf smap (bq (sc_view smap s))" and n: "0 < n" "n = unat (qlen (tmem s))"
    using tso_indices(6,7) [OF assms(1)] assms(1) unfolding tso_inv_def by blast+
  have q: "qlen (bq (sc_view smap s)) = qlen (tmem s)" "qmask (bq (sc_view smap s)) = qmask (tmem s)"
    by (simp_all add: sc_view_def pview_def)
  have "x < qlen (tmem s)" using assms(2) n by (simp add: word_less_nat_alt)
  then have "unat (next_slot (tmem s) x) = ring_succ n (unat x)"
    using blq_wf_slot(3) [OF wf, of x] n(2) by (simp add: q)
  then show ?thesis using assms(2) by (simp add: ring_succ_def mod_Suc)
qed

lemma views_frame [simp]:
  "qlen (pview smap s) = qlen (tmem s)" "qmask (pview smap s) = qmask (tmem s)"
  "qlen (cview smap s) = qlen (tmem s)" "qmask (cview smap s) = qmask (tmem s)"
  by (simp_all add: pview_def cview_def)

lemma sc_view_simps [simp]:
  "ppc (sc_view smap s) = tppc s" "cpc (sc_view smap s) = tcpc s"
  "enq (sc_view smap s) = tenq s" "deq (sc_view smap s) = tdeq s"
  "blq_write (bq (sc_view smap s)) = blq_write (pview smap s)"
  "blq_read (bq (sc_view smap s)) = blq_read (cview smap s)"
  "qmask (bq (sc_view smap s)) = qmask (tmem s)" "qlen (bq (sc_view smap s)) = qlen (tmem s)"
  "slot_at smap (bq (sc_view smap s)) x = slot_at smap (pview smap s) x"
  by (simp_all add: sc_view_def)

text \<open>A stale \<^verbatim>\<open>read\<close> makes the queue look fuller than it is, a stale \<^verbatim>\<open>write\<close> emptier.\<close>

lemma room_is_real:
  assumes "tso_inv smap n d e s" "tppc s = PIdle"
    and "next_slot (tmem s) (blq_write (pview smap s)) \<noteq> blq_read (pview smap s)"
  shows "next_slot (tmem s) (blq_write (pview smap s)) \<noteq> blq_read (cview smap s)"
    "Suc (length (tenq s)) < n + e"
proof -
  note i = tso_indices [OF assms(1)]
  have u: "unat (next_slot (tmem s) (blq_write (pview smap s))) = Suc (length (tenq s)) mod n"
    by (rule tso_next [OF assms(1) i(1)])
  have "length (tenq s) < n + e" using assms(1,2) by (simp add: tso_inv_def)
  moreover have "Suc (length (tenq s)) mod n \<noteq> e mod n"
    using assms(3) u i(2) by (simp add: word_unat_eq_iff)
  ultimately show room: "Suc (length (tenq s)) < n + e"
    by (metis Suc_lessI mod_add_self1)
  have "length (tdeq s) mod n \<noteq> Suc (length (tenq s)) mod n"
    using room i(8-10) by (intro mod_distinct) linarith+
  then show "next_slot (tmem s) (blq_write (pview smap s)) \<noteq> blq_read (cview smap s)"
    using u i(4) by (simp add: word_unat_eq_iff)
qed

lemma value_is_real:
  assumes "tso_inv smap n d e s" "tcpc s = CIdle" "blq_read (cview smap s) \<noteq> blq_write (cview smap s)"
  shows "blq_read (cview smap s) \<noteq> blq_write (pview smap s)" "length (tdeq s) < d div 2"
proof -
  note i = tso_indices [OF assms(1)]
  have "length (tenq s) < n + e" using assms(1) by (simp add: tso_inv_def)
  moreover have "length (tdeq s) mod n \<noteq> d div 2 mod n"
    using assms(3) i(3,4) by (simp add: word_unat_eq_iff)
  ultimately show some: "length (tdeq s) < d div 2" using i(10) by (metis le_neq_implies_less)
  have "length (tdeq s) mod n \<noteq> length (tenq s) mod n"
    using some i(8,9) \<open>length (tenq s) < n + e\<close> by (intro mod_distinct) linarith+
  then show "blq_read (cview smap s) \<noteq> blq_write (pview smap s)"
    using i(1,4) by (simp add: word_unat_eq_iff)
qed

text \<open>The slot the consumer loads from has no store pending.\<close>

lemma loaded_slot:
  assumes "tso_inv smap n d e s" "tcpc s = CChecked rd"
  shows "slot_at smap (cview smap s) rd = slot_at smap (pview smap s) rd"
proof -
  note i = tso_indices [OF assms(1)]
  have inv: "numbered (producer_store n) d (pbuf s)" "Suc (length (tdeq s)) \<le> d div 2"
    "length (tenq s) < n + e" "d + length (pbuf s) = 2 * length (tenq s) + slot_issued (tppc s)"
    "n = unat (qlen (tmem s))" "consumer_inv smap (bq (sc_view smap s)) (CChecked rd)"
    using assms unfolding tso_inv_def spsc_inv_def by auto
  have iss: "slot_issued (tppc s) \<le> 1" by (cases "tppc s") simp_all
  have c: "slot_at smap (cview smap s) rd = slot_at smap (tmem s) rd" using i(5) by (simp add: slot_at_def)
  show ?thesis
  proof (cases "pbuf s = []")
    case False
    have rd: "unat rd = length (tdeq s) mod n" using inv(6) i(4) by (simp add: consumer_inv_def)
    have ok: "smap_ok smap n" "length (slots (tmem s)) = n"
      using i(6) inv(5) by (simp_all add: blq_wf_def sc_view_def pview_def)
    have "(d + length (pbuf s) - 1) div 2 < length (tdeq s) + n" using inv(3,4) iss i(9) by linarith
    with pending_slots_elsewhere [OF inv(1) ok _ _ rd False] inv(2) show ?thesis
      by (simp add: c pview_def)
  qed (simp add: c pview_def)
qed

lemma store_slot_read: "store_slot smap x m (q\<lparr>blq_read := r\<rparr>) = (store_slot smap x m q)\<lparr>blq_read := r\<rparr>"
  by (simp add: store_slot_def)

lemma write_read: "q\<lparr>blq_read := r, blq_write := w\<rparr> = q\<lparr>blq_write := w, blq_read := r\<rparr>" for q :: Blq
  by simp

lemma consumer_reads:
  assumes "numbered (consumer_store n) k b" "blq_read q = blq_read q'"
  shows "blq_read (fold (commit smap) b q) = blq_read (fold (commit smap) b q')"
  using assms
proof (induction b arbitrary: k q q')
  case (Cons st b)
  then show ?case by (cases st) auto
qed simp

lemma commit_hidden:
  assumes "tso_inv smap n d e s"
  shows "pbuf s = st # b \<Longrightarrow> sc_view smap (s\<lparr>tmem := commit smap st (tmem s), pbuf := b\<rparr>) = sc_view smap s"
    "cbuf s = st # b \<Longrightarrow> sc_view smap (s\<lparr>tmem := commit smap st (tmem s), cbuf := b\<rparr>) = sc_view smap s"
proof -
  have inv: "numbered (producer_store n) d (pbuf s)" "numbered (consumer_store n) e (cbuf s)"
    using assms unfolding tso_inv_def by blast+
  { assume b: "pbuf s = st # b"
    then have st: "producer_store n d st" using inv(1) by simp
    have "blq_read (fold (commit smap) (cbuf s) (commit smap st (tmem s))) = blq_read (cview smap s)"
      unfolding cview_def by (rule consumer_reads [OF inv(2) producer_commit(1) [OF st]])
    then show "sc_view smap (s\<lparr>tmem := commit smap st (tmem s), pbuf := b\<rparr>) = sc_view smap s"
      using b inv(2) by (simp add: sc_view_def pview_def cview_def) }
  { assume b: "cbuf s = st # b"
    then obtain x where x: "commit smap st (tmem s) = (tmem s)\<lparr>blq_read := x\<rparr>"
      using consumer_commit [of n e st smap "tmem s"] inv(2) by auto
    have "cview smap (s\<lparr>tmem := commit smap st (tmem s), cbuf := b\<rparr>) = cview smap s"
      by (simp add: cview_def b)
    moreover have "pview smap (s\<lparr>tmem := commit smap st (tmem s), cbuf := b\<rparr>) = (pview smap s)\<lparr>blq_read := x\<rparr>"
      using producer_commits [OF inv(1), of smap "tmem s" x] by (simp add: pview_def x)
    ultimately show "sc_view smap (s\<lparr>tmem := commit smap st (tmem s), cbuf := b\<rparr>) = sc_view smap s"
      by (simp add: sc_view_def) }
qed

lemma tso_step_sim:
  "tso_step smap s s' \<Longrightarrow> tso_inv smap n d e s \<Longrightarrow>
   spsc_step smap (sc_view smap s) (sc_view smap s') \<or> sc_view smap s' = sc_view smap s"
proof (induction rule: tso_step.induct)
  case (t_room s q m)
  then show ?case
    using room_is_real [of smap n d e s] p_check [of "sc_view smap s" smap m]
    by (simp add: sc_view_def pview_def cview_def)
next
  case (t_store s m wr nxt)
  then show ?case
    using p_store [of "sc_view smap s" m wr nxt smap]
    by (simp add: sc_view_def pview_def cview_def store_slot_read)
next
  case (t_publish s m nxt)
  then show ?case
    using p_publish [of "sc_view smap s" m nxt smap] by (simp add: sc_view_def pview_def cview_def write_read)
next
  case (t_some s q)
  then show ?case
    using value_is_real [of smap n d e s] c_check [of "sc_view smap s" smap]
    by (simp add: sc_view_def pview_def cview_def)
next
  case (t_load s rd q)
  then show ?case
    using loaded_slot [of smap n d e s rd] c_load [of "sc_view smap s" rd smap]
    by (simp add: sc_view_def pview_def cview_def)
next
  case (t_advance s rd m)
  then show ?case
    using c_advance [of "sc_view smap s" rd m smap] by (simp add: sc_view_def pview_def cview_def)
qed (simp_all add: commit_hidden)

text \<open>Steps of the threads leave the numbers of committed stores as they are, commits add one.\<close>

lemma commit_inv:
  assumes "tso_inv smap n d e s"
  shows "pbuf s = st # b \<Longrightarrow> tso_inv smap n (Suc d) e (s\<lparr>tmem := commit smap st (tmem s), pbuf := b\<rparr>)"
    "cbuf s = st # b \<Longrightarrow> tso_inv smap n d (Suc e) (s\<lparr>tmem := commit smap st (tmem s), cbuf := b\<rparr>)"
proof -
  note inv = tso_invD [OF assms]
  have sc: "spsc_inv smap (sc_view smap s)" using assms by (simp add: tso_inv_def)
  { assume b: "pbuf s = st # b"
    then have st: "producer_store n d st" using inv(3) by simp
    have "d div 2 \<le> Suc d div 2" by (rule div_le_mono) simp
    then show "tso_inv smap n (Suc d) e (s\<lparr>tmem := commit smap st (tmem s), pbuf := b\<rparr>)"
      using b sc inv producer_commit(1,3) [OF st] commit_hidden(1) [OF assms b] by (simp add: tso_inv_def) }
  { assume b: "cbuf s = st # b"
    then obtain x where "commit smap st (tmem s) = (tmem s)\<lparr>blq_read := x\<rparr>" "unat x = Suc e mod n"
      using consumer_commit [of n e st smap "tmem s"] inv(6) by auto
    then show "tso_inv smap n d (Suc e) (s\<lparr>tmem := commit smap st (tmem s), cbuf := b\<rparr>)"
      using b sc inv commit_hidden(2) [OF assms b] by (simp add: tso_inv_def) }
qed

lemma tso_step_inv:
  assumes "tso_step smap s s'" "tso_inv smap n d e s"
  shows "\<exists>d' e'. tso_inv smap n d' e' s'"
proof -
  have sc: "spsc_inv smap (sc_view smap s')"
    using tso_step_sim [OF assms] spsc_step_inv [of smap "sc_view smap s" "sc_view smap s'"] assms(2)
    by (auto simp: tso_inv_def)
  note inv = tso_invD [OF assms(2)] and i = tso_indices [OF assms(2)]
  from assms(1) have "tso_inv smap n d e s' \<or> tso_inv smap n (Suc d) e s' \<or> tso_inv smap n d (Suc e) s'"
  proof cases
    case (t_room q m)
    then show ?thesis using sc inv room_is_real(2) [OF assms(2)] by (simp add: tso_inv_def)
  next
    case (t_store m wr nxt)
    then have "unat wr = length (tenq s) mod n" using inv(10) i(1) by (simp add: producer_inv_def)
    then show ?thesis using t_store sc inv by (simp add: tso_inv_def)
  next
    case (t_publish m nxt)
    then have "unat nxt = Suc (length (tenq s)) mod n"
      using inv(10) tso_next [OF assms(2) i(1)] by (simp add: producer_inv_def)
    then show ?thesis using t_publish sc inv by (simp add: tso_inv_def)
  next
    case (t_some q)
    then show ?thesis using sc inv value_is_real(2) [OF assms(2)] by (simp add: tso_inv_def)
  next
    case (t_load rd q)
    then show ?thesis using sc inv by (simp add: tso_inv_def)
  next
    case (t_advance rd m)
    then have "unat (next_slot (tmem s) rd) = Suc (length (tdeq s)) mod n"
      using inv(11) tso_next [OF assms(2) i(4)] by (simp add: consumer_inv_def)
    then show ?thesis using t_advance sc inv by (simp add: tso_inv_def)
  qed (use assms(2) commit_inv [OF assms(2)] in \<open>simp_all\<close>)
  then show ?thesis by blast
qed

interpretation tso_sim: stuttering_simulation "tso_step smap" "spsc_step smap" "sc_view smap"
    "\<lambda>s. \<exists>d e. tso_inv smap n d e s" for smap n
  using tso_step_inv tso_step_sim by unfold_locales blast+

section \<open>Properties on the processor's memory\<close>

lemma sc_view_start: "sc_view smap (tso_start q) = spsc_start q"
  by (simp add: sc_view_def pview_def cview_def tso_start_def spsc_start_def)

lemma tso_start_inv:
  assumes "blq_create n = Some q" "unat n \<le> 65536"
  shows "tso_inv (qslotmap_init (unat n)) (unat n) 0 0 (tso_start q)"
proof -
  have "qlen q = n" "blq_write q = 0" "blq_read q = 0"
    using assms(1) by (auto simp: blq_create_def blq_init_def Let_def split: if_splits)
  then show ?thesis
    using spsc_created_inv(1) [OF assms refl rtranclp.rtrancl_refl] blq_create_wf(4) [OF assms]
    unfolding tso_inv_def sc_view_start by (simp add: tso_start_def)
qed

text \<open>C10.  Store buffers do not show: every run of producer and consumer on a memory with a
  buffer of pending stores per thread is, seen through \<open>sc_view\<close>, a run on a memory without
  buffers; an attempt that finds the queue full or empty too early changes nothing and is no
  step of that run.  The values returned are a prefix of the values written with fewer than \<open>n\<close>
  in between, and once both buffers are empty memory is the queue that the run without buffers
  has.\<close>

theorem tso_refines_sc:
  assumes "blq_create n = Some q" "unat n \<le> 65536" "smap = qslotmap_init (unat n)"
    and "(tso_step smap)\<^sup>*\<^sup>* (tso_start q) s"
  shows "(spsc_step smap)\<^sup>*\<^sup>* (spsc_start q) (sc_view smap s) \<and>
    (\<exists>rest. tenq s = tdeq s @ rest \<and> length rest < unat n) \<and>
    (pbuf s = [] \<and> cbuf s = [] \<longrightarrow> bq (sc_view smap s) = tmem s)"
proof -
  have run: "(spsc_step smap)\<^sup>*\<^sup>* (spsc_start q) (sc_view smap s)"
    using tso_sim.run_sim(1) [OF assms(4), of "unat n"] tso_start_inv [OF assms(1,2)] assms(3)
    unfolding sc_view_start by blast
  have "tenq s = tdeq s @ blq_contents smap (bq (sc_view smap s))"
    using spsc_created_inv(1) [OF assms(1-3) run] by (simp add: spsc_inv_def)
  moreover have "bq (sc_view smap s) = tmem s" if "pbuf s = []" "cbuf s = []"
    using that by (simp add: sc_view_def pview_def cview_def)
  ultimately show ?thesis using run spsc_created_inv(3) [OF assms(1-3) run] by blast
qed

text \<open>A value written while its stores are still pending.\<close>

theorem tso_refines_sc_witness:
  "\<exists>s. (tso_step (qslotmap_init 4))\<^sup>*\<^sup>* (tso_start sample_blq) s \<and> pbuf s = [SlotStore 0 7, WriteStore 1] \<and>
     tmem s = sample_blq \<and> (\<exists>rest. tenq s = tdeq s @ rest \<and> length rest < 4) \<and>
     (spsc_step (qslotmap_init 4))\<^sup>*\<^sup>* (spsc_start sample_blq) (sc_view (qslotmap_init 4) s)"
proof -
  let ?a = "(tso_start sample_blq)\<lparr>tppc := PChecked 7 0 1\<rparr>"
  let ?b = "?a\<lparr>pbuf := [SlotStore 0 7], tppc := PStored 7 1\<rparr>"
  let ?c = "?b\<lparr>pbuf := [SlotStore 0 7, WriteStore 1], tppc := PIdle, tenq := [7]\<rparr>"
  have "tso_step (qslotmap_init 4) (tso_start sample_blq) ?a"
    using t_room [of "tso_start sample_blq" "sample_blq" "qslotmap_init 4" 7]
    by (simp add: tso_start_def sample_blq_def pview_def)
  moreover have "tso_step (qslotmap_init 4) ?a ?b"
    using t_store [of ?a 7 0 1 "qslotmap_init 4"] by (simp add: tso_start_def)
  moreover have "tso_step (qslotmap_init 4) ?b ?c"
    using t_publish [of ?b 7 1 "qslotmap_init 4"] by (simp add: tso_start_def)
  ultimately have r: "(tso_step (qslotmap_init 4))\<^sup>*\<^sup>* (tso_start sample_blq) ?c"
    by (meson converse_rtranclp_into_rtranclp rtranclp.rtrancl_refl)
  show ?thesis
    using tso_refines_sc [OF sample_blq_create _ _ r] r
    by (intro exI [of _ ?c]) (auto simp: tso_start_def)
qed

text \<open>
  The order of stores is needed: on a memory that may also commit the store to \<^verbatim>\<open>write\<close> ahead of
  a pending store to a slot, the consumer can take a value that was never written (here the
  initial zero of the slot, which its caller takes for an empty queue) and skip the one that
  was.  The functions have compiler barriers only, so nothing in the source asks the processor
  for that order.
\<close>

inductive relaxed_step :: "u16 list \<Rightarrow> tso \<Rightarrow> tso \<Rightarrow> bool" for smap where
  in_order: "tso_step smap s s' \<Longrightarrow> relaxed_step smap s s'"
| overtake: "pbuf s = a @ WriteStore x # b \<Longrightarrow> \<forall>st \<in> set a. \<exists>i m. st = SlotStore i m \<Longrightarrow>
    relaxed_step smap s (s\<lparr>tmem := commit smap (WriteStore x) (tmem s), pbuf := a @ b\<rparr>)"

lemma store_order_needed:
  assumes "smap = qslotmap_init 4"
  shows "\<exists>s. (relaxed_step smap)\<^sup>*\<^sup>* (tso_start sample_blq) s \<and> tenq s = [7] \<and> tdeq s = [0]"
proof -
  let ?a = "(tso_start sample_blq)\<lparr>tppc := PChecked 7 0 1\<rparr>"
  let ?b = "?a\<lparr>pbuf := [SlotStore 0 7], tppc := PStored 7 1\<rparr>"
  let ?c = "?b\<lparr>pbuf := [SlotStore 0 7, WriteStore 1], tppc := PIdle, tenq := [7]\<rparr>"
  let ?d = "?c\<lparr>tmem := sample_blq\<lparr>blq_write := 1\<rparr>, pbuf := [SlotStore 0 7]\<rparr>"
  let ?e = "?d\<lparr>tcpc := CChecked 0\<rparr>"
  let ?f = "?d\<lparr>tcpc := CLoaded 0 0\<rparr>"
  let ?g = "?d\<lparr>cbuf := [ReadStore 1], tdeq := [0]\<rparr>"
  have "tso_step smap (tso_start sample_blq) ?a"
    using t_room [of "tso_start sample_blq" "sample_blq" smap 7]
    by (simp add: tso_start_def sample_blq_def pview_def)
  moreover have "tso_step smap ?a ?b"
    using t_store [of ?a 7 0 1 smap] by (simp add: tso_start_def)
  moreover have "tso_step smap ?b ?c"
    using t_publish [of ?b 7 1 smap] by (simp add: tso_start_def)
  moreover have "relaxed_step smap ?c ?d"
    using overtake [of ?c "[SlotStore 0 7]" 1 "[]" smap] by (simp add: tso_start_def)
  moreover have "tso_step smap ?d ?e"
    using t_some [of ?d "tmem ?d" smap] by (simp add: tso_start_def sample_blq_def cview_def)
  moreover have "slot_at smap (tmem ?d) 0 = 0"
    by (simp add: assms slot_at_def SMAP_def qslotmap_init_def sample_blq_def upt_rec)
  then have "tso_step smap ?e ?f"
    using t_load [of ?e 0 "tmem ?d" smap] by (simp add: tso_start_def cview_def)
  moreover have "tso_step smap ?f ?g"
    using t_advance [of ?f 0 0 smap] by (simp add: tso_start_def sample_blq_def)
  ultimately have "(relaxed_step smap)\<^sup>*\<^sup>* (tso_start sample_blq) ?g"
    by (meson in_order converse_rtranclp_into_rtranclp rtranclp.rtrancl_refl)
  then show ?thesis by (intro exI [of _ ?g]) (simp add: tso_start_def)
qed

end
