(* ===== verification/C_Double.thy ===== *)
theory C_Double
  imports Complex_Main
begin

text \<open>
  The arithmetic of the C type \<^verbatim>\<open>double\<close> on rational numbers: the result of an operation is
  the exact result rounded to a significand of 53 bits, ties to even.  Only values in the
  normal range occur in the programs that are modelled with it, so that there are no
  infinities, no NaN and no subnormal numbers here.
\<close>

section \<open>Definitions\<close>

fun nlog2 :: "nat \<Rightarrow> nat" where
  "nlog2 n = (if n < 2 then 0 else Suc (nlog2 (n div 2)))"

declare nlog2.simps [simp del]

text \<open>The exponent of a positive number: \<open>2 powi bexp x \<le> x < 2 powi (bexp x + 1)\<close>.\<close>

definition bexp :: "rat \<Rightarrow> int" where
  "bexp x =
     (let (p, q) = quotient_of x;
          e = int (nlog2 (nat p)) - int (nlog2 (nat q))
      in if 2 powi e \<le> x then e else e - 1)"

definition round_even :: "rat \<Rightarrow> int" where
  "round_even x =
     (let f = \<lfloor>x\<rfloor>; d = x - of_int f
      in if d < 1 / 2 then f else if 1 / 2 < d then f + 1 else if even f then f else f + 1)"

definition double_of :: "rat \<Rightarrow> rat" where
  "double_of x =
     (if x = 0 then 0
      else let u = 2 powi (bexp \<bar>x\<bar> - 52) in of_int (round_even (x / u)) * u)"

definition dadd :: "rat \<Rightarrow> rat \<Rightarrow> rat" where "dadd x y = double_of (x + y)"
definition dsub :: "rat \<Rightarrow> rat \<Rightarrow> rat" where "dsub x y = double_of (x - y)"
definition dmult :: "rat \<Rightarrow> rat \<Rightarrow> rat" where "dmult x y = double_of (x * y)"
definition ddiv :: "rat \<Rightarrow> rat \<Rightarrow> rat" where "ddiv x y = double_of (x / y)"

text \<open>Conversion to an integer drops the fraction; \<^verbatim>\<open>std::ceil\<close> is exact.\<close>

definition int_of_double :: "rat \<Rightarrow> int" where
  "int_of_double x = (if 0 \<le> x then \<lfloor>x\<rfloor> else \<lceil>x\<rceil>)"

definition dceil :: "rat \<Rightarrow> rat" where "dceil x = of_int \<lceil>x\<rceil>"

section \<open>The exponent\<close>

lemma nlog2_bounds: "0 < n \<Longrightarrow> 2 ^ nlog2 n \<le> n \<and> n < 2 ^ Suc (nlog2 n)"
proof (induction n rule: nlog2.induct)
  case (1 n)
  show ?case
  proof (cases "n < 2")
    case True
    then show ?thesis using 1(2) by (subst (1 2) nlog2.simps) auto
  next
    case False
    then have "2 ^ nlog2 (n div 2) \<le> n div 2 \<and> n div 2 < 2 ^ Suc (nlog2 (n div 2))"
      using 1 by simp
    moreover have "nlog2 n = Suc (nlog2 (n div 2))" using False by (subst nlog2.simps) simp
    ultimately show ?thesis by (simp add: less_mult_imp_div_less) linarith
  qed
qed

lemma nlog2_rat_bounds:
  assumes "0 < p"
  shows "2 ^ nlog2 (nat p) \<le> (of_int p :: rat)" "(of_int p :: rat) < 2 * 2 ^ nlog2 (nat p)"
proof -
  define a where "a = nlog2 (nat p)"
  have "2 ^ a \<le> nat p" "nat p < 2 * 2 ^ a"
    using nlog2_bounds [of "nat p"] assms unfolding a_def by auto
  then have "2 ^ a \<le> p" "p < 2 * 2 ^ a" using assms
    by (auto simp: le_nat_iff nat_less_iff)
  then have "of_int (2 ^ a) \<le> (of_int p :: rat)" "(of_int p :: rat) < of_int (2 * 2 ^ a)"
    by (simp_all only: of_int_le_iff of_int_less_iff)
  then show "2 ^ nlog2 (nat p) \<le> (of_int p :: rat)" "(of_int p :: rat) < 2 * 2 ^ nlog2 (nat p)"
    by (simp_all add: a_def)
qed

lemma bexp_bounds:
  assumes "0 < x"
  shows "2 powi bexp x \<le> x" "x < 2 powi (bexp x + 1)"
proof -
  obtain p q where pq: "quotient_of x = (p, q)" by force
  have q: "0 < q" and x: "x = of_int p / of_int q"
    using quotient_of_denom_pos [OF pq] quotient_of_div [OF pq] by auto
  then have p: "0 < p" using assms by (auto simp: zero_less_divide_iff)
  define a where "a = nlog2 (nat p)"
  define b where "b = nlog2 (nat q)"
  have A: "2 ^ a \<le> (of_int p :: rat)" "(of_int p :: rat) < 2 * 2 ^ a"
    unfolding a_def using nlog2_rat_bounds [OF p] by auto
  have B: "2 ^ b \<le> (of_int q :: rat)" "(of_int q :: rat) < 2 * 2 ^ b"
    unfolding b_def using nlog2_rat_bounds [OF q] by auto
  define e where "e = int a - int b"
  have pe: "(2 :: rat) powi e = 2 ^ a / 2 ^ b"
    unfolding e_def by (simp add: power_int_diff)
  have "x < 2 * (2 powi e)"
  proof -
    have "x < 2 * 2 ^ a / of_int q" unfolding x using A q by (intro divide_strict_right_mono) auto
    also have "\<dots> \<le> 2 * 2 ^ a / 2 ^ b" using B q by (intro divide_left_mono) auto
    finally show ?thesis by (simp add: pe)
  qed
  moreover have "2 powi e / 2 \<le> x"
  proof -
    have "(2 :: rat) powi e / 2 = 2 ^ a / (2 * 2 ^ b)" by (simp add: pe)
    also have "\<dots> \<le> 2 ^ a / of_int q" using B q by (intro divide_left_mono) auto
    also have "\<dots> \<le> x" unfolding x using A q by (intro divide_right_mono) auto
    finally show ?thesis .
  qed
  moreover have "bexp x = (if 2 powi e \<le> x then e else e - 1)"
    by (simp add: bexp_def pq e_def a_def b_def)
  ultimately show "2 powi bexp x \<le> x" "x < 2 powi (bexp x + 1)"
    by (auto simp: power_int_add_1 power_int_diff)
qed

lemma bexp_less:
  assumes "0 < x" "x < 2 powi k"
  shows "bexp x < k"
proof (rule ccontr)
  assume "\<not> bexp x < k"
  then have "(2 :: rat) powi k \<le> 2 powi bexp x" by (intro power_int_increasing) auto
  also have "\<dots> \<le> x" using assms(1) by (rule bexp_bounds)
  finally show False using assms(2) by simp
qed

section \<open>Rounding\<close>

lemma round_even_error: "\<bar>of_int (round_even x) - x\<bar> \<le> 1 / 2"
  unfolding round_even_def Let_def
  by (cases "x - of_int \<lfloor>x\<rfloor> < 1 / 2")
    (auto simp: abs_if not_less algebra_simps; linarith)+

lemma round_even_of_int [simp]: "round_even (of_int i) = i"
  by (simp add: round_even_def)

text \<open>The relative error of one operation is at most \<open>2^-53\<close>.\<close>

lemma double_of_error: "\<bar>double_of x - x\<bar> \<le> \<bar>x\<bar> / 2 ^ 53"
proof (cases "x = 0")
  case False
  define u :: rat where "u = 2 powi (bexp \<bar>x\<bar> - 52)"
  have u: "0 < u" by (simp add: u_def)
  have "double_of x - x = (of_int (round_even (x / u)) - x / u) * u"
    using False u by (simp add: double_of_def Let_def u_def [symmetric] left_diff_distrib)
  then have "\<bar>double_of x - x\<bar> \<le> 1 / 2 * u"
    using round_even_error [of "x / u"] u by (simp add: abs_mult mult_right_mono)
  also have "\<dots> = 2 powi bexp \<bar>x\<bar> / 2 ^ 53"
    unfolding u_def by (subst power_int_diff) (auto simp: power_Suc)
  also have "\<dots> \<le> \<bar>x\<bar> / 2 ^ 53"
    using bexp_bounds(1) [of "\<bar>x\<bar>"] False by (intro divide_right_mono) auto
  finally show ?thesis .
qed (simp add: double_of_def)

text \<open>The same as bounds on the result for a number that is not negative.\<close>

lemma double_of_bounds:
  assumes "0 \<le> x"
  shows "x * (1 - 1 / 2 ^ 53) \<le> double_of x" "double_of x \<le> x * (1 + 1 / 2 ^ 53)"
proof -
  define e :: rat where "e = 1 / 2 ^ 53"
  have "\<bar>double_of x - x\<bar> \<le> x * e" using double_of_error [of x] assms by (simp add: e_def)
  then have "x - x * e \<le> double_of x" "double_of x \<le> x + x * e" by (simp_all add: abs_le_iff algebra_simps)
  then have "x * (1 - e) \<le> double_of x" "double_of x \<le> x * (1 + e)" by (simp_all add: algebra_simps)
  then show "x * (1 - 1 / 2 ^ 53) \<le> double_of x" "double_of x \<le> x * (1 + 1 / 2 ^ 53)"
    by (simp_all only: e_def)
qed

text \<open>Three operations in a row lose at most a factor of \<open>1 \<plusminus> 2^-51\<close>.\<close>

lemma double_chain:
  assumes "0 \<le> t" "0 < u" "0 < c"
  shows "\<bar>double_of (double_of (double_of t * c) / u) - t * c / u\<bar> \<le> t * c / u / 2 ^ 51"
proof -
  define e :: rat where "e = 1 / 2 ^ 53"
  define x where "x = t * c / u"
  have e: "0 < e" "e < 1" "(1 + e) ^ 3 \<le> 1 + 4 * e" "1 - 4 * e \<le> (1 - e) ^ 3"
    by (simp_all add: e_def power3_eq_cube)
  have b: "y * (1 - e) \<le> double_of y" "double_of y \<le> y * (1 + e)" if "0 \<le> y" for y
    using double_of_bounds [OF that] by (simp_all add: e_def)
  define A where "A = double_of t"
  define B where "B = double_of (A * c)"
  define C where "C = double_of (B / u)"
  have A: "t * (1 - e) \<le> A" "A \<le> t * (1 + e)" using b [OF assms(1)] by (simp_all add: A_def)
  have A0: "0 \<le> A" using A(1) assms(1) e by (meson diff_ge_0_iff_ge less_imp_le mult_nonneg_nonneg order_trans)
  have "A * c * (1 - e) \<le> B" "B \<le> A * c * (1 + e)" using b [of "A * c"] A0 assms by (simp_all add: B_def)
  moreover have "t * (1 - e) * c * (1 - e) \<le> A * c * (1 - e)" "A * c * (1 + e) \<le> t * (1 + e) * c * (1 + e)"
    using A assms e by (auto intro!: mult_right_mono)
  ultimately have B: "t * c * (1 - e) ^ 2 \<le> B" "B \<le> t * c * (1 + e) ^ 2"
    by (simp_all add: power2_eq_square mult_ac)
  have B0: "0 \<le> B" using B(1) assms e by (meson less_imp_le mult_nonneg_nonneg order_trans zero_le_power2)
  have "B / u * (1 - e) \<le> C" "C \<le> B / u * (1 + e)" using b [of "B / u"] B0 assms by (simp_all add: C_def)
  moreover have D: "x * (1 - e) ^ 2 \<le> B / u" "B / u \<le> x * (1 + e) ^ 2"
    using B assms divide_right_mono [of _ _ u] unfolding x_def by (fastforce simp: field_simps)+
  have "x * (1 - e) ^ 2 * (1 - e) \<le> B / u * (1 - e)" by (rule mult_right_mono [OF D(1)]) (use e in simp)
  moreover have "B / u * (1 + e) \<le> x * (1 + e) ^ 2 * (1 + e)" by (rule mult_right_mono [OF D(2)]) (use e in simp)
  ultimately have C: "x * (1 - e) ^ 3 \<le> C" "C \<le> x * (1 + e) ^ 3"
    by (simp_all add: power3_eq_cube power2_eq_square mult_ac)
  have x: "0 \<le> x" using assms by (simp add: x_def)
  have "x * (1 - 4 * e) \<le> C" "C \<le> x * (1 + 4 * e)"
    using C e x mult_left_mono [OF e(3) x] mult_left_mono [OF e(4) x] by linarith+
  then have "\<bar>C - x\<bar> \<le> x * (4 * e)" by (simp add: abs_le_iff algebra_simps)
  then show ?thesis by (simp add: C_def B_def A_def x_def e_def)
qed

text \<open>A number that a significand of 53 bits can hold is not changed.\<close>

lemma double_of_exact:
  assumes "\<bar>x\<bar> < 2 powi k" "x * 2 ^ n = of_int i" "k + int n \<le> 53"
  shows "double_of x = x"
proof (cases "x = 0")
  case False
  define e where "e = bexp \<bar>x\<bar>"
  have "e < k" using bexp_less [of "\<bar>x\<bar>" k] assms(1) False by (simp add: e_def)
  define m where "m = nat (52 - e - int n)"
  have m: "52 - e = int n + int m" using \<open>e < k\<close> assms(3) by (simp add: m_def)
  have "x / 2 powi (e - 52) = x * 2 powi (int n + int m)"
    by (simp add: m [symmetric] power_int_diff)
  also have "\<dots> = of_int (i * 2 ^ m)"
    using assms(2) by (simp add: power_int_add mult.assoc [symmetric])
  finally have *: "x / 2 powi (e - 52) = of_int (i * 2 ^ m)" .
  then have "double_of x = of_int (i * 2 ^ m) * 2 powi (e - 52)"
    using False by (simp add: double_of_def Let_def e_def [symmetric] del: of_int_mult)
  then show ?thesis by (simp add: * [symmetric] del: of_int_mult)
qed (simp add: double_of_def)

end
