(* ===== verification/Mlib.thy ===== *)
theory Mlib
  imports Huc_Prelude C_Double
begin

text \<open>
  The helpers of \<^verbatim>\<open>guestend/simplified-spscq/mlib.c\<close> and \<^verbatim>\<open>mlib.h\<close>: the measurement of the
  rate of the time stamp counter, conversions between nanoseconds and ticks in 64-bit
  arithmetic, waiting for a time stamp, and \<^verbatim>\<open>runon\<close>, which computes the CPU set of the
  calling thread.
\<close>

section \<open>The time stamp counter\<close>

definition rdtsc :: "u32 \<Rightarrow> u32 \<Rightarrow> u64" where
  "rdtsc hi lo = ucast lo OR push_bit 32 (ucast hi)"

text \<open>\<open>clk p\<close> is the \<open>p\<close>-th value read; the result is the position of the last read.\<close>

partial_function (option) tsc_sleep_till :: "(nat \<Rightarrow> u64) \<Rightarrow> u64 \<Rightarrow> nat \<Rightarrow> nat option" where
  "tsc_sleep_till clk when p = (if clk p < when then tsc_sleep_till clk when (Suc p) else Some p)"

text \<open>
  One measurement of \<^verbatim>\<open>tsc_init\<close>: the counter before and after each of the two clock
  readings, and the clocks in seconds and microseconds.
\<close>

record tsc_sample =
  ta_0 :: u64
  ta_1 :: u64
  tb_0 :: u64
  tb_1 :: u64
  a_sec :: int
  a_usec :: int
  b_sec :: int
  b_usec :: int

definition tsc_width :: "tsc_sample \<Rightarrow> u64" where
  "tsc_width smp = (ta_1 smp - ta_0 smp) + (tb_1 smp - tb_0 smp)"

text \<open>
  The elapsed microseconds as an unsigned number, and the ticks per second in doubles;
  converting an infinite or too large value to an integer is undefined.
\<close>

definition tsc_rate :: "tsc_sample \<Rightarrow> c_fault + u64" where
  "tsc_rate smp =
     (let cy = of_int ((b_sec smp - a_sec smp) * 1000000 + b_usec smp - a_usec smp) :: u64;
          q = ddiv (dmult (double_of (of_nat (unat (tb_0 smp - ta_1 smp)))) 1000000)
                (double_of (of_nat (unat cy)))
      in if cy = 0 \<or> 2 ^ 64 \<le> q then Inl BadConversion else Inr (of_int (int_of_double q)))"

definition tsc_round :: "c_fault + u64 \<times> u64 \<Rightarrow> tsc_sample \<Rightarrow> c_fault + u64 \<times> u64" where
  "tsc_round st smp =
     rbind st (\<lambda>(dmax, cy).
       if tsc_width smp < dmax
       then rbind (tsc_rate smp) (\<lambda>cy. Inr (tsc_width smp, cy))
       else Inr (dmax, cy))"

text \<open>The three rounds; the result is the new value of \<^verbatim>\<open>ticks_per_second\<close>.\<close>

definition tsc_init :: "tsc_sample list \<Rightarrow> c_fault + u64" where
  "tsc_init smps = rbind (foldl tsc_round (Inr (- 1, 0)) smps) (\<lambda>(dmax, cy). Inr cy)"

section \<open>Conversions\<close>

definition ns2tsc :: "u64 \<Rightarrow> u64 \<Rightarrow> u64" where
  "ns2tsc ticks_per_second ns = ns * ticks_per_second div 1000000000"

definition tsc2ns :: "u64 \<Rightarrow> u64 \<Rightarrow> c_fault + u64" where
  "tsc2ns ticks_per_second tsc =
     (if ticks_per_second = 0 then Inl DivByZero
      else Inr (tsc * 1000000000 div ticks_per_second))"

lemma unat_ns2tsc: "unat (ns2tsc t ns) = unat ns * unat t mod 2 ^ 64 div 1000000000"
  by (simp add: ns2tsc_def unat_div_distrib unat_word_ariths)

lemma round_trip_bounds:
  fixes n t g :: nat
  assumes "0 < g" "g \<le> t"
  shows "n * t div g * g div t \<le> n" "n \<le> Suc (n * t div g * g div t)"
proof -
  have "n * t div g * g \<le> n * t" by simp
  then show "n * t div g * g div t \<le> n"
    using assms by (metis div_le_mono nonzero_mult_div_cancel_right not_less_zero le_zero_eq)
  have "n * t < n * t div g * g + g"
    using assms(1) mod_less_divisor [of g "n * t"] div_mult_mod_eq [of "n * t" g] by linarith
  then have "n * t \<le> n * t div g * g + t" using assms(2) by linarith
  then have "n * t div t \<le> (n * t div g * g + t) div t" by (rule div_le_mono)
  moreover have "0 < t" using assms by linarith
  moreover from this have "(n * t div g * g + t) div t = Suc (n * t div g * g div t)"
    using div_add_self2 [of t "n * t div g * g"] by simp
  ultimately show "n \<le> Suc (n * t div g * g div t)" by simp
qed

section \<open>Measuring the rate\<close>

lemma rdtsc_value: "unat (rdtsc hi lo) = unat lo + 2 ^ 32 * unat hi"
proof -
  have "rdtsc hi lo = ucast lo + push_bit 32 (ucast hi)"
    unfolding rdtsc_def by (rule disjunctive_add [symmetric]) (auto simp: bit_simps dest: bit_imp_le_length)
  then have eq: "rdtsc hi lo = ucast lo + 2 ^ 32 * ucast hi" by (simp add: push_bit_eq_mult mult.commute)
  have u: "unat (x :: u32) < 2 ^ 32" for x using unsigned_less [of x, where 'a = nat] by simp
  have c: "unat (ucast x :: u64) = unat x" for x :: u32
    using u [of x] by (simp only: unsigned_ucast_eq take_bit_eq_mod) simp
  have "unat (rdtsc hi lo) = (unat lo + 2 ^ 32 * unat hi) mod 2 ^ 64"
    unfolding eq by (simp add: unat_word_ariths c mod_simps)
  then show ?thesis using u [of lo] u [of hi] by simp
qed

lemma sleep_till_returns:
  assumes "p \<le> q" "when \<le> clk q"
  shows "\<exists>r. tsc_sleep_till clk when p = Some r \<and> when \<le> clk r \<and> (\<forall>i. p \<le> i \<and> i < r \<longrightarrow> clk i < when)"
  using assms
proof (induction "q - p" arbitrary: p)
  case 0
  then have "\<not> clk p < when" by simp
  then show ?case by (subst tsc_sleep_till.simps) auto
next
  case (Suc d)
  show ?case
  proof (cases "clk p < when")
    case True
    then have "p \<noteq> q" using Suc.prems by auto
    then have "d = q - Suc p" "Suc p \<le> q" using Suc.hyps(2) Suc.prems by linarith+
    then obtain r where "tsc_sleep_till clk when (Suc p) = Some r" "when \<le> clk r"
      "\<forall>i. Suc p \<le> i \<and> i < r \<longrightarrow> clk i < when"
      using Suc.hyps(1) [of "Suc p"] Suc.prems(2) by auto
    then show ?thesis using True by (subst tsc_sleep_till.simps) (auto simp: Suc_le_eq dest: le_neq_implies_less)
  next
    case False
    then show ?thesis by (subst tsc_sleep_till.simps) auto
  qed
qed

text \<open>The state keeps the best sample seen so far.\<close>

lemma tsc_round_Inr:
  "tsc_round (Inr (dmax, cy)) smp =
     (if tsc_width smp < dmax then rbind (tsc_rate smp) (\<lambda>cy. Inr (tsc_width smp, cy)) else Inr (dmax, cy))"
  by (simp add: tsc_round_def)

lemma tsc_rounds:
  assumes "\<forall>s \<in> set smps. tsc_rate s = Inr (r s)"
  shows "foldl tsc_round (Inr (- 1, 0)) smps = Inr (- 1, 0) \<and> (\<forall>s \<in> set smps. tsc_width s = - 1) \<or>
    (\<exists>s \<in> set smps. foldl tsc_round (Inr (- 1, 0)) smps = Inr (tsc_width s, r s) \<and>
      (\<forall>s' \<in> set smps. tsc_width s \<le> tsc_width s'))"
  using assms
proof (induction smps rule: rev_induct)
  case (snoc x xs)
  have max: "w \<le> - 1" for w :: u64 by (rule word_n1_ge)
  have not_less: "\<not> w < - 1 \<Longrightarrow> w = - 1" for w :: u64 using max [of w] by simp
  consider (first) "foldl tsc_round (Inr (- 1, 0)) xs = Inr (- 1, 0)" "\<forall>s \<in> set xs. tsc_width s = - 1"
    | (best) s where "s \<in> set xs" "foldl tsc_round (Inr (- 1, 0)) xs = Inr (tsc_width s, r s)"
        "\<forall>s' \<in> set xs. tsc_width s \<le> tsc_width s'"
    using snoc by auto
  then show ?case
  proof cases
    case first
    then show ?thesis using snoc.prems max not_less [of "tsc_width x"]
      by (cases "tsc_width x < - 1") (auto simp: tsc_round_Inr)
  next
    case best
    show ?thesis
    proof (cases "tsc_width x < tsc_width s")
      case True
      then have "\<forall>s' \<in> set (xs @ [x]). tsc_width x \<le> tsc_width s'" using best(3) by force
      then show ?thesis using best True snoc.prems by (auto simp: tsc_round_Inr)
    next
      case False
      then show ?thesis using best by (auto simp: tsc_round_Inr)
    qed
  qed
qed simp

lemma tsc_rate_accuracy:
  assumes "tsc_rate s = Inr r" "unat (tb_0 s - ta_1 s) = t" "0 < us" "us < 2 ^ 53"
    and "(b_sec s - a_sec s) * 1000000 + b_usec s - a_usec s = int us"
  shows "\<bar>of_nat (unat r) - of_nat t * 1000000 / of_nat us\<bar> \<le> (1 :: rat) + of_nat t * 1000000 / of_nat us / 2 ^ 51"
proof -
  define x :: rat where "x = of_nat t * 1000000 / of_nat us"
  define q where "q = double_of (double_of (double_of (of_nat t) * 1000000) / of_nat us)"
  have u: "unat (of_nat us :: u64) = us" using assms(4) by (simp add: unat_of_nat)
  have "of_nat us < (of_nat (2 ^ 53) :: rat)" using assms(4) by (simp only: of_nat_less_iff)
  then have exact: "double_of (of_nat us) = of_nat us"
    by (intro double_of_exact [where k = 53 and n = 0 and i = "int us"]) simp_all
  have "tsc_rate s = (if (of_nat us :: u64) = 0 \<or> 2 ^ 64 \<le> q then Inl BadConversion
                      else Inr (of_int (int_of_double q)))"
    unfolding tsc_rate_def Let_def assms(2,5) of_int_of_nat_eq u ddiv_def dmult_def exact q_def ..
  then have r: "q < 2 ^ 64" "r = of_int (int_of_double q)"
    using assms(1) by (auto split: if_splits)
  have q: "\<bar>q - x\<bar> \<le> x / 2 ^ 51"
    unfolding q_def x_def using assms(3) by (intro double_chain) simp_all
  have "0 \<le> x" by (simp add: x_def)
  then have "x / 2 ^ 51 \<le> x" by simp
  then have "\<bar>q - x\<bar> \<le> x" using q by (rule order_trans [rotated])
  then have "0 \<le> q" by (simp add: abs_le_iff)
  then have fl: "0 \<le> \<lfloor>q\<rfloor>" "\<lfloor>q\<rfloor> < 2 ^ 64" "int_of_double q = \<lfloor>q\<rfloor>"
    using r(1) by (simp_all add: floor_less_iff int_of_double_def)
  then have "uint r = \<lfloor>q\<rfloor>"
    unfolding r(2) fl(3) by (subst uint_word_of_int) simp
  then have "int (unat r) = \<lfloor>q\<rfloor>" by simp
  then have "(of_nat (unat r) :: rat) = of_int \<lfloor>q\<rfloor>" by (metis of_int_of_nat_eq)
  moreover have "of_int \<lfloor>q\<rfloor> \<le> q" "q < of_int \<lfloor>q\<rfloor> + 1" by linarith+
  ultimately have "\<bar>of_nat (unat r) - q\<bar> \<le> (1 :: rat)" by linarith
  then show ?thesis using q unfolding x_def [symmetric] by linarith
qed

section \<open>Choosing the CPU of a thread\<close>

text \<open>
  \<^verbatim>\<open>NUM_CPUS\<close> is a static variable that \<^verbatim>\<open>sysconf\<close> sets on the first call; \<^verbatim>\<open>CPU_SET\<close>
  ignores a CPU outside the \<^verbatim>\<open>cpu_set_t\<close>.  The result is the set handed to
  \<^verbatim>\<open>pthread_setaffinity_np\<close>, in increasing order, and the static variable.
\<close>

definition CPU_SETSIZE :: nat where "CPU_SETSIZE = 1024"

definition runon :: "int \<Rightarrow> int \<Rightarrow> int \<Rightarrow> nat list \<times> int" where
  "runon sysconf_ret NUM_CPUS i =
     (let NUM_CPUS = (if NUM_CPUS = 0 then sysconf_ret else NUM_CPUS)
      in (filter (\<lambda>c. c < CPU_SETSIZE) (if 0 \<le> i then [nat i] else [0..<nat NUM_CPUS]), NUM_CPUS))"

text \<open>With a core number exactly that core is selected, with -1 every online core, the
  number of which is asked for once.\<close>

lemma runon_selects:
  assumes "0 < n" "n \<le> 1024" "i < 1024"
  shows "set (fst (runon n 0 i)) = (if 0 \<le> i then {nat i} else {0..<nat n}) \<and>
    runon m (snd (runon n 0 i)) i = runon n 0 i"
  using assms by (auto simp: runon_def CPU_SETSIZE_def Let_def)

section \<open>Properties\<close>

text \<open>Converting nanoseconds to ticks and back loses at most one nanosecond, for every
  rate of at least one tick per nanosecond, as long as the two products fit in 64 bits; the
  tick count itself is the exact quotient reduced modulo \<open>2^64\<close> before the division.\<close>

lemma ns_tsc_round_trip:
  assumes "1000000000 \<le> unat t" "unat ns * unat t < 2 ^ 64"
  shows "\<exists>r. tsc2ns t (ns2tsc t ns) = Inr r \<and> unat r \<le> unat ns \<and> unat ns \<le> unat r + 1 \<and>
    unat (ns2tsc t ns) = unat ns * unat t div 1000000000"
proof -
  let ?x = "unat ns * unat t div 1000000000"
  have x: "unat (ns2tsc t ns) = ?x" using assms(2) by (simp add: unat_ns2tsc)
  have "?x * 1000000000 \<le> unat ns * unat t" by simp
  then have "?x * 1000000000 < 2 ^ 64" using assms(2) by simp
  then have "unat (ns2tsc t ns * 1000000000 div t) = ?x * 1000000000 div unat t"
    using x by (simp add: unat_div_distrib unat_word_ariths)
  moreover have "t \<noteq> 0" using assms(1) by auto
  ultimately show ?thesis
    using x round_trip_bounds [of 1000000000 "unat t" "unat ns"] assms(1) by (simp add: tsc2ns_def)
qed

text \<open>C35. \<^verbatim>\<open>tsc_init\<close> takes the rate of the measurement with the smallest uncertainty, and when the
  elapsed time is positive and below \<open>2^53\<close> microseconds the rate is the quotient of ticks
  and time up to rounding: less than one tick and a relative error of \<open>2^-51\<close>.\<close>

theorem tsc_init_measures_rate:
  assumes "\<forall>s \<in> set smps. tsc_rate s = Inr (r s)" "\<exists>s \<in> set smps. tsc_width s \<noteq> - 1"
    and "\<forall>s \<in> set smps. unat (tb_0 s - ta_1 s) = ticks s \<and> 0 < us s \<and> us s < 2 ^ 53 \<and>
      (b_sec s - a_sec s) * 1000000 + b_usec s - a_usec s = int (us s)"
  shows "\<exists>s \<in> set smps. tsc_init smps = Inr (r s) \<and> (\<forall>s' \<in> set smps. tsc_width s \<le> tsc_width s') \<and>
    \<bar>of_nat (unat (r s)) - of_nat (ticks s) * 1000000 / of_nat (us s)\<bar>
      \<le> (1 :: rat) + of_nat (ticks s) * 1000000 / of_nat (us s) / 2 ^ 51"
proof -
  obtain s where s: "s \<in> set smps" "foldl tsc_round (Inr (- 1, 0)) smps = Inr (tsc_width s, r s)"
    "\<forall>s' \<in> set smps. tsc_width s \<le> tsc_width s'"
    using tsc_rounds [OF assms(1)] assms(2) by auto
  have "tsc_init smps = Inr (r s)" using s(2) by (simp add: tsc_init_def)
  then show ?thesis using s tsc_rate_accuracy assms(1,3) by blast
qed

definition sample_tsc :: tsc_sample where
  "sample_tsc = \<lparr>ta_0 = 100, ta_1 = 200, tb_0 = 3200, tb_1 = 3300, a_sec = 5, a_usec = 999999,
     b_sec = 6, b_usec = 0\<rparr>"

lemma sample_tsc_rate: "tsc_rate sample_tsc = Inr 3000000000"
proof -
  have "double_of 3000 = 3000" "double_of 3000000000 = 3000000000" "double_of 1 = 1"
    by (rule double_of_exact [where k = 32 and n = 0 and i = 3000]
        double_of_exact [where k = 32 and n = 0 and i = 3000000000]
        double_of_exact [where k = 32 and n = 0 and i = 1]; simp)+
  then show ?thesis
    by (simp add: tsc_rate_def sample_tsc_def Let_def dmult_def ddiv_def int_of_double_def)
qed

theorem tsc_init_measures_rate_witness:
  "tsc_init [sample_tsc, sample_tsc, sample_tsc] = Inr 3000000000"
proof -
  have "tsc_width sample_tsc = 200" by (simp add: tsc_width_def sample_tsc_def)
  then show ?thesis
    using tsc_init_measures_rate [where smps = "[sample_tsc, sample_tsc, sample_tsc]" and r = "\<lambda>_. 3000000000"
        and ticks = "\<lambda>_. 3000" and us = "\<lambda>_. 1"] sample_tsc_rate
    by (simp add: sample_tsc_def)
qed

end

