(* ===== verification/Spscq_Setup.thy ===== *)
theory Spscq_Setup
  imports Spscq Mlib "HOL-Library.Multiset"
begin

text \<open>
  The functions of \<^verbatim>\<open>guestend/simplified-spscq/spscq.cpp\<close> around the queue: allocation and
  release, the shuffled slot map, the bit length, the statistics and the delay loop.
\<close>

section \<open>Memory\<close>

text \<open>
  \<^verbatim>\<open>szalloc\<close>: \<open>mem\<close> is the address the allocation gives, \<open>None\<close> if it fails; the program
  then exits with the status \<open>EXIT_FAILURE\<close>.  The bytes are zero in both cases (\<^verbatim>\<open>mmap\<close>
  gives zeroed pages).
\<close>

datatype alloc_result = Exit int | Aborted | Block u64 bytes

definition szalloc :: "u64 \<Rightarrow> bool \<Rightarrow> u64 option \<Rightarrow> alloc_result" where
  "szalloc sz hugepages mem =
     (case mem of
        None \<Rightarrow> Exit 1
      | Some p \<Rightarrow>
          if hugepages \<and> p mod of_nat SPSCQ_ALIGN_SIZE \<noteq> 0 then Aborted
          else Block p (replicate (unat sz) 0))"

datatype release = Munmap u64 | Free

definition sfree :: "u64 \<Rightarrow> bool \<Rightarrow> release" where
  "sfree sz hugepages = (if hugepages then Munmap sz else Free)"

text \<open>\<^verbatim>\<open>blq_free\<close> clears the fields (not the slots) and then releases the queue.\<close>

definition blq_free :: "Blq \<Rightarrow> bool \<Rightarrow> Blq \<times> release" where
  "blq_free q hugepages =
     (let q = q\<lparr>write_priv := 0, read_shadow := 0, blq_write := 0, read_priv := 0,
                write_shadow := 0, blq_read := 0, qlen := 0, qmask := 0\<rparr>
      in (q, sfree (blq_size (qlen q)) hugepages))"

section \<open>The shuffled slot map\<close>

text \<open>
  \<open>shuf k\<close> is the \<open>k\<close>-th call of \<^verbatim>\<open>std::shuffle\<close> with the generator of this run;
  \<open>old\<close> is the map before.  Entries are 16 bits wide, as are the sums.
\<close>

definition slots_per_line :: nat where "slots_per_line = 64 div 8"

definition qslotmap_lines :: "(nat \<Rightarrow> u16 list \<Rightarrow> u16 list) \<Rightarrow> nat \<Rightarrow> u16 list" where
  "qslotmap_lines shuf n = shuf 0 (map (\<lambda>i. of_nat (slots_per_line * i)) [0..<n div slots_per_line])"

fun qslotmap_fill :: "(nat \<Rightarrow> u16 list \<Rightarrow> u16 list) \<Rightarrow> u16 list \<Rightarrow> nat \<Rightarrow> u16 list \<Rightarrow> u16 list" where
  "qslotmap_fill shuf v 0 qslotmap = qslotmap"
| "qslotmap_fill shuf v (Suc j) qslotmap =
     (let qslotmap = qslotmap_fill shuf v j qslotmap;
          u = shuf (Suc j) (map (\<lambda>i. v ! j + of_nat i) [0..<slots_per_line])
      in fold (\<lambda>i m. m[j * slots_per_line + i := u ! i]) [0..<slots_per_line] qslotmap)"

definition qslotmap_shuffled :: "(nat \<Rightarrow> u16 list \<Rightarrow> u16 list) \<Rightarrow> nat \<Rightarrow> u16 list \<Rightarrow> u16 list" where
  "qslotmap_shuffled shuf n old = qslotmap_fill shuf (qslotmap_lines shuf n) (n div slots_per_line) old"

section \<open>Bit length\<close>

text \<open>The loop ends when \<open>probe\<close>, doubled modulo 2^32, is zero.\<close>

partial_function (option) ilog2_loop :: "u32 \<Rightarrow> u32 \<Rightarrow> u32 \<Rightarrow> u32 \<Rightarrow> u32 option" where
  "ilog2_loop x probe c ret =
     (if probe \<noteq> 0
      then ilog2_loop x (push_bit 1 probe) (c + 1) (if x AND probe \<noteq> 0 then c else ret)
      else Some ret)"

definition ilog2 :: "u32 \<Rightarrow> c_fault + u32" where
  "ilog2 x = (if x = 0 then Inl AssertFailed
              else case ilog2_loop x 1 0 0 of None \<Rightarrow> Inl NoReturn | Some r \<Rightarrow> Inr r)"

section \<open>Statistics\<close>

record RateLimitedStats =
  last :: u64
  stat_step :: u64
  thresh :: u64

definition ONEBILLION :: u64 where "ONEBILLION = 1000 * 1000000"

text \<open>\<open>now\<close> is the clock in nanoseconds; signed values are their 64-bit patterns.\<close>

definition RateLimitedStats_new :: "u64 \<Rightarrow> u64 \<Rightarrow> RateLimitedStats" where
  "RateLimitedStats_new th now =
     \<lparr>last = now, stat_step = 30 * 1000000, thresh = th - 30 * 1000000\<rparr>"

text \<open>
  The result is the rate printed, if one is, and the new state; the rate is infinite (\<open>None\<close>)
  when no time has passed.
\<close>

definition stat :: "u64 \<Rightarrow> u64 \<Rightarrow> RateLimitedStats \<Rightarrow> rat option list \<times> RateLimitedStats" where
  "stat left now st =
     (if sint left < sint (thresh st) then
        let ndiff = now - last st;
            mpps = (if ndiff = 0 then None
                    else Some (ddiv (dmult (double_of (of_int (sint (stat_step st)))) 1000)
                                 (double_of (of_nat (unat ndiff)))));
            step' = (if ndiff < 2 * ONEBILLION then push_bit 1 (stat_step st)
                     else if 3 * ONEBILLION < ndiff then signed_drop_bit 1 (stat_step st)
                     else stat_step st)
        in ([mpps], st\<lparr>stat_step := step', thresh := thresh st - step', last := now\<rparr>)
      else ([], st))"

section \<open>Delay\<close>

text \<open>\<open>clk p\<close> is the \<open>p\<close>-th value of \<^verbatim>\<open>rdtsc\<close>; the sum with \<open>spin\<close> is modulo 2^64.\<close>

partial_function (option) spin_loop :: "(nat \<Rightarrow> u64) \<Rightarrow> u64 \<Rightarrow> nat \<Rightarrow> u32 \<Rightarrow> u32 option" where
  "spin_loop clk when p trash =
     (if clk p < when then spin_loop clk when (Suc p) (trash + 1) else Some trash)"

definition spin_for :: "(nat \<Rightarrow> u64) \<Rightarrow> u64 \<Rightarrow> u32 \<Rightarrow> u32 option" where
  "spin_for clk spin trash = spin_loop clk (clk 0 + spin) 1 trash"

text \<open>The delay ends as soon as the counter reaches the sum, and counts the reads before.\<close>

lemma spin_loop_counts:
  assumes "p \<le> q" "when \<le> clk q" "\<And>i. p \<le> i \<Longrightarrow> i < q \<Longrightarrow> clk i < when"
  shows "spin_loop clk when p trash = Some (trash + of_nat (q - p))"
  using assms
proof (induction "q - p" arbitrary: p trash)
  case 0
  then have "q = p" "\<not> clk p < when" by auto
  then show ?case by (subst spin_loop.simps) simp
next
  case (Suc d)
  then have "clk p < when" "d = q - Suc p" "Suc p \<le> q" "q - p = Suc (q - Suc p)" by auto
  then show ?case using Suc.hyps(1) [of "Suc p" "trash + 1"] Suc.prems
    by (subst spin_loop.simps) (simp add: algebra_simps)
qed

lemma spin_for_counts:
  assumes "1 \<le> q" "clk 0 + spin \<le> clk q" "\<And>i. 1 \<le> i \<Longrightarrow> i < q \<Longrightarrow> clk i < clk 0 + spin"
  shows "spin_for clk spin trash = Some (trash + of_nat (q - 1))"
  using spin_loop_counts [of 1 q "clk 0 + spin" clk trash] assms by (simp add: spin_for_def)

section \<open>The bit length is the binary logarithm\<close>

lemma nlog2_unique:
  assumes "2 ^ c \<le> n" "n < 2 ^ Suc c"
  shows "nlog2 n = c"
proof -
  have "0 < n" using assms(1) by (rule less_le_trans [rotated]) simp
  note b = nlog2_bounds [OF this]
  have "(2 :: nat) ^ nlog2 n < 2 ^ Suc c" "(2 :: nat) ^ c < 2 ^ Suc (nlog2 n)" using b assms by linarith+
  then have "nlog2 n < Suc c" "c < Suc (nlog2 n)"
    by (simp_all only: power_strict_increasing_iff one_less_numeral_iff semiring_norm)
  then show ?thesis by simp
qed

lemma bit_of_unat: "bit (x :: u32) c \<longleftrightarrow> odd (unat x div 2 ^ c)"
proof -
  have "bit (unat x) c \<longleftrightarrow> bit x c" by (simp add: bit_unsigned_iff)
  then show ?thesis by (simp add: bit_iff_odd [of "unat x"])
qed

lemma ilog2_loop_eq:
  assumes "c \<le> 32"
  shows "ilog2_loop x (push_bit c 1) (of_nat c) ret
         = Some (if unat x < 2 ^ c then ret else of_nat (nlog2 (unat x)))"
  using assms
proof (induction "32 - c" arbitrary: c ret)
  case 0
  then have c: "c = 32" by simp
  have "unat x < 2 ^ 32" using unsigned_less [of x, where 'a = nat] by simp
  then show ?case by (subst ilog2_loop.simps) (simp add: c)
next
  case (Suc d)
  then have c: "c < 32" by simp
  have "bit (push_bit c (1 :: u32)) c" using c by (simp only: bit_push_bit_iff) simp
  then have "push_bit c (1 :: u32) \<noteq> 0" by (metis bit_0_eq bot_apply bot_bool_def)
  then have "ilog2_loop x (push_bit c 1) (of_nat c) ret
        = ilog2_loop x (push_bit (Suc c) 1) (of_nat (Suc c)) (if bit x c then of_nat c else ret)"
    by (subst ilog2_loop.simps) (simp add: bit_iff_and_push_bit_not_eq_0 ac_simps)
  also have "\<dots> = Some (if unat x < 2 ^ Suc c then (if bit x c then of_nat c else ret)
                      else of_nat (nlog2 (unat x)))"
    using Suc by (intro Suc.hyps) auto
  also have "\<dots> = Some (if unat x < 2 ^ c then ret else of_nat (nlog2 (unat x)))"
  proof -
    have "\<not> bit x c" if "unat x < 2 ^ c" using that by (simp add: bit_of_unat)
    moreover have "bit x c \<and> nlog2 (unat x) = c" if "2 ^ c \<le> unat x" "unat x < 2 ^ Suc c"
    proof -
      have "unat x div 2 ^ c = 1" using that by (intro div_nat_eqI) auto
      then show ?thesis using nlog2_unique [OF that] by (simp add: bit_of_unat)
    qed
    moreover have "unat x < 2 ^ c \<Longrightarrow> unat x < 2 ^ Suc c" by simp
    ultimately show ?thesis by (auto simp: not_less)
  qed
  finally show ?case .
qed

lemma ilog2_eq: "x \<noteq> 0 \<Longrightarrow> ilog2 x = Inr (of_nat (nlog2 (unat x)))"
  using ilog2_loop_eq [of 0 x 0] by (auto simp: ilog2_def not_less unat_eq_zero)

section \<open>The shuffled map is a permutation\<close>

lemma fold_list_update:
  assumes "a + l \<le> length m" "l \<le> length u"
  shows "fold (\<lambda>i m. m[a + i := u ! i]) [0..<l] m = take a m @ take l u @ drop (a + l) m"
  using assms
proof (induction l)
  case (Suc l)
  then have "drop (a + l) m = m ! (a + l) # drop (Suc (a + l)) m"
    by (intro Cons_nth_drop_Suc [symmetric]) simp
  with Suc show ?case by (simp add: list_update_append take_Suc_conv_app_nth)
qed simp

definition line_block :: "u16 \<Rightarrow> u16 list" where
  "line_block x = map (\<lambda>i. x + of_nat i) [0..<slots_per_line]"

lemma qslotmap_fill_eq:
  assumes perm: "\<And>t xs. mset (shuf t xs) = mset xs" and "j * slots_per_line \<le> length old"
  shows "qslotmap_fill shuf v j old
         = concat (map (\<lambda>i. shuf (Suc i) (line_block (v ! i))) [0..<j]) @ drop (j * slots_per_line) old"
proof -
  have len: "length (shuf t (line_block x)) = slots_per_line" for t x
    using arg_cong [OF perm, of size t "line_block x"] by (simp add: line_block_def)
  show ?thesis using assms(2)
  proof (induction j)
    case (Suc j)
    let ?xs = "concat (map (\<lambda>i. shuf (Suc i) (line_block (v ! i))) [0..<j])"
    have l: "length ?xs = j * slots_per_line"
      by (simp add: length_concat comp_def len sum_list_triv)
    have "qslotmap_fill shuf v (Suc j) old
          = take (j * slots_per_line) (?xs @ drop (j * slots_per_line) old)
            @ take slots_per_line (shuf (Suc j) (line_block (v ! j)))
            @ drop (j * slots_per_line + slots_per_line) (?xs @ drop (j * slots_per_line) old)"
      using Suc l len by (simp add: Let_def line_block_def [symmetric] fold_list_update)
    then show ?case using l len by (simp add: add.commute)
  qed simp
qed

lemma qslotmap_shuffled_mset:
  assumes perm: "\<And>t xs. mset (shuf t xs) = mset xs" and n: "length old = n" "slots_per_line dvd n"
  shows "mset (qslotmap_shuffled shuf n old) = mset (qslotmap_init n)"
proof -
  define l where "l = n div slots_per_line"
  define v where "v = qslotmap_lines shuf n"
  have nl: "n = l * slots_per_line" using n(2) by (simp add: l_def)
  have mv: "mset v = mset (map (\<lambda>i. of_nat (slots_per_line * i)) [0..<l])"
    by (simp add: v_def qslotmap_lines_def perm l_def)
  then have lv: "length v = l" by (metis length_map length_upt minus_nat.diff_0 size_mset)
  have "mset (qslotmap_shuffled shuf n old)
        = mset (concat (map (\<lambda>i. shuf (Suc i) (line_block (v ! i))) [0..<l]))"
  proof -
    have "drop (l * slots_per_line) old = []" using n nl by simp
    moreover have "qslotmap_shuffled shuf n old = qslotmap_fill shuf v l old"
      by (simp only: qslotmap_shuffled_def v_def l_def)
    moreover have "l * slots_per_line \<le> length old" using n nl by simp
    ultimately show ?thesis using qslotmap_fill_eq [of shuf l old v, OF perm] by simp
  qed
  also have "\<dots> = (\<Sum>i\<leftarrow>[0..<l]. mset (line_block (v ! i)))"
    by (simp add: mset_concat comp_def perm)
  also have "\<dots> = (\<Sum>x\<leftarrow>v. mset (line_block x))"
    using lv by (metis (no_types, lifting) map_nth map_map comp_apply map_cong)
  also have "\<dots> = (\<Sum>x\<in>#mset v. mset (line_block x))" by (simp only: mset_map [symmetric] sum_mset_sum_list)
  also have "\<dots> = (\<Sum>i\<leftarrow>[0..<l]. mset (line_block (of_nat (slots_per_line * i))))"
    by (simp only: mv mset_map [symmetric] sum_mset_sum_list map_map comp_def)
  also have "\<dots> = mset (map of_nat [0..<l * slots_per_line])"
  proof (induction l)
    case (Suc l)
    have "[0..<Suc l * slots_per_line] = [0..<l * slots_per_line] @ [l * slots_per_line..<l * slots_per_line + slots_per_line]"
      using upt_add_eq_append [of 0 "l * slots_per_line" slots_per_line] by (simp add: add.commute)
    also have "[l * slots_per_line..<l * slots_per_line + slots_per_line] =
        map (\<lambda>i. i + l * slots_per_line) [0..<slots_per_line]"
      by (simp only: map_add_upt add_0 add.commute)
    finally have "[0..<Suc l * slots_per_line] = [0..<l * slots_per_line] @ map (\<lambda>i. i + l * slots_per_line) [0..<slots_per_line]" .
    with Suc show ?case by (simp add: line_block_def comp_def algebra_simps)
  qed simp
  finally show ?thesis by (simp add: qslotmap_init_def nl)
qed

lemma smap_ok_mset: "mset xs = mset ys \<Longrightarrow> smap_ok xs n = smap_ok ys n"
  using mset_eq_imp_distinct_iff [of xs ys] mset_eq_length [of xs ys] mset_eq_setD [of xs ys]
  by (simp add: smap_ok_def)

lemma not_distinct_replicate: "2 \<le> l \<Longrightarrow> \<not> distinct (replicate l x)"
  by (cases l; cases "l - 1") auto

text \<open>
  \<^verbatim>\<open>blq_free\<close> has cleared the length before it computes the size to unmap: with huge pages
  it always unmaps 768 bytes, of the 2816 of the default queue.
\<close>

lemma blq_free_unmaps_header:
  "snd (blq_free q True) = Munmap 768" "blq_size 256 = 2816"
  by (simp_all add: blq_free_def sfree_def Let_def blq_size_def SPSCQ_ALIGNED_SIZE_def
      SPSCQ_ALIGN_SIZE_def sizeof_Blq_def)

section \<open>Properties\<close>

text \<open>\<open>ilog2\<close> returns for every argument but zero, for which its assertion fails, and its
  result is the binary logarithm rounded down.\<close>

lemma ilog2_correct:
  "ilog2 x = (if x = 0 then Inl AssertFailed else Inr (of_nat (nlog2 (unat x)))) \<and>
   (x \<noteq> 0 \<longrightarrow> 2 ^ nlog2 (unat x) \<le> unat x \<and> unat x < 2 ^ Suc (nlog2 (unat x)))"
  using ilog2_eq [of x] nlog2_bounds [of "unat x"] by (auto simp: ilog2_def unat_gt_0)



end
