(* ===== verification/Spscq_Main.thy ===== *)
theory Spscq_Main
  imports Spscq_Setup
begin

text \<open>
  The two threads of the test program \<^verbatim>\<open>guestend/simplified-spscq/spscq.cpp\<close>, and its
  \<^verbatim>\<open>main\<close>.  The threads are a step relation with one step per access to shared memory;
  the accesses to the queue are those of \<open>spsc_step\<close>, so that every run of the program is a
  run of the queue.
\<close>

section \<open>The two threads\<close>

text \<open>
  Mbuf number \<open>i\<close> of the pool lies at \<open>base + i * sizeof(Mbuf)\<close>; the producer passes the
  address through the queue, and the consumer reads the length field behind it.
\<close>

definition sizeof_Mbuf :: nat where "sizeof_Mbuf = 8 * 4 + (4096 + 64 - 8 * 4)"

definition mbuf_addr :: "u64 \<Rightarrow> u32 \<Rightarrow> u64" where
  "mbuf_addr base i = base + of_nat (unat i * sizeof_Mbuf)"

definition mbuf_len :: "u64 \<Rightarrow> Global \<Rightarrow> u64 \<Rightarrow> u32" where
  "mbuf_len base g m = pool g ! (unat (m - base) div sizeof_Mbuf)"

text \<open>
  The program points: the producer tests \<^verbatim>\<open>stop\<close>, takes an mbuf, and writes until the queue
  accepts it; the consumer reads once, counts and accounts for the mbuf it got, and tests
  \<^verbatim>\<open>stop\<close>.
\<close>

datatype prod_pc = PTest | PGet | PWriting u64 | PEnd
datatype cons_pc = CReading | CCount u64 | CPut u64 | CTest | CEnd

record workload =
  wq :: spsc
  glob :: Global
  stop :: bool
  pw :: prod_pc
  cw :: cons_pc
  pkt_cnt :: u64
  csum :: u32
  trash :: u32

definition sigint_handler :: "workload \<Rightarrow> workload" where
  [simp]: "sigint_handler s = s\<lparr>stop := True\<rparr>"

inductive workload_step :: "u16 list \<Rightarrow> u64 \<Rightarrow> workload \<Rightarrow> workload \<Rightarrow> bool" for smap base where
  sigint: "workload_step smap base s (sigint_handler s)"
| p_go: "pw s = PTest \<Longrightarrow> \<not> stop s \<Longrightarrow> workload_step smap base s (s\<lparr>pw := PGet\<rparr>)"
| p_end: "pw s = PTest \<Longrightarrow> stop s \<Longrightarrow> workload_step smap base s (s\<lparr>pw := PEnd\<rparr>)"
| p_mbuf: "pw s = PGet \<Longrightarrow> mbuf_get (glob s) 0 = Inr (i, g) \<Longrightarrow>
    workload_step smap base s (s\<lparr>glob := g, pw := PWriting (mbuf_addr base i)\<rparr>)"
| w_full: "pw s = PWriting m \<Longrightarrow> ppc (wq s) = PIdle \<Longrightarrow>
    next_slot (bq (wq s)) (blq_write (bq (wq s))) = blq_read (bq (wq s)) \<Longrightarrow>
    workload_step smap base s s"
| w_check: "pw s = PWriting m \<Longrightarrow> ppc (wq s) = PIdle \<Longrightarrow>
    next_slot (bq (wq s)) (blq_write (bq (wq s))) \<noteq> blq_read (bq (wq s)) \<Longrightarrow>
    workload_step smap base s (s\<lparr>wq := (wq s)\<lparr>ppc :=
      PChecked m (blq_write (bq (wq s))) (next_slot (bq (wq s)) (blq_write (bq (wq s))))\<rparr>\<rparr>)"
| w_store: "pw s = PWriting m \<Longrightarrow> ppc (wq s) = PChecked m' wr nxt \<Longrightarrow>
    workload_step smap base s (s\<lparr>wq := (wq s)\<lparr>bq := store_slot smap wr m' (bq (wq s)), ppc := PStored m' nxt\<rparr>\<rparr>)"
| w_publish: "pw s = PWriting m \<Longrightarrow> ppc (wq s) = PStored m' nxt \<Longrightarrow>
    workload_step smap base s (s\<lparr>pw := PTest, wq := (wq s)\<lparr>bq := (bq (wq s))\<lparr>blq_write := nxt\<rparr>,
      ppc := PIdle, enq := enq (wq s) @ [m']\<rparr>\<rparr>)"
| r_empty: "cw s = CReading \<Longrightarrow> cpc (wq s) = CIdle \<Longrightarrow> blq_read (bq (wq s)) = blq_write (bq (wq s)) \<Longrightarrow>
    workload_step smap base s (s\<lparr>cw := CTest\<rparr>)"
| r_check: "cw s = CReading \<Longrightarrow> cpc (wq s) = CIdle \<Longrightarrow> blq_read (bq (wq s)) \<noteq> blq_write (bq (wq s)) \<Longrightarrow>
    workload_step smap base s (s\<lparr>wq := (wq s)\<lparr>cpc := CChecked (blq_read (bq (wq s)))\<rparr>\<rparr>)"
| r_load: "cw s = CReading \<Longrightarrow> cpc (wq s) = CChecked rd \<Longrightarrow>
    workload_step smap base s (s\<lparr>wq := (wq s)\<lparr>cpc := CLoaded rd (slot_at smap (bq (wq s)) rd)\<rparr>\<rparr>)"
| r_advance: "cw s = CReading \<Longrightarrow> cpc (wq s) = CLoaded rd m \<Longrightarrow>
    workload_step smap base s (s\<lparr>cw := (if m = 0 then CTest else CCount m),
      wq := (wq s)\<lparr>bq := (bq (wq s))\<lparr>blq_read := next_slot (bq (wq s)) rd\<rparr>, cpc := CIdle,
                  deq := deq (wq s) @ [m]\<rparr>\<rparr>)"
| c_count: "cw s = CCount m \<Longrightarrow>
    workload_step smap base s (s\<lparr>pkt_cnt := pkt_cnt s + 1, cw := CPut m\<rparr>)"
| c_put: "cw s = CPut m \<Longrightarrow> mbuf_put m (mbuf_len base (glob s) m) (csum s, trash s) = (c, t) \<Longrightarrow>
    workload_step smap base s (s\<lparr>csum := c, trash := t, cw := CTest\<rparr>)"
| c_go: "cw s = CTest \<Longrightarrow> \<not> stop s \<Longrightarrow> workload_step smap base s (s\<lparr>cw := CReading\<rparr>)"
| c_end: "cw s = CTest \<Longrightarrow> stop s \<Longrightarrow> workload_step smap base s (s\<lparr>cw := CEnd\<rparr>)"

text \<open>The state in which \<^verbatim>\<open>main\<close> starts the threads, for a queue of \<open>n\<close> slots.\<close>

definition workload_start :: "u32 \<Rightarrow> Blq \<Rightarrow> workload" where
  "workload_start n q =
     \<lparr>wq = spsc_start q, glob = pool_init n, stop = False, pw = PTest, cw = CReading,
      pkt_cnt = 0, csum = 0, trash = 0\<rparr>"

section \<open>The main program\<close>

definition DFLT_QLEN :: u32 where "DFLT_QLEN = 256"

datatype MbufMode = NoAccess | LinearAccess

text \<open>The members of \<^verbatim>\<open>Global\<close> that configure a run or collect results, with their initial
  values.  The rates are single precision numbers; the program never changes them.\<close>

record Global_settings =
  num_packets :: u64
  g_qlen :: u32
  line_entries :: u32
  prod_batch :: u32
  cons_batch :: u32
  p_core :: int
  c_core :: int
  prod_spin_ticks :: u64
  cons_spin_ticks :: u64
  cons_rate_limit_cycles :: u64
  online_rate :: bool
  perf_counters :: bool
  duration :: u32
  test_type :: string
  latency :: bool
  deceive_hw_data_prefetcher :: bool
  hugepages :: bool
  mbuf_mode :: MbufMode
  producer_batches :: int
  consumer_batches :: int
  prod_read_miss_rate :: rat
  cons_read_miss_rate :: rat
  prod_write_miss_rate :: rat
  cons_write_miss_rate :: rat
  prod_insn_rate :: rat
  cons_insn_rate :: rat

definition Global_new :: Global_settings where
  "Global_new =
     \<lparr>num_packets = 0, g_qlen = DFLT_QLEN, line_entries = 32, prod_batch = 32, cons_batch = 32,
      p_core = 0, c_core = 1, prod_spin_ticks = 0, cons_spin_ticks = 0, cons_rate_limit_cycles = 0,
      online_rate = False, perf_counters = False, duration = 10, test_type = ''lq'', latency = False,
      deceive_hw_data_prefetcher = False, hugepages = False, mbuf_mode = NoAccess,
      producer_batches = 0, consumer_batches = 0, prod_read_miss_rate = 0, cons_read_miss_rate = 0,
      prod_write_miss_rate = 0, cons_write_miss_rate = 0, prod_insn_rate = 0, cons_insn_rate = 0\<rparr>"

definition pool_size :: "u32 \<Rightarrow> u64" where
  "pool_size n = SPSCQ_ALIGNED_SIZE (ucast (2 * n) * of_nat sizeof_Mbuf)"

text \<open>
  \<^verbatim>\<open>main\<close> up to the start of the threads, with the outcomes of the two allocations and of
  \<^verbatim>\<open>sigaction\<close>.  \<open>Inl\<close> is the exit status (134 after a failed assertion); \<open>Inr\<close> the slot map,
  the address of the pool and the first state of the threads, \<open>None\<close> when the queue is the
  null pointer.  The program runs with \<open>Global_new\<close>.
\<close>

definition spscq_main_init ::
  "(nat \<Rightarrow> u16 list \<Rightarrow> u16 list) \<Rightarrow> Global_settings \<Rightarrow> u64 option \<Rightarrow> int \<Rightarrow> u64 option \<Rightarrow>
   int + u16 list \<times> u64 \<times> workload option" where
  "spscq_main_init shuf g mem1 sigaction_ret mem2 =
     (let n = g_qlen g in
      case szalloc (pool_size n + ucast n * 2) (hugepages g) mem1 of
        Exit c \<Rightarrow> Inl c
      | Aborted \<Rightarrow> Inl 134
      | Block base _ \<Rightarrow>
          let smap = (if deceive_hw_data_prefetcher g
                      then qslotmap_shuffled shuf (unat n) (replicate (unat n) 0)
                      else qslotmap_init (unat n))
          in if sigaction_ret \<noteq> 0 then Inl 1
             else case szalloc (blq_size n) (hugepages g) mem2 of
                 Exit c \<Rightarrow> Inl c
               | Aborted \<Rightarrow> Inl 134
               | Block _ _ \<Rightarrow> Inr (smap, base, map_option (workload_start n) (blq_create n)))"

text \<open>
  After both joins: the rate printed for a run of \<open>ns\<close> nanoseconds (\<open>None\<close> when it is not
  finite), the release of the queue and the exit status.
\<close>

definition spscq_main_end :: "Global_settings \<Rightarrow> int \<Rightarrow> workload \<Rightarrow> rat option \<times> release \<times> int" where
  "spscq_main_end g ns s =
     (if ns = 0 then None
      else Some (ddiv (dmult (double_of (of_nat (unat (pkt_cnt s)))) 1000) (double_of (of_int ns))),
      snd (blq_free (bq (wq s)) (hugepages g)), 0)"

section \<open>Every run is a run of the queue\<close>

lemma workload_step_queue:
  "workload_step smap base s s' \<Longrightarrow> spsc_step smap (wq s) (wq s') \<or> wq s' = wq s"
  by (induction rule: workload_step.induct)
    (auto intro: spsc_step.intros simp del: bit_simps)

interpretation workload_sim: stuttering_simulation "workload_step smap base" "spsc_step smap" wq "\<lambda>_. True"
  for smap base
  using workload_step_queue by unfold_locales auto

lemmas workload_queue_reachable = workload_sim.run_sim(1) [OF _ TrueI]

section \<open>What travels through the queue\<close>

lemma unat_pow2: "k < 32 \<Longrightarrow> unat (2 ^ k :: u32) = 2 ^ k"
proof -
  assume "k < 32"
  then have "(2 :: nat) ^ k < 2 ^ 32" by (intro power_strict_increasing) simp_all
  then have "unat (of_nat (2 ^ k) :: u32) = 2 ^ k" by (simp only: unat_of_nat) simp
  then show ?thesis by simp
qed

text \<open>The mbuf of the producer's \<open>j\<close>-th turn, for a pool of \<open>2 ^ Suc k\<close>.\<close>

definition turn_mbuf :: "nat \<Rightarrow> u64 \<Rightarrow> nat \<Rightarrow> u64" where
  "turn_mbuf k base j = mbuf_addr base (of_nat j AND mask (Suc k))"

text \<open>The pool lies in the address space behind a pointer that is not null.\<close>

definition pool_placed :: "nat \<Rightarrow> u64 \<Rightarrow> bool" where
  "pool_placed k base \<longleftrightarrow> k < 31 \<and> base \<noteq> 0 \<and> unat base + 2 ^ Suc k * sizeof_Mbuf < 2 ^ 64"

lemma turn_mbuf:
  assumes "pool_placed k base"
  shows "turn_mbuf k base j \<noteq> 0" "mbuf_len base g (turn_mbuf k base j) = pool g ! (j mod 2 ^ Suc k)"
proof -
  let ?i = "of_nat j AND mask (Suc k) :: u32"
  have i: "unat ?i = j mod 2 ^ Suc k" using assms by (intro unat_pool_index) (simp add: pool_placed_def)
  then have "unat ?i < 2 ^ Suc k" by (simp only: mod_less_divisor zero_less_power zero_less_numeral)
  then have "unat ?i * sizeof_Mbuf < 2 ^ Suc k * sizeof_Mbuf"
    by (intro mult_strict_right_mono) (simp_all add: sizeof_Mbuf_def)
  then have lt: "unat base + unat ?i * sizeof_Mbuf < 2 ^ 64"
    using assms unfolding pool_placed_def by linarith
  have u: "unat (of_nat (unat ?i * sizeof_Mbuf) :: u64) = unat ?i * sizeof_Mbuf"
    using lt by (simp only: unat_of_nat) simp
  have "unat (turn_mbuf k base j) = unat base + unat ?i * sizeof_Mbuf"
    using lt u by (simp add: turn_mbuf_def mbuf_addr_def unat_word_ariths)
  moreover have "0 < unat base" using assms by (simp add: pool_placed_def unat_gt_0)
  ultimately have "0 < unat (turn_mbuf k base j)" by linarith
  then show "turn_mbuf k base j \<noteq> 0" by auto
  have "turn_mbuf k base j - base = of_nat (unat ?i * sizeof_Mbuf)"
    by (simp add: turn_mbuf_def mbuf_addr_def)
  then have "unat (turn_mbuf k base j - base) div sizeof_Mbuf = unat ?i"
    using u by (simp add: sizeof_Mbuf_def)
  then show "mbuf_len base g (turn_mbuf k base j) = pool g ! (j mod 2 ^ Suc k)"
    using i by (simp add: mbuf_len_def)
qed

abbreviation sent :: "workload \<Rightarrow> nat" where "sent s \<equiv> length (enq (wq s))"
abbreviation received :: "workload \<Rightarrow> nat" where "received s \<equiv> length (deq (wq s))"

text \<open>The number of mbufs the producer has taken.\<close>

definition taken :: "workload \<Rightarrow> nat" where
  "taken s = (case pw s of PWriting _ \<Rightarrow> Suc (sent s) | _ \<Rightarrow> sent s)"

definition pool_inv :: "nat \<Rightarrow> nat \<Rightarrow> Global \<Rightarrow> bool" where
  "pool_inv k t g \<longleftrightarrow>
     length (pool g) = 2 ^ Suc k \<and> pool_mask g = mask (Suc k) \<and> pool_idx g = of_nat t \<and>
     (\<forall>j<t. t \<le> j + 2 ^ Suc k \<longrightarrow> pool g ! (j mod 2 ^ Suc k) = of_nat j)"

definition prod_inv :: "nat \<Rightarrow> u64 \<Rightarrow> workload \<Rightarrow> bool" where
  "prod_inv k base s \<longleftrightarrow>
     pool_inv k (taken s) (glob s) \<and> enq (wq s) = map (turn_mbuf k base) [0..<sent s] \<and>
     (case pw s of
        PWriting m \<Rightarrow> m = turn_mbuf k base (sent s) \<and>
          (case ppc (wq s) of PIdle \<Rightarrow> True | PChecked m' _ _ \<Rightarrow> m' = m | PStored m' _ \<Rightarrow> m' = m)
      | _ \<Rightarrow> ppc (wq s) = PIdle)"

definition sum_below :: "nat \<Rightarrow> u32" where
  "sum_below d = of_nat (\<Sum>i<d. i)"

definition cons_inv :: "nat \<Rightarrow> u64 \<Rightarrow> workload \<Rightarrow> bool" where
  "cons_inv k base s \<longleftrightarrow>
     (cw s \<noteq> CReading \<longrightarrow> cpc (wq s) = CIdle) \<and>
     (case cw s of
        CCount m \<Rightarrow> \<exists>d. received s = Suc d \<and> m = turn_mbuf k base d \<and> pkt_cnt s = of_nat d \<and> csum s = sum_below d
      | CPut m \<Rightarrow> \<exists>d. received s = Suc d \<and> m = turn_mbuf k base d \<and> pkt_cnt s = of_nat (Suc d) \<and> csum s = sum_below d
      | _ \<Rightarrow> pkt_cnt s = of_nat (received s) \<and> csum s = sum_below (received s))"

lemma pool_inv_get:
  assumes "pool_inv k t g" "k < 31"
  shows "\<exists>g'. mbuf_get g 0 = Inr (of_nat t AND mask (Suc k), g') \<and> pool_inv k (Suc t) g'"
proof -
  let ?i = "of_nat t AND mask (Suc k) :: u32"
  have u: "unat ?i = t mod 2 ^ Suc k" using assms(2) by (intro unat_pool_index) simp
  then have lt: "unat ?i < 2 ^ Suc k" by (simp only: mod_less_divisor zero_less_power zero_less_numeral)
  define g' where "g' = g\<lparr>pool := (pool g)[t mod 2 ^ Suc k := of_nat t], pool_idx := of_nat t + 1\<rparr>"
  have "mbuf_get g 0 = Inr (?i, g')"
    using assms(1) lt u by (simp add: mbuf_get_def pool_inv_def Let_def g'_def)
  moreover have "pool_inv k (Suc t) g'"
    unfolding pool_inv_def
  proof (intro conjI allI impI)
    fix j assume j: "j < Suc t" "Suc t \<le> j + 2 ^ Suc k"
    show "pool g' ! (j mod 2 ^ Suc k) = of_nat j"
    proof (cases "j = t")
      case True
      then show ?thesis using assms(1) by (simp add: g'_def pool_inv_def)
    next
      case False
      then have "j mod 2 ^ Suc k \<noteq> t mod 2 ^ Suc k" using j by (intro mod_distinct) auto
      then show ?thesis using assms(1) False j by (simp add: g'_def pool_inv_def)
    qed
  qed (use assms(1) in \<open>simp_all add: g'_def pool_inv_def add.commute\<close>)
  ultimately show ?thesis by blast
qed

lemma prod_step:
  assumes "workload_step smap base s s'" "prod_inv k base s" "k < 31"
  shows "prod_inv k base s'"
  using assms
proof (induction rule: workload_step.induct)
  case (p_mbuf s i g)
  obtain g' where "mbuf_get (glob s) 0 = Inr (of_nat (taken s) AND mask (Suc k), g')"
    "pool_inv k (Suc (taken s)) g'"
    using pool_inv_get [of k "taken s" "glob s"] p_mbuf by (auto simp: prod_inv_def)
  then show ?case using p_mbuf by (auto simp: prod_inv_def taken_def turn_mbuf_def)
qed (auto simp: prod_inv_def taken_def split: prod_pc.splits)

lemma cons_step:
  assumes "workload_step smap base s s'" "prod_inv k base s" "cons_inv k base s" "pool_placed k base"
    and "spsc_inv smap (wq s)" "sent s < received s + 2 ^ k"
  shows "cons_inv k base s'"
  using assms
proof (induction rule: workload_step.induct)
  case (r_advance s rd m)
  then have inv: "blq_wf smap (bq (wq s))" "rd = blq_read (bq (wq s))"
    "blq_read (bq (wq s)) \<noteq> blq_write (bq (wq s))" "slot_at smap (bq (wq s)) rd = m"
    "enq (wq s) = deq (wq s) @ blq_contents smap (bq (wq s))"
    by (auto simp: spsc_inv_def consumer_inv_def)
  have m: "enq (wq s) ! received s = m" "received s < sent s"
    using release_slot(2) [OF inv(1,3)] inv(2,4,5) by (auto simp: nth_append)
  have "enq (wq s) = map (turn_mbuf k base) [0..<sent s]"
    using r_advance(3) by (simp only: prod_inv_def)
  then have "enq (wq s) ! received s = map (turn_mbuf k base) [0..<sent s] ! received s" by (rule arg_cong)
  then have "m = turn_mbuf k base (received s)" using m by (simp only: nth_map_upt) simp
  then show ?case
    using r_advance turn_mbuf(1) [of k base "received s"] by (auto simp: cons_inv_def)
next
  case (c_put s m c t)
  then obtain d where d: "received s = Suc d" "m = turn_mbuf k base d"
    "pkt_cnt s = of_nat (Suc d)" "csum s = sum_below d"
    by (auto simp: cons_inv_def)
  have "received s \<le> sent s" using c_put by (simp add: spsc_inv_def)
  then have "d < taken s" "taken s \<le> d + 2 ^ Suc k"
    using d c_put by (auto simp: taken_def split: prod_pc.splits)
  then have "mbuf_len base (glob s) m = of_nat d"
    using c_put d turn_mbuf(2) by (simp add: prod_inv_def pool_inv_def)
  then show ?case using c_put d
    by (auto simp: cons_inv_def mbuf_put_def sum_below_def lessThan_Suc add.commute)
qed (auto simp: cons_inv_def split: cons_pc.splits)

text \<open>The invariant of the whole program.\<close>

definition workload_inv :: "u16 list \<Rightarrow> nat \<Rightarrow> u64 \<Rightarrow> workload \<Rightarrow> bool" where
  "workload_inv smap k base s \<longleftrightarrow>
     prod_inv k base s \<and> cons_inv k base s \<and> spsc_inv smap (wq s) \<and> qlen (bq (wq s)) = 2 ^ k \<and>
     sent s < received s + 2 ^ k"

lemma workload_reachable_inv:
  assumes "blq_create n = Some q" "n = 2 ^ k" "k \<le> 16" "pool_placed k base"
    and "(workload_step (qslotmap_init (2 ^ k)) base)\<^sup>*\<^sup>* (workload_start n q) s"
  shows "workload_inv (qslotmap_init (2 ^ k)) k base s"
proof -
  have un: "unat n = 2 ^ k" using assms(2,3) by (simp add: unat_pow2)
  have k: "k < 31" using assms(3) by simp
  have le: "unat n \<le> 65536" using power_increasing [OF assms(3), of "2 :: nat"] un by simp
  have queue: "spsc_inv (qslotmap_init (2 ^ k)) (wq s)" "qlen (bq (wq s)) = 2 ^ k" "sent s < received s + 2 ^ k"
    if "(workload_step (qslotmap_init (2 ^ k)) base)\<^sup>*\<^sup>* (workload_start n q) s" for s
  proof -
    have r: "(spsc_step (qslotmap_init (2 ^ k)))\<^sup>*\<^sup>* (spsc_start q) (wq s)"
      using workload_queue_reachable [OF that] by (simp add: workload_start_def)
    note c = spsc_created_inv [OF assms(1) le _ r, unfolded un, OF refl]
    show "spsc_inv (qslotmap_init (2 ^ k)) (wq s)" "sent s < received s + 2 ^ k"
      using c by (auto simp: spsc_inv_def)
    have "qlen q = n" using assms(1) by (auto simp: blq_create_def blq_init_def Let_def split: if_splits)
    then show "qlen (bq (wq s)) = 2 ^ k"
      using spsc_reachable_qlen [OF r] assms(2) by (simp add: spsc_start_def)
  qed
  have "prod_inv k base s \<and> cons_inv k base s"
    using assms(5)
  proof (induction rule: rtranclp_induct)
    case base
    then show ?case using pool_init_mask [OF assms(2) k]
      by (simp add: workload_start_def prod_inv_def cons_inv_def pool_inv_def taken_def spsc_start_def sum_below_def)
  next
    case (step s s')
    then show ?case
      using prod_step [OF step(2) _ k] cons_step [OF step(2) _ _ assms(4)] queue [OF step(1)] by blast
  qed
  then show ?thesis using queue [OF assms(5)] by (simp add: workload_inv_def)
qed

text \<open>Neither the mbuf pool nor the slots are left, whatever the threads do next.\<close>

lemma workload_inv_accesses:
  assumes "workload_inv smap k base s" "k < 31"
  shows "\<exists>i g. mbuf_get (glob s) 0 = Inr (i, g)"
    and "ppc (wq s) = PChecked m wr nxt \<Longrightarrow> slot_ok smap (bq (wq s)) wr"
    and "cpc (wq s) = CChecked rd \<Longrightarrow> slot_ok smap (bq (wq s)) rd"
proof -
  show "\<exists>i g. mbuf_get (glob s) 0 = Inr (i, g)"
    using pool_inv_get [of k "taken s" "glob s"] assms by (auto simp: workload_inv_def prod_inv_def)
  have wf: "blq_wf smap (bq (wq s))" using assms(1) by (simp add: workload_inv_def spsc_inv_def)
  show "slot_ok smap (bq (wq s)) wr" if "ppc (wq s) = PChecked m wr nxt"
    using assms(1) that blq_wf_slot(1) [OF wf] blq_wf_less [OF wf]
    by (auto simp: workload_inv_def spsc_inv_def producer_inv_def)
  show "slot_ok smap (bq (wq s)) rd" if "cpc (wq s) = CChecked rd"
    using assms(1) that blq_wf_slot(1) [OF wf] blq_wf_less [OF wf]
    by (auto simp: workload_inv_def spsc_inv_def consumer_inv_def)
qed

section \<open>Stopping the program\<close>

text \<open>
  A state from which only the consumer's end and repeated attempts to write are possible.
\<close>

definition stuck :: "workload \<Rightarrow> bool" where
  "stuck s \<longleftrightarrow> stop s \<and> cw s = CEnd \<and> (\<exists>m. pw s = PWriting m) \<and> ppc (wq s) = PIdle \<and>
     next_slot (bq (wq s)) (blq_write (bq (wq s))) = blq_read (bq (wq s))"

lemma stuck_step: "workload_step smap base s s' \<Longrightarrow> stuck s \<Longrightarrow> s' = s"
  by (erule workload_step.cases) (auto simp: stuck_def)

lemma stuck_forever: "(workload_step smap base)\<^sup>*\<^sup>* s s' \<Longrightarrow> stuck s \<Longrightarrow> s' = s"
  by (induction rule: rtranclp_induct) (auto dest: stuck_step)

lemma take_mbuf:
  assumes "workload_inv smap k base s" "k < 31" "pw s = PTest" "\<not> stop s"
  obtains m g where "(workload_step smap base)\<^sup>*\<^sup>* s (s\<lparr>glob := g, pw := PWriting m\<rparr>)"
proof -
  obtain i g where g: "mbuf_get (glob s) 0 = Inr (i, g)" using workload_inv_accesses(1) [OF assms(1,2)] by blast
  have a: "workload_step smap base s (s\<lparr>pw := PGet\<rparr>)" using assms by (intro p_go)
  have b: "workload_step smap base (s\<lparr>pw := PGet\<rparr>) (s\<lparr>glob := g, pw := PWriting (mbuf_addr base i)\<rparr>)"
    using p_mbuf [of "s\<lparr>pw := PGet\<rparr>" i g smap base] g by simp
  show ?thesis by (rule that, rule converse_rtranclp_into_rtranclp, rule a, rule r_into_rtranclp, rule b)
qed

lemma queue_full_iff:
  assumes "workload_inv smap k base s" "k < 31"
  shows "next_slot (bq (wq s)) (blq_write (bq (wq s))) = blq_read (bq (wq s)) \<longleftrightarrow>
         sent s = received s + 2 ^ k - 1"
proof -
  have wf: "blq_wf smap (bq (wq s))" and e: "sent s = received s + length (blq_contents smap (bq (wq s)))"
    using assms(1) by (auto simp: workload_inv_def spsc_inv_def)
  have "unat (qlen (bq (wq s))) = 2 ^ k" using assms by (simp add: workload_inv_def unat_pow2)
  then show ?thesis using blq_full_iff [OF wf] e by auto
qed

lemma send_one:
  assumes "workload_inv smap k base s" "k < 31" "pw s = PTest" "\<not> stop s" "Suc (sent s) < received s + 2 ^ k"
  obtains s' where "(workload_step smap base)\<^sup>*\<^sup>* s s'" "pw s' = PTest" "\<not> stop s'" "cw s' = cw s"
    "sent s' = Suc (sent s)" "received s' = received s"
proof -
  obtain m g where take: "(workload_step smap base)\<^sup>*\<^sup>* s (s\<lparr>glob := g, pw := PWriting m\<rparr>)"
    using take_mbuf [OF assms(1-4)] .
  let ?q = "wq s"
  let ?wr = "blq_write (bq ?q)"
  let ?nx = "next_slot (bq ?q) ?wr"
  let ?a = "s\<lparr>glob := g, pw := PWriting m\<rparr>"
  let ?b = "?a\<lparr>wq := ?q\<lparr>ppc := PChecked m ?wr ?nx\<rparr>\<rparr>"
  let ?c = "?b\<lparr>wq := (wq ?b)\<lparr>bq := store_slot smap ?wr m (bq (wq ?b)), ppc := PStored m ?nx\<rparr>\<rparr>"
  let ?d = "?c\<lparr>pw := PTest, wq := (wq ?c)\<lparr>bq := (bq (wq ?c))\<lparr>blq_write := ?nx\<rparr>, ppc := PIdle,
      enq := enq (wq ?c) @ [m]\<rparr>\<rparr>"
  have idle: "ppc ?q = PIdle" using assms by (simp add: workload_inv_def prod_inv_def)
  have "?nx \<noteq> blq_read (bq ?q)" using queue_full_iff [OF assms(1,2)] assms(5) by auto
  then have "workload_step smap base ?a ?b"
    using w_check [of ?a m smap base] idle by simp
  moreover have "workload_step smap base ?b ?c" by (rule w_store) simp_all
  moreover have "workload_step smap base ?c ?d" by (rule w_publish) simp_all
  ultimately have "(workload_step smap base)\<^sup>*\<^sup>* s ?d"
    using take by (meson rtranclp.rtrancl_into_rtrancl)
  then show ?thesis using assms(4) by (intro that [of ?d]) simp_all
qed

lemma queue_fills_up:
  assumes "blq_create n = Some q" "n = 2 ^ k" "k \<le> 16" "pool_placed k base" "e < 2 ^ k"
  shows "\<exists>s. (workload_step (qslotmap_init (2 ^ k)) base)\<^sup>*\<^sup>* (workload_start n q) s \<and>
    pw s = PTest \<and> \<not> stop s \<and> cw s = CTest \<and> sent s = e \<and> received s = 0"
  using assms(5)
proof (induction e)
  case 0
  let ?s = "workload_start n q"
  have "blq_read q = 0" "blq_write q = 0"
    using assms(1) by (auto simp: blq_create_def blq_init_def Let_def split: if_splits)
  then have "workload_step (qslotmap_init (2 ^ k)) base ?s (?s\<lparr>cw := CTest\<rparr>)"
    by (intro r_empty) (simp_all add: workload_start_def spsc_start_def)
  then have "(workload_step (qslotmap_init (2 ^ k)) base)\<^sup>*\<^sup>* ?s (?s\<lparr>cw := CTest\<rparr>)" by simp
  then show ?case by (intro exI [of _ "?s\<lparr>cw := CTest\<rparr>"]) (simp add: workload_start_def spsc_start_def)
next
  case (Suc e)
  then obtain s where s: "(workload_step (qslotmap_init (2 ^ k)) base)\<^sup>*\<^sup>* (workload_start n q) s"
    "pw s = PTest" "\<not> stop s" "cw s = CTest" "sent s = e" "received s = 0"
    by auto
  have inv: "workload_inv (qslotmap_init (2 ^ k)) k base s"
    using workload_reachable_inv [OF assms(1-4) s(1)] .
  obtain s' where s': "(workload_step (qslotmap_init (2 ^ k)) base)\<^sup>*\<^sup>* s s'" "pw s' = PTest" "\<not> stop s'"
    "cw s' = cw s" "sent s' = Suc (sent s)" "received s' = received s"
    using send_one [OF inv _ s(2,3)] Suc.prems s(5,6) assms(3) by force
  have "(workload_step (qslotmap_init (2 ^ k)) base)\<^sup>*\<^sup>* (workload_start n q) s'"
    using s(1) s'(1) by simp
  then show ?case using s s' by (intro exI [of _ s']) simp
qed

text \<open>The signal arrives while the queue is full and the consumer is about to test \<^verbatim>\<open>stop\<close>.\<close>

lemma stuck_reachable:
  assumes "blq_create n = Some q" "n = 2 ^ k" "k \<le> 16" "pool_placed k base"
  shows "\<exists>s. (workload_step (qslotmap_init (2 ^ k)) base)\<^sup>*\<^sup>* (workload_start n q) s \<and> stuck s"
proof -
  let ?step = "workload_step (qslotmap_init (2 ^ k)) base"
  have "(2 :: nat) ^ k - 1 < 2 ^ k" by simp
  then obtain s where s: "?step\<^sup>*\<^sup>* (workload_start n q) s" "pw s = PTest" "\<not> stop s" "cw s = CTest"
    "sent s = 2 ^ k - 1" "received s = 0"
    using queue_fills_up [OF assms] by blast
  have inv: "workload_inv (qslotmap_init (2 ^ k)) k base s"
    using workload_reachable_inv [OF assms s(1)] .
  have k: "k < 31" using assms(3) by simp
  obtain m g where take: "?step\<^sup>*\<^sup>* s (s\<lparr>glob := g, pw := PWriting m\<rparr>)"
    using take_mbuf [OF inv k s(2,3)] .
  let ?a = "s\<lparr>glob := g, pw := PWriting m\<rparr>"
  have "?step ?a (?a\<lparr>stop := True\<rparr>)" by (rule sigint [simplified])
  moreover have "?step (?a\<lparr>stop := True\<rparr>) (?a\<lparr>stop := True, cw := CEnd\<rparr>)"
    using c_end [of "?a\<lparr>stop := True\<rparr>"] s(4) by simp
  ultimately have "?step\<^sup>*\<^sup>* (workload_start n q) (?a\<lparr>stop := True, cw := CEnd\<rparr>)"
    using s(1) take by (meson rtranclp.rtrancl_into_rtrancl rtranclp_trans)
  moreover have "stuck (?a\<lparr>stop := True, cw := CEnd\<rparr>)"
    using queue_full_iff [OF inv k] inv s by (simp add: stuck_def workload_inv_def prod_inv_def)
  ultimately show ?thesis by blast
qed

section \<open>Properties of the program\<close>

lemma main_init_queue:
  assumes "spscq_main_init shuf g mem1 0 mem2 = Inr (smap, base, Some s0)"
    and "\<not> deceive_hw_data_prefetcher g"
  obtains q where "blq_create (g_qlen g) = Some q" "s0 = workload_start (g_qlen g) q"
    "smap = qslotmap_init (unat (g_qlen g))"
  using assms by (auto simp: spscq_main_init_def Let_def split: alloc_result.splits)

lemma main_init_params:
  assumes "spscq_main_init shuf g mem1 0 mem2 = Inr (smap, base, Some s0)"
    and "\<not> deceive_hw_data_prefetcher g" "n = g_qlen g" "unat n \<le> 65536" "base \<noteq> 0" "unat base + 2 * unat n * sizeof_Mbuf < 2 ^ 64"
  obtains q k where "blq_create n = Some q" "n = 2 ^ k" "k \<le> 16" "pool_placed k base"
    "smap = qslotmap_init (2 ^ k)" "s0 = workload_start n q"
proof -
  obtain q where q: "blq_create n = Some q" "s0 = workload_start n q" "smap = qslotmap_init (unat n)"
    using main_init_queue [OF assms(1,2)] assms(3) by blast
  obtain k where k: "k < 31" "n = 2 ^ k" "unat n = 2 ^ k" using queue_length_power [OF q(1)] .
  have "(2 :: nat) ^ k \<le> 2 ^ 16" using assms(4) k by simp
  then have "k \<le> 16" by (simp only: power_increasing_iff one_less_numeral_iff semiring_norm)
  moreover have "pool_placed k base" using assms k by (simp add: pool_placed_def)
  ultimately show ?thesis using that q k by simp
qed

text \<open>C8.  The composition of the pool, the queue and the two threads, interleaved at every
  shared access and interrupted by the signal at any time: no access leaves the pool or the
  slots, and whenever the consumer is between two packets it has counted exactly the packets
  it received and its checksum is the sum of their numbers, modulo the width of the counters.
  So no packet is lost, doubled or overwritten in flight.\<close>

theorem workload_checksum:
  assumes "spscq_main_init shuf g mem1 0 mem2 = Inr (smap, base, Some s0)"
    and "\<not> deceive_hw_data_prefetcher g" "n = g_qlen g" "unat n \<le> 65536" "base \<noteq> 0" "unat base + 2 * unat n * sizeof_Mbuf < 2 ^ 64"
    and "(workload_step smap base)\<^sup>*\<^sup>* s0 s"
  shows "(cw s \<in> {CReading, CTest, CEnd} \<longrightarrow>
            pkt_cnt s = of_nat (received s) \<and> csum s = of_nat (\<Sum>i<received s. i)) \<and>
         received s \<le> sent s \<and> sent s < received s + unat n \<and>
         (\<exists>i g. mbuf_get (glob s) 0 = Inr (i, g)) \<and>
         (\<forall>m wr nxt. ppc (wq s) = PChecked m wr nxt \<longrightarrow> slot_ok smap (bq (wq s)) wr) \<and>
         (\<forall>rd. cpc (wq s) = CChecked rd \<longrightarrow> slot_ok smap (bq (wq s)) rd)"
proof -
  obtain q k where p: "blq_create n = Some q" "n = 2 ^ k" "k \<le> 16" "pool_placed k base"
    "smap = qslotmap_init (2 ^ k)" "s0 = workload_start n q"
    using main_init_params [OF assms(1-6)] .
  have inv: "workload_inv smap k base s"
    using workload_reachable_inv [OF p(1-4)] assms(7) p(5,6) by simp
  have un: "unat n = 2 ^ k" using p(2,3) by (simp add: unat_pow2)
  have "k < 31" using p(3) by simp
  note acc = workload_inv_accesses [OF inv this]
  show ?thesis
    using inv acc un by (auto simp: workload_inv_def cons_inv_def sum_below_def spsc_inv_def)
qed

definition sample_run :: workload where
  "sample_run = workload_start 4 sample_blq"

lemma sample_run_init:
  "spscq_main_init shuf (Global_new\<lparr>g_qlen := 4\<rparr>) (Some 4096) 0 (Some 8192) =
   Inr (qslotmap_init 4, 4096, Some sample_run)"
  by (simp add: Global_new_def spscq_main_init_def szalloc_def Let_def sample_blq_create sample_run_def)

theorem workload_checksum_witness:
  "\<exists>s. (workload_step (qslotmap_init 4) 4096)\<^sup>*\<^sup>* sample_run s \<and> cw s = CEnd \<and>
     pkt_cnt s = of_nat (received s) \<and> csum s = of_nat (\<Sum>i<received s. i)"
proof -
  let ?a = "sample_run\<lparr>cw := CTest\<rparr>"
  have "workload_step (qslotmap_init 4) 4096 sample_run ?a"
    by (rule r_empty) (simp_all add: sample_run_def workload_start_def spsc_start_def sample_blq_def)
  moreover have "workload_step (qslotmap_init 4) 4096 ?a (?a\<lparr>stop := True\<rparr>)" by (rule sigint [simplified])
  moreover have "workload_step (qslotmap_init 4) 4096 (?a\<lparr>stop := True\<rparr>) (?a\<lparr>stop := True, cw := CEnd\<rparr>)"
    using c_end [of "?a\<lparr>stop := True\<rparr>"] by simp
  ultimately have r: "(workload_step (qslotmap_init 4) 4096)\<^sup>*\<^sup>* sample_run (?a\<lparr>stop := True, cw := CEnd\<rparr>)"
    by (meson converse_rtranclp_into_rtranclp rtranclp.rtrancl_refl)
  have "\<not> deceive_hw_data_prefetcher (Global_new\<lparr>g_qlen := 4\<rparr>)" "4 = g_qlen (Global_new\<lparr>g_qlen := 4\<rparr>)"
    "unat (4 :: u32) \<le> 65536" "(4096 :: u64) \<noteq> 0"
    "unat (4096 :: u64) + 2 * unat (4 :: u32) * sizeof_Mbuf < 2 ^ 64"
    by (simp_all add: sizeof_Mbuf_def Global_new_def)
  from workload_checksum [OF sample_run_init this r] r show ?thesis by (intro exI conjI) auto
qed

text \<open>C14.  Stopping the program may hang: the producer's inner loop does not test \<^verbatim>\<open>stop\<close>.  For
  every queue length there is a run in which the signal arrives while the queue is full and
  the consumer is about to test \<^verbatim>\<open>stop\<close>; the consumer ends, and from then on the producer
  never does, so that \<^verbatim>\<open>main\<close> waits for it forever.\<close>

theorem signal_can_hang_program:
  assumes "spscq_main_init shuf g mem1 0 mem2 = Inr (smap, base, Some s0)"
    and "\<not> deceive_hw_data_prefetcher g" "n = g_qlen g" "unat n \<le> 65536" "base \<noteq> 0" "unat base + 2 * unat n * sizeof_Mbuf < 2 ^ 64"
  shows "\<exists>s. (workload_step smap base)\<^sup>*\<^sup>* s0 s \<and> stop s \<and> cw s = CEnd \<and>
             (\<forall>s'. (workload_step smap base)\<^sup>*\<^sup>* s s' \<longrightarrow> pw s' \<noteq> PEnd)"
proof -
  obtain q k where p: "blq_create n = Some q" "n = 2 ^ k" "k \<le> 16" "pool_placed k base"
    "smap = qslotmap_init (2 ^ k)" "s0 = workload_start n q"
    using main_init_params [OF assms] .
  then obtain s where s: "(workload_step smap base)\<^sup>*\<^sup>* s0 s" "stuck s"
    using stuck_reachable [OF p(1-4)] by auto
  then have "pw s' \<noteq> PEnd" if "(workload_step smap base)\<^sup>*\<^sup>* s s'" for s'
    using stuck_forever [OF that] by (auto simp: stuck_def)
  then show ?thesis using s by (auto simp: stuck_def)
qed

theorem signal_can_hang_program_witness:
  "\<exists>s. (workload_step (qslotmap_init 4) 4096)\<^sup>*\<^sup>* sample_run s \<and> stop s \<and> cw s = CEnd \<and>
       (\<forall>s'. (workload_step (qslotmap_init 4) 4096)\<^sup>*\<^sup>* s s' \<longrightarrow> pw s' \<noteq> PEnd)"
  by (rule signal_can_hang_program [OF sample_run_init, where n = 4]) (simp_all add: sizeof_Mbuf_def Global_new_def)

text \<open>
  The rate that \<^verbatim>\<open>main\<close> prints at the end is the number of packets per microsecond up to a
  relative error of \<open>2^-51\<close>, for runs shorter than about 104 days; with huge pages 768 bytes
  of the queue are unmapped.
\<close>

lemma printed_rate:
  fixes ns :: int and s :: workload
  assumes "0 < ns" "ns < 2 ^ 53"
  defines "rate \<equiv> of_nat (unat (pkt_cnt s)) * 1000 / of_int ns"
  shows "\<exists>r. fst (spscq_main_end g ns s) = Some r \<and> \<bar>r - rate\<bar> \<le> rate / 2 ^ 51"
    and "hugepages g \<Longrightarrow> fst (snd (spscq_main_end g ns s)) = Munmap 768"
proof -
  have "double_of (of_int ns) = of_int ns"
    using assms(1,2) by (intro double_of_exact [where k = 53 and n = 0 and i = ns]) simp_all
  then show "\<exists>r. fst (spscq_main_end g ns s) = Some r \<and> \<bar>r - rate\<bar> \<le> rate / 2 ^ 51"
    using double_chain [OF of_nat_0_le_iff, of "of_int ns" 1000 "unat (pkt_cnt s)"] assms
    by (simp add: spscq_main_end_def dmult_def ddiv_def)
  show "hugepages g \<Longrightarrow> fst (snd (spscq_main_end g ns s)) = Munmap 768"
    by (simp add: spscq_main_end_def blq_free_unmaps_header)
qed

end
