(* ===== verification/Spscq_Progress.thy ===== *)
theory Spscq_Progress
  imports Spscq_Main
begin

text \<open>
  Progress of the queue program.  The two threads as functions that take one step, a run as
  a schedule of their steps, and what every fair schedule leads to: before the signal packets
  keep arriving, after it the program ends or the producer is caught in front of a full queue.
\<close>

section \<open>Fair schedules\<close>

primrec run :: "('t \<Rightarrow> 's \<Rightarrow> 's) \<Rightarrow> (nat \<Rightarrow> 't) \<Rightarrow> 's \<Rightarrow> nat \<Rightarrow> 's" where
  "run turn sched s 0 = s"
| "run turn sched s (Suc i) = turn (sched i) (run turn sched s i)"

definition fair :: "(nat \<Rightarrow> 't) \<Rightarrow> bool" where
  "fair sched \<longleftrightarrow> (\<forall>t i. \<exists>j\<ge>i. sched j = t)"

text \<open>Threads that take turns and keep an invariant.\<close>

locale scheduled =
  fixes turn :: "'t \<Rightarrow> 's \<Rightarrow> 's" and inv :: "'s \<Rightarrow> bool"
  assumes inv_turn: "inv s \<Longrightarrow> inv (turn t s)"
begin

lemma inv_run: "inv s \<Longrightarrow> inv (run turn sched s i)"
  by (induction i) (simp_all add: inv_turn)

text \<open>
  Thread \<open>t\<close> brings about \<open>Q\<close>: each of its turns gets closer, and no turn of another thread
  takes it further away.
\<close>

lemma leads_to:
  assumes "fair sched" "inv s" "P (run turn sched s n)"
    and others: "\<And>x u. inv x \<Longrightarrow> P x \<Longrightarrow> u \<noteq> t \<Longrightarrow> Q (turn u x) \<or> P (turn u x) \<and> d (turn u x) \<le> (d x :: nat)"
    and self: "\<And>x. inv x \<Longrightarrow> P x \<Longrightarrow> Q (turn t x) \<or> P (turn t x) \<and> d (turn t x) < d x"
  shows "\<exists>m>n. Q (run turn sched s m)"
  using assms(3)
proof (induction "d (run turn sched s n)" arbitrary: n rule: less_induct)
  case less
  let ?r = "run turn sched s"
  have wait: "(\<exists>m>n. Q (?r m)) \<or> P (?r (n + k)) \<and> d (?r (n + k)) \<le> d (?r n)"
    if "\<forall>j<k. sched (n + j) \<noteq> t" for k
    using that
  proof (induction k)
    case (Suc k)
    show ?case
    proof (cases "\<exists>m>n. Q (?r m)")
      case False
      then have P: "P (?r (n + k))" "d (?r (n + k)) \<le> d (?r n)" using Suc by auto
      have "\<not> Q (?r (Suc (n + k)))" using False less_add_Suc1 by blast
      then show ?thesis
        using others [OF inv_run [OF assms(2)] P(1), of "sched (n + k)"] Suc.prems P(2) by auto
    qed simp
  qed (use less.prems in simp)
  obtain j where "j \<ge> n" "sched j = t" using assms(1) by (auto simp: fair_def)
  then have "\<exists>k. sched (n + k) = t" by (auto intro: exI [of _ "j - n"])
  then obtain k where k: "sched (n + k) = t" "\<forall>j<k. sched (n + j) \<noteq> t"
    using exists_least_iff [of "\<lambda>k. sched (n + k) = t"] by blast
  show ?case
  proof (cases "\<exists>m>n. Q (?r m)")
    case False
    then have P: "P (?r (n + k))" "d (?r (n + k)) \<le> d (?r n)" using wait [OF k(2)] by auto
    have "\<not> Q (?r (Suc (n + k)))" using False less_add_Suc1 by blast
    then have "P (?r (Suc (n + k)))" "d (?r (Suc (n + k))) < d (?r (n + k))"
      using self [OF inv_run [OF assms(2)] P(1)] k(1) by auto
    then show ?thesis using less.hyps [of "Suc (n + k)"] P(2) by (meson Suc_lessD le_less_trans less_le_trans le_add1)
  qed
qed

end

section \<open>The threads as functions\<close>

datatype thread = Producer | Consumer

definition producer_turn :: "u16 list \<Rightarrow> u64 \<Rightarrow> workload \<Rightarrow> workload" where
  "producer_turn smap base s =
     (case pw s of
        PTest \<Rightarrow> if stop s then s\<lparr>pw := PEnd\<rparr> else s\<lparr>pw := PGet\<rparr>
      | PGet \<Rightarrow>
          (case mbuf_get (glob s) 0 of
             Inr (i, g) \<Rightarrow> s\<lparr>glob := g, pw := PWriting (mbuf_addr base i)\<rparr>
           | Inl e \<Rightarrow> s)
      | PWriting m \<Rightarrow>
          (let w = wq s in
           case ppc w of
             PIdle \<Rightarrow>
               (let wr = blq_write (bq w); nxt = next_slot (bq w) wr in
                if nxt = blq_read (bq w) then s else s\<lparr>wq := w\<lparr>ppc := PChecked m wr nxt\<rparr>\<rparr>)
           | PChecked m' wr nxt \<Rightarrow> s\<lparr>wq := w\<lparr>bq := store_slot smap wr m' (bq w), ppc := PStored m' nxt\<rparr>\<rparr>
           | PStored m' nxt \<Rightarrow>
               s\<lparr>pw := PTest, wq := w\<lparr>bq := (bq w)\<lparr>blq_write := nxt\<rparr>, ppc := PIdle, enq := enq w @ [m']\<rparr>\<rparr>)
      | PEnd \<Rightarrow> s)"

definition consumer_turn :: "u16 list \<Rightarrow> u64 \<Rightarrow> workload \<Rightarrow> workload" where
  "consumer_turn smap base s =
     (case cw s of
        CReading \<Rightarrow>
          (let w = wq s in
           case cpc w of
             CIdle \<Rightarrow>
               if blq_read (bq w) = blq_write (bq w) then s\<lparr>cw := CTest\<rparr>
               else s\<lparr>wq := w\<lparr>cpc := CChecked (blq_read (bq w))\<rparr>\<rparr>
           | CChecked rd \<Rightarrow> s\<lparr>wq := w\<lparr>cpc := CLoaded rd (slot_at smap (bq w) rd)\<rparr>\<rparr>
           | CLoaded rd m \<Rightarrow>
               s\<lparr>cw := (if m = 0 then CTest else CCount m),
                 wq := w\<lparr>bq := (bq w)\<lparr>blq_read := next_slot (bq w) rd\<rparr>, cpc := CIdle, deq := deq w @ [m]\<rparr>\<rparr>)
      | CCount m \<Rightarrow> s\<lparr>pkt_cnt := pkt_cnt s + 1, cw := CPut m\<rparr>
      | CPut m \<Rightarrow>
          (let (c, t) = mbuf_put m (mbuf_len base (glob s) m) (csum s, trash s)
           in s\<lparr>csum := c, trash := t, cw := CTest\<rparr>)
      | CTest \<Rightarrow> if stop s then s\<lparr>cw := CEnd\<rparr> else s\<lparr>cw := CReading\<rparr>
      | CEnd \<Rightarrow> s)"

fun turn :: "u16 list \<Rightarrow> u64 \<Rightarrow> thread \<Rightarrow> workload \<Rightarrow> workload" where
  "turn smap base Producer s = producer_turn smap base s"
| "turn smap base Consumer s = consumer_turn smap base s"

text \<open>The functions and the step relation describe the same threads.\<close>

lemma step_is_turn:
  "workload_step smap base s s' \<Longrightarrow> s' = s\<lparr>stop := True\<rparr> \<or> (\<exists>t. s' = turn smap base t s)"
  by (induction rule: workload_step.induct)
    (auto simp: producer_turn_def consumer_turn_def Let_def intro: exI [of _ Producer] exI [of _ Consumer])

lemma turn_is_step:
  assumes "\<exists>i g. mbuf_get (glob s) 0 = Inr (i, g)"
  shows "turn smap base t s = s \<or> workload_step smap base s (turn smap base t s)"
proof (cases t)
  case Producer
  then show ?thesis
    using assms
    by (auto simp: producer_turn_def Let_def intro: workload_step.intros
        split: prod_pc.splits producer_pc.splits)
next
  case Consumer
  have adv: "workload_step smap base s (s\<lparr>cw := c,
      wq := (wq s)\<lparr>bq := (bq (wq s))\<lparr>blq_read := next_slot (bq (wq s)) rd\<rparr>, cpc := CIdle, deq := deq (wq s) @ [m]\<rparr>\<rparr>)"
    if "cw s = CReading" "cpc (wq s) = CLoaded rd m" "c = (if m = 0 then CTest else CCount m)" for rd m c
    using r_advance [OF that(1,2)] that(3) by simp
  from Consumer show ?thesis
    by (auto simp: consumer_turn_def Let_def intro: workload_step.intros adv
        split: cons_pc.splits consumer_pc.splits prod.splits)
qed

section \<open>The invariant along a run\<close>

lemma workload_step_inv:
  assumes "workload_step smap base s s'" "workload_inv smap k base s" "pool_placed k base"
  shows "workload_inv smap k base s'"
proof -
  have k: "k < 31" using assms(3) by (simp add: pool_placed_def)
  have q: "spsc_inv smap (wq s')" "qlen (bq (wq s')) = 2 ^ k"
    using workload_step_queue [OF assms(1)] assms(2) spsc_step_inv [of smap "wq s" "wq s'"]
      spsc_reachable_qlen [of smap "wq s" "wq s'"]
    by (auto simp: workload_inv_def)
  then have wf: "blq_wf smap (bq (wq s'))" "sent s' = received s' + length (blq_contents smap (bq (wq s')))"
    by (auto simp: spsc_inv_def)
  have "length (slots (bq (wq s'))) = 2 ^ k" using wf(1) q(2) k by (simp add: blq_wf_def unat_pow2)
  then have "length (blq_contents smap (bq (wq s'))) < 2 ^ k"
    using blq_contents_bound [OF wf(1)] by (metis Suc_pred' less_Suc_eq_le zero_less_numeral zero_less_power)
  then show ?thesis
    using prod_step [OF assms(1) _ k] cons_step [OF assms(1) _ _ assms(3)] assms(2) q wf(2)
    by (simp add: workload_inv_def)
qed

definition running_inv :: "u16 list \<Rightarrow> nat \<Rightarrow> u64 \<Rightarrow> workload \<Rightarrow> bool" where
  "running_inv smap k base s \<longleftrightarrow>
     workload_inv smap k base s \<and> pool_placed k base \<and> 1 \<le> k \<and>
     (pw s = PEnd \<longrightarrow> stop s) \<and> (cw s = CEnd \<longrightarrow> stop s)"

lemma turn_ends:
  "pw (turn smap base t s) = PEnd \<Longrightarrow> pw s = PEnd \<or> stop s"
  "cw (turn smap base t s) = CEnd \<Longrightarrow> cw s = CEnd \<or> stop s"
  "stop (turn smap base t s) = stop s"
  by (cases t; auto simp: producer_turn_def consumer_turn_def Let_def
      split: prod_pc.splits producer_pc.splits cons_pc.splits consumer_pc.splits prod.splits sum.splits if_splits)+

interpretation spscq: scheduled "turn smap base" "running_inv smap k base" for smap k base
proof (unfold_locales, goal_cases)
  case (1 s t)
  then have k: "k < 31" "workload_inv smap k base s" by (simp_all add: running_inv_def pool_placed_def)
  have "workload_inv smap k base (turn smap base t s)"
    using turn_is_step [OF workload_inv_accesses(1) [OF k(2,1)], of smap base t]
      workload_step_inv [of smap base s "turn smap base t s" k] 1
    by (auto simp: running_inv_def)
  then show ?case using 1 turn_ends [of smap base t s] by (auto simp: running_inv_def)
qed

section \<open>Before the signal\<close>

text \<open>How many turns the consumer needs at most to take the next packet out of a queue that
  is not empty, and the producer to put one into a queue that is not full.\<close>

definition consumer_distance :: "workload \<Rightarrow> nat" where
  "consumer_distance s =
     (case cw s of
        CReading \<Rightarrow> (case cpc (wq s) of CLoaded _ _ \<Rightarrow> 1 | CChecked _ \<Rightarrow> 2 | CIdle \<Rightarrow> 3)
      | CTest \<Rightarrow> 4 | CPut _ \<Rightarrow> 5 | CCount _ \<Rightarrow> 6 | CEnd \<Rightarrow> 0)"

definition producer_distance :: "workload \<Rightarrow> nat" where
  "producer_distance s =
     (case pw s of
        PWriting _ \<Rightarrow> (case ppc (wq s) of PStored _ _ \<Rightarrow> 1 | PChecked _ _ _ \<Rightarrow> 2 | PIdle \<Rightarrow> 3)
      | PGet \<Rightarrow> 4 | PTest \<Rightarrow> 5 | PEnd \<Rightarrow> 0)"

text \<open>The same for the end of a thread once \<^verbatim>\<open>stop\<close> is set.\<close>

definition consumer_ending :: "workload \<Rightarrow> nat" where
  "consumer_ending s =
     (case cw s of
        CReading \<Rightarrow> (case cpc (wq s) of CLoaded _ _ \<Rightarrow> 4 | CChecked _ \<Rightarrow> 5 | CIdle \<Rightarrow> 6)
      | CCount _ \<Rightarrow> 3 | CPut _ \<Rightarrow> 2 | CTest \<Rightarrow> 1 | CEnd \<Rightarrow> 0)"

definition producer_ending :: "workload \<Rightarrow> nat" where
  "producer_ending s =
     (case pw s of
        PWriting _ \<Rightarrow> (case ppc (wq s) of PStored _ _ \<Rightarrow> 2 | PChecked _ _ _ \<Rightarrow> 3 | PIdle \<Rightarrow> 4)
      | PGet \<Rightarrow> 5 | PTest \<Rightarrow> 1 | PEnd \<Rightarrow> 0)"

lemma producer_keeps_consumer:
  "cw (producer_turn smap base s) = cw s" "cpc (wq (producer_turn smap base s)) = cpc (wq s)"
  "received (producer_turn smap base s) = received s" "sent s \<le> sent (producer_turn smap base s)"
  by (auto simp: producer_turn_def Let_def split: prod_pc.splits producer_pc.splits sum.splits)

lemma consumer_keeps_producer:
  "pw (consumer_turn smap base s) = pw s" "ppc (wq (consumer_turn smap base s)) = ppc (wq s)"
  "sent (consumer_turn smap base s) = sent s" "received s \<le> received (consumer_turn smap base s)"
  by (auto simp: consumer_turn_def Let_def split: cons_pc.splits consumer_pc.splits prod.splits)

lemma distances_kept:
  "consumer_distance (producer_turn smap base s) = consumer_distance s"
  "consumer_ending (producer_turn smap base s) = consumer_ending s"
  "producer_distance (consumer_turn smap base s) = producer_distance s"
  unfolding consumer_distance_def consumer_ending_def producer_distance_def
    producer_keeps_consumer(1,2) consumer_keeps_producer(1,2)
  by (rule refl)+

lemma queue_empty_iff:
  assumes "workload_inv smap k base s"
  shows "blq_read (bq (wq s)) = blq_write (bq (wq s)) \<longleftrightarrow> sent s = received s"
proof -
  have "blq_wf smap (bq (wq s))" "sent s = received s + length (blq_contents smap (bq (wq s)))"
    using assms by (auto simp: workload_inv_def spsc_inv_def)
  then show ?thesis using blq_empty_iff [of smap "bq (wq s)"] by auto
qed

lemma consumer_approaches:
  assumes "running_inv smap k base s" "\<not> stop s" "received s < sent s"
  shows "received s < received (consumer_turn smap base s) \<or>
    received (consumer_turn smap base s) = received s \<and>
    consumer_distance (consumer_turn smap base s) < consumer_distance s"
proof -
  have inv: "workload_inv smap k base s" "cw s \<noteq> CEnd" using assms(1,2) by (auto simp: running_inv_def)
  then have "cw s \<noteq> CReading \<Longrightarrow> cpc (wq s) = CIdle" by (simp add: workload_inv_def cons_inv_def)
  then show ?thesis
    using inv queue_empty_iff [OF inv(1)] assms(2,3)
    by (auto simp: consumer_turn_def consumer_distance_def Let_def
        split: cons_pc.splits consumer_pc.splits prod.splits)
qed

lemma producer_approaches:
  assumes "running_inv smap k base s" "\<not> stop s" "Suc (sent s) < received s + 2 ^ k"
  shows "sent s < sent (producer_turn smap base s) \<or>
    sent (producer_turn smap base s) = sent s \<and>
    producer_distance (producer_turn smap base s) < producer_distance s"
proof -
  have inv: "workload_inv smap k base s" "pw s \<noteq> PEnd" "k < 31"
    using assms(1,2) by (auto simp: running_inv_def pool_placed_def)
  then have "\<forall>m. pw s \<noteq> PWriting m \<Longrightarrow> ppc (wq s) = PIdle"
    by (auto simp: workload_inv_def prod_inv_def split: prod_pc.splits)
  moreover obtain i g where "mbuf_get (glob s) 0 = Inr (i, g)" using workload_inv_accesses(1) [OF inv(1,3)] by blast
  moreover have "next_slot (bq (wq s)) (blq_write (bq (wq s))) \<noteq> blq_read (bq (wq s))"
    using queue_full_iff [OF inv(1,3)] assms(3) by auto
  ultimately show ?thesis
    using inv(2) assms(2)
    by (auto simp: producer_turn_def producer_distance_def Let_def split: prod_pc.splits producer_pc.splits)
qed

lemma consumer_waits:
  assumes "workload_inv smap k base s" "sent s = received s"
  shows "received (consumer_turn smap base s) = received s"
proof -
  have "cpc (wq s) = CIdle \<or> (\<exists>rd. cpc (wq s) = CChecked rd)"
    using assms queue_empty_iff [OF assms(1)]
    by (cases "cpc (wq s)") (auto simp: workload_inv_def spsc_inv_def consumer_inv_def)
  then show ?thesis
    by (auto simp: consumer_turn_def Let_def split: cons_pc.splits prod.splits)
qed

lemma stop_run: "stop (run (turn smap base) sched s i) = stop s"
  by (induction i) (simp_all add: turn_ends)

lemma other_thread: "u \<noteq> Consumer \<longleftrightarrow> u = Producer" "u \<noteq> Producer \<longleftrightarrow> u = Consumer"
  by (cases u; simp)+

lemma packet_taken:
  assumes "running_inv smap k base s" "fair sched" "\<not> stop s"
    and "received (run (turn smap base) sched s n) = e" "e < sent (run (turn smap base) sched s n)"
  shows "\<exists>m>n. e < received (run (turn smap base) sched s m)"
proof (rule spscq.leads_to [OF assms(2,1), where t = Consumer and d = consumer_distance
      and P = "\<lambda>x. \<not> stop x \<and> received x = e \<and> e < sent x"])
  show "\<not> stop (run (turn smap base) sched s n) \<and> received (run (turn smap base) sched s n) = e \<and>
      e < sent (run (turn smap base) sched s n)"
    using assms(3-5) by (simp add: stop_run)
next
  fix x :: workload and u
  assume "running_inv smap k base x" "\<not> stop x \<and> received x = e \<and> e < sent x" "u \<noteq> Consumer"
  then show "e < received (turn smap base u x) \<or>
      (\<not> stop (turn smap base u x) \<and> received (turn smap base u x) = e \<and> e < sent (turn smap base u x)) \<and>
      consumer_distance (turn smap base u x) \<le> consumer_distance x"
    using producer_keeps_consumer [where smap = smap and base = base and s = x] turn_ends(3) [of smap base Producer x]
    by (auto simp: other_thread distances_kept)
next
  fix x
  assume "running_inv smap k base x" "\<not> stop x \<and> received x = e \<and> e < sent x"
  then show "e < received (turn smap base Consumer x) \<or>
      (\<not> stop (turn smap base Consumer x) \<and> received (turn smap base Consumer x) = e \<and>
       e < sent (turn smap base Consumer x)) \<and>
      consumer_distance (turn smap base Consumer x) < consumer_distance x"
    using consumer_approaches [of smap k base x] consumer_keeps_producer [where smap = smap and base = base and s = x]
      turn_ends(3) [of smap base Consumer x]
    by auto
qed

lemma packet_put:
  assumes "running_inv smap k base s" "fair sched" "\<not> stop s"
    and "received (run (turn smap base) sched s n) = e" "sent (run (turn smap base) sched s n) = e"
  shows "\<exists>m>n. received (run (turn smap base) sched s m) = e \<and> e < sent (run (turn smap base) sched s m)"
proof (rule spscq.leads_to [OF assms(2,1), where t = Producer and d = producer_distance
      and P = "\<lambda>x. \<not> stop x \<and> received x = e \<and> sent x = e"])
  show "\<not> stop (run (turn smap base) sched s n) \<and> received (run (turn smap base) sched s n) = e \<and>
      sent (run (turn smap base) sched s n) = e"
    using assms(3-5) by (simp add: stop_run)
next
  fix x :: workload and u
  assume "running_inv smap k base x" "\<not> stop x \<and> received x = e \<and> sent x = e" "u \<noteq> Producer"
  then show "(received (turn smap base u x) = e \<and> e < sent (turn smap base u x)) \<or>
      (\<not> stop (turn smap base u x) \<and> received (turn smap base u x) = e \<and> sent (turn smap base u x) = e) \<and>
      producer_distance (turn smap base u x) \<le> producer_distance x"
    using consumer_keeps_producer [where smap = smap and base = base and s = x] turn_ends(3) [of smap base Consumer x]
      consumer_waits [of smap k base x]
    by (auto simp: other_thread distances_kept running_inv_def)
next
  fix x
  assume a: "running_inv smap k base x" "\<not> stop x \<and> received x = e \<and> sent x = e"
  then have "(2 :: nat) ^ 1 \<le> 2 ^ k" by (intro power_increasing) (simp_all add: running_inv_def)
  with a show "(received (turn smap base Producer x) = e \<and> e < sent (turn smap base Producer x)) \<or>
      (\<not> stop (turn smap base Producer x) \<and> received (turn smap base Producer x) = e \<and>
       sent (turn smap base Producer x) = e) \<and>
      producer_distance (turn smap base Producer x) < producer_distance x"
    using producer_approaches [of smap k base x] producer_keeps_consumer [where smap = smap and base = base and s = x]
      turn_ends(3) [of smap base Producer x]
    by auto
qed

lemma packet_arrives:
  assumes "running_inv smap k base s" "fair sched" "\<not> stop s"
  shows "\<exists>m. received (run (turn smap base) sched s n) < received (run (turn smap base) sched s m)"
proof -
  let ?r = "run (turn smap base) sched s"
  have "received (?r n) \<le> sent (?r n)"
    using spscq.inv_run [OF assms(1), of sched n] by (simp add: running_inv_def workload_inv_def spsc_inv_def)
  then consider "sent (?r n) = received (?r n)" | "received (?r n) < sent (?r n)" by linarith
  then obtain l where "received (?r l) = received (?r n)" "received (?r n) < sent (?r l)"
    using packet_put [OF assms refl] by (cases; blast)
  then show ?thesis using packet_taken [OF assms] by blast
qed

section \<open>After the signal\<close>

lemma consumer_ends:
  assumes "running_inv smap k base s" "fair sched" "stop s"
  shows "\<exists>n. cw (run (turn smap base) sched s n) = CEnd"
proof -
  have "\<exists>m>0. cw (run (turn smap base) sched s m) = CEnd"
  proof (rule spscq.leads_to [OF assms(2,1), where t = Consumer and d = consumer_ending and P = stop])
    fix x :: workload and u
    assume "stop x" "u \<noteq> Consumer"
    then show "cw (turn smap base u x) = CEnd \<or>
        stop (turn smap base u x) \<and> consumer_ending (turn smap base u x) \<le> consumer_ending x"
      using producer_keeps_consumer [where smap = smap and base = base and s = x] turn_ends(3) [of smap base Producer x]
      by (auto simp: other_thread distances_kept)
  next
    fix x
    assume "running_inv smap k base x" "stop x"
    then show "cw (turn smap base Consumer x) = CEnd \<or>
        stop (turn smap base Consumer x) \<and> consumer_ending (turn smap base Consumer x) < consumer_ending x"
      by (auto simp: consumer_turn_def consumer_ending_def running_inv_def workload_inv_def cons_inv_def Let_def
          split: cons_pc.splits consumer_pc.splits prod.splits)
  qed (use assms(3) in simp)
  then show ?thesis by blast
qed

lemma producer_ends_or_stuck:
  assumes "running_inv smap k base s" "fair sched" "stop s"
    and "cw (run (turn smap base) sched s n) = CEnd"
  shows "\<exists>m>n. cw (run (turn smap base) sched s m) = CEnd \<and>
    (pw (run (turn smap base) sched s m) = PEnd \<or> stuck (run (turn smap base) sched s m))"
proof (rule spscq.leads_to [OF assms(2,1), where t = Producer and d = producer_ending
      and P = "\<lambda>x. stop x \<and> cw x = CEnd"])
  fix x :: workload and u
  assume "stop x \<and> cw x = CEnd" "u \<noteq> Producer"
  then have "turn smap base u x = x" by (simp add: other_thread consumer_turn_def)
  then show "(cw (turn smap base u x) = CEnd \<and> (pw (turn smap base u x) = PEnd \<or> stuck (turn smap base u x))) \<or>
      (stop (turn smap base u x) \<and> cw (turn smap base u x) = CEnd) \<and>
      producer_ending (turn smap base u x) \<le> producer_ending x"
    using \<open>stop x \<and> cw x = CEnd\<close> by simp
next
  fix x
  assume a: "running_inv smap k base x" "stop x \<and> cw x = CEnd"
  then obtain i g where "mbuf_get (glob x) 0 = Inr (i, g)"
    using workload_inv_accesses(1) [of smap k base x] by (auto simp: running_inv_def pool_placed_def)
  moreover have "\<forall>m. pw x \<noteq> PWriting m \<Longrightarrow> ppc (wq x) = PIdle"
    using a by (auto simp: running_inv_def workload_inv_def prod_inv_def split: prod_pc.splits)
  ultimately show "(cw (turn smap base Producer x) = CEnd \<and>
        (pw (turn smap base Producer x) = PEnd \<or> stuck (turn smap base Producer x))) \<or>
      (stop (turn smap base Producer x) \<and> cw (turn smap base Producer x) = CEnd) \<and>
      producer_ending (turn smap base Producer x) < producer_ending x"
    using a
    by (auto simp: producer_turn_def producer_ending_def stuck_def Let_def split: prod_pc.splits producer_pc.splits)
qed (use assms(3,4) in \<open>simp add: stop_run\<close>)

section \<open>Properties of fair runs\<close>

lemma running_start:
  assumes "blq_create n = Some q" "n = 2 ^ k" "k \<le> 16" "pool_placed k base"
  shows "running_inv (qslotmap_init (2 ^ k)) k base (workload_start n q)"
proof -
  have "1 \<le> k"
  proof (rule ccontr)
    assume "\<not> 1 \<le> k"
    then have "k = 0" by simp
    then show False using assms(1,2) by (simp add: blq_create_def blq_init_def)
  qed
  then show ?thesis
    using workload_reachable_inv [OF assms rtranclp.rtrancl_refl] assms(4)
    by (simp add: running_inv_def workload_start_def)
qed

lemma running_reachable:
  assumes "(workload_step smap base)\<^sup>*\<^sup>* s s'" "running_inv smap k base s"
  shows "running_inv smap k base s'"
  using assms
proof (induction rule: rtranclp_induct)
  case (step x y)
  then show ?case
    using workload_step_inv [OF step(2)] step_is_turn [OF step(2)] turn_ends [of smap base _ x]
    by (auto simp: running_inv_def)
qed

text \<open>C12.  Progress: as long as no signal arrives the program never gets stuck.  Under every
  schedule that gives both threads infinitely many turns, at whatever shared access each of
  them is interrupted, the number of packets the consumer has received grows without bound.\<close>

theorem packets_keep_arriving:
  assumes "spscq_main_init shuf g mem1 0 mem2 = Inr (smap, base, Some s0)"
    and "\<not> deceive_hw_data_prefetcher g" "n = g_qlen g" "unat n \<le> 65536" "base \<noteq> 0"
    and "unat base + 2 * unat n * sizeof_Mbuf < 2 ^ 64" "fair sched"
  shows "\<exists>i. N \<le> received (run (turn smap base) sched s0 i)"
proof (induction N)
  case (Suc N)
  obtain q k where p: "blq_create n = Some q" "n = 2 ^ k" "k \<le> 16" "pool_placed k base"
    "smap = qslotmap_init (2 ^ k)" "s0 = workload_start n q"
    using main_init_params [OF assms(1-6)] .
  have "running_inv smap k base s0" "\<not> stop s0"
    using running_start [OF p(1-4)] p(5,6) by (simp_all add: workload_start_def)
  then show ?case using packet_arrives [OF _ assms(7)] Suc by (meson Suc_leI le_less_trans)
qed simp

definition alternating :: "nat \<Rightarrow> thread" where
  "alternating i = (if even i then Producer else Consumer)"

lemma fair_alternating: "fair alternating"
proof -
  have "\<exists>j\<ge>i. alternating j = t" for t i
    by (cases t) (rule exI [of _ "2 * i"] exI [of _ "2 * i + 1"], simp add: alternating_def)+
  then show ?thesis by (simp add: fair_def)
qed

theorem packets_keep_arriving_witness:
  "\<exists>i. 3 \<le> received (run (turn (qslotmap_init 4) 4096) alternating sample_run i)"
  by (rule packets_keep_arriving [OF sample_run_init, where n = 4])
    (simp_all add: sizeof_Mbuf_def Global_new_def fair_alternating)

text \<open>C13.  What the signal leads to: from every state the program can be in when the signal
  has arrived, under every fair schedule, the consumer ends, and then either the producer
  ends too or it is caught in its inner loop in front of a queue that holds \<open>n - 1\<close> packets.
  The consumer has counted every packet it took out, and at most \<open>n - 1\<close> are left behind.\<close>

theorem signal_ends_or_catches_producer:
  assumes "spscq_main_init shuf g mem1 0 mem2 = Inr (smap, base, Some s0)"
    and "\<not> deceive_hw_data_prefetcher g" "n = g_qlen g" "unat n \<le> 65536" "base \<noteq> 0"
    and "unat base + 2 * unat n * sizeof_Mbuf < 2 ^ 64" "fair sched"
    and "(workload_step smap base)\<^sup>*\<^sup>* s0 s" "stop s"
  shows "\<exists>i s'. s' = run (turn smap base) sched s i \<and> cw s' = CEnd \<and>
    pkt_cnt s' = of_nat (received s') \<and> sent s' < received s' + unat n \<and>
    (pw s' = PEnd \<or> (\<exists>m. pw s' = PWriting m) \<and> sent s' = received s' + unat n - 1 \<and>
       (\<forall>j\<ge>i. run (turn smap base) sched s j = s'))"
proof -
  obtain q k where p: "blq_create n = Some q" "n = 2 ^ k" "k \<le> 16" "pool_placed k base"
    "smap = qslotmap_init (2 ^ k)" "s0 = workload_start n q"
    using main_init_params [OF assms(1-6)] .
  have inv: "running_inv smap k base s"
    using running_reachable [OF assms(8)] running_start [OF p(1-4)] p(5,6) by simp
  let ?r = "run (turn smap base) sched s"
  obtain i where i: "cw (?r i) = CEnd" "pw (?r i) = PEnd \<or> stuck (?r i)"
    using consumer_ends [OF inv assms(7,9)] producer_ends_or_stuck [OF inv assms(7,9)] by blast
  have w: "workload_inv smap k base (?r i)" "k < 31" "unat n = 2 ^ k"
    using spscq.inv_run [OF inv, of sched i] p(2,3) by (simp_all add: running_inv_def unat_pow2)
  have still: "?r j = ?r i" if "stuck (?r i)" "i \<le> j" for j
    using that(2)
  proof (induction j rule: nat_induct_at_least)
    case (Suc j)
    have "turn smap base t (?r i) = ?r i" for t
      using that(1) by (cases t) (auto simp: stuck_def producer_turn_def consumer_turn_def Let_def)
    then show ?case using Suc by simp
  qed simp
  have "sent (?r i) = received (?r i) + unat n - 1 \<and> (\<exists>m. pw (?r i) = PWriting m)" if "stuck (?r i)"
    using that queue_full_iff [OF w(1,2)] w(3) by (auto simp: stuck_def)
  moreover have "pkt_cnt (?r i) = of_nat (received (?r i))" "sent (?r i) < received (?r i) + unat n"
    using w i(1) by (simp_all add: workload_inv_def cons_inv_def)
  ultimately show ?thesis using i still by (intro exI [of _ i] exI [of _ "?r i"]) blast
qed

theorem signal_ends_or_catches_producer_witness:
  "\<exists>i s'. s' = run (turn (qslotmap_init 4) 4096) alternating (sample_run\<lparr>stop := True\<rparr>) i \<and>
     cw s' = CEnd \<and> pkt_cnt s' = of_nat (received s')"
proof -
  have "(workload_step (qslotmap_init 4) 4096)\<^sup>*\<^sup>* sample_run (sample_run\<lparr>stop := True\<rparr>)"
    by (rule r_into_rtranclp, rule sigint [simplified])
  from signal_ends_or_catches_producer [OF sample_run_init _ _ _ _ _ fair_alternating this, where n = 4]
  show ?thesis by (simp add: sizeof_Mbuf_def Global_new_def) blast
qed

end
