(* ===== verification/Spscq_X86.thy ===== *)
theory Spscq_X86
  imports Spscq_TSO Spscq_Progress
begin

text \<open>
  The thread program of \<^verbatim>\<open>spscq.cpp\<close> on the memory of an x86 processor: besides the stores to
  the queue (theory \<open>Spscq_TSO\<close>) the producer's store to the length of a message buffer is
  delayed in its buffer too, in front of the stores that publish the buffer.  Every run of the
  program on this memory is a run of \<open>workload_step\<close>, except that the consumer may find the
  queue empty while a packet is still on its way to memory.  The signal is taken by a third
  thread (\<^verbatim>\<open>main\<close> waits in \<^verbatim>\<open>pthread_join\<close>), so that its store to \<^verbatim>\<open>stop\<close> becomes visible to
  both threads at once.
\<close>

section \<open>State and steps\<close>

datatype pstore = QueueStore store | LenStore nat u32

fun queue_part :: "pstore list \<Rightarrow> store list" where
  "queue_part [] = []"
| "queue_part (QueueStore st # b) = st # queue_part b"
| "queue_part (LenStore i v # b) = queue_part b"

fun len_commit :: "pstore \<Rightarrow> u32 list \<Rightarrow> u32 list" where
  "len_commit (LenStore i v) xs = xs[i := v]"
| "len_commit (QueueStore st) xs = xs"

text \<open>
  The state of the program, in which the queue and the pool are what memory holds, and the
  pending stores of the two threads.
\<close>

record x86 =
  xm :: workload
  xbuf :: "pstore list"
  xcbuf :: "store list"

definition to_tso :: "x86 \<Rightarrow> tso" where
  "to_tso s =
     \<lparr>tmem = bq (wq (xm s)), pbuf = queue_part (xbuf s), cbuf = xcbuf s, tppc = ppc (wq (xm s)),
      tcpc = cpc (wq (xm s)), tenq = enq (wq (xm s)), tdeq = deq (wq (xm s))\<rparr>"

abbreviation set_wq :: "spsc \<Rightarrow> x86 \<Rightarrow> x86" where
  "set_wq w s \<equiv> s\<lparr>xm := (xm s)\<lparr>wq := w\<rparr>\<rparr>"

inductive x86_step :: "u16 list \<Rightarrow> u64 \<Rightarrow> x86 \<Rightarrow> x86 \<Rightarrow> bool" for smap base where
  x_sigint: "x86_step smap base s (s\<lparr>xm := sigint_handler (xm s)\<rparr>)"
| x_go: "pw (xm s) = PTest \<Longrightarrow> \<not> stop (xm s) \<Longrightarrow> x86_step smap base s (s\<lparr>xm := (xm s)\<lparr>pw := PGet\<rparr>\<rparr>)"
| x_end: "pw (xm s) = PTest \<Longrightarrow> stop (xm s) \<Longrightarrow> x86_step smap base s (s\<lparr>xm := (xm s)\<lparr>pw := PEnd\<rparr>\<rparr>)"
| x_mbuf: "pw (xm s) = PGet \<Longrightarrow> mbuf_get (glob (xm s)) 0 = Inr (i, g) \<Longrightarrow>
    x86_step smap base s
      (s\<lparr>xm := (xm s)\<lparr>glob := g\<lparr>pool := pool (glob (xm s))\<rparr>, pw := PWriting (mbuf_addr base i)\<rparr>,
         xbuf := xbuf s @ [LenStore (unat i) (pool g ! unat i)]\<rparr>)"
| x_full: "pw (xm s) = PWriting m \<Longrightarrow> ppc (wq (xm s)) = PIdle \<Longrightarrow> q = pview smap (to_tso s) \<Longrightarrow>
    next_slot q (blq_write q) = blq_read q \<Longrightarrow> x86_step smap base s s"
| x_room: "pw (xm s) = PWriting m \<Longrightarrow> ppc (wq (xm s)) = PIdle \<Longrightarrow> q = pview smap (to_tso s) \<Longrightarrow>
    next_slot q (blq_write q) \<noteq> blq_read q \<Longrightarrow>
    x86_step smap base s
      (set_wq ((wq (xm s))\<lparr>ppc := PChecked m (blq_write q) (next_slot q (blq_write q))\<rparr>) s)"
| x_store: "pw (xm s) = PWriting m \<Longrightarrow> ppc (wq (xm s)) = PChecked m' wr nxt \<Longrightarrow>
    x86_step smap base s
      (set_wq ((wq (xm s))\<lparr>ppc := PStored m' nxt\<rparr>) s\<lparr>xbuf := xbuf s @ [QueueStore (SlotStore wr m')]\<rparr>)"
| x_publish: "pw (xm s) = PWriting m \<Longrightarrow> ppc (wq (xm s)) = PStored m' nxt \<Longrightarrow>
    x86_step smap base s
      (s\<lparr>xm := (xm s)\<lparr>pw := PTest, wq := (wq (xm s))\<lparr>ppc := PIdle, enq := enq (wq (xm s)) @ [m']\<rparr>\<rparr>,
         xbuf := xbuf s @ [QueueStore (WriteStore nxt)]\<rparr>)"
| y_empty: "cw (xm s) = CReading \<Longrightarrow> cpc (wq (xm s)) = CIdle \<Longrightarrow> q = cview smap (to_tso s) \<Longrightarrow>
    blq_read q = blq_write q \<Longrightarrow> x86_step smap base s (s\<lparr>xm := (xm s)\<lparr>cw := CTest\<rparr>\<rparr>)"
| y_some: "cw (xm s) = CReading \<Longrightarrow> cpc (wq (xm s)) = CIdle \<Longrightarrow> q = cview smap (to_tso s) \<Longrightarrow>
    blq_read q \<noteq> blq_write q \<Longrightarrow>
    x86_step smap base s (set_wq ((wq (xm s))\<lparr>cpc := CChecked (blq_read q)\<rparr>) s)"
| y_load: "cw (xm s) = CReading \<Longrightarrow> cpc (wq (xm s)) = CChecked rd \<Longrightarrow> q = cview smap (to_tso s) \<Longrightarrow>
    x86_step smap base s (set_wq ((wq (xm s))\<lparr>cpc := CLoaded rd (slot_at smap q rd)\<rparr>) s)"
| y_advance: "cw (xm s) = CReading \<Longrightarrow> cpc (wq (xm s)) = CLoaded rd m \<Longrightarrow>
    x86_step smap base s
      (s\<lparr>xm := (xm s)\<lparr>cw := (if m = 0 then CTest else CCount m),
                       wq := (wq (xm s))\<lparr>cpc := CIdle, deq := deq (wq (xm s)) @ [m]\<rparr>\<rparr>,
         xcbuf := xcbuf s @ [ReadStore (next_slot (bq (wq (xm s))) rd)]\<rparr>)"
| y_count: "cw (xm s) = CCount m \<Longrightarrow>
    x86_step smap base s (s\<lparr>xm := (xm s)\<lparr>pkt_cnt := pkt_cnt (xm s) + 1, cw := CPut m\<rparr>\<rparr>)"
| y_put: "cw (xm s) = CPut m \<Longrightarrow>
    mbuf_put m (mbuf_len base (glob (xm s)) m) (csum (xm s), trash (xm s)) = (c, t) \<Longrightarrow>
    x86_step smap base s (s\<lparr>xm := (xm s)\<lparr>csum := c, trash := t, cw := CTest\<rparr>\<rparr>)"
| y_go: "cw (xm s) = CTest \<Longrightarrow> \<not> stop (xm s) \<Longrightarrow> x86_step smap base s (s\<lparr>xm := (xm s)\<lparr>cw := CReading\<rparr>\<rparr>)"
| y_end: "cw (xm s) = CTest \<Longrightarrow> stop (xm s) \<Longrightarrow> x86_step smap base s (s\<lparr>xm := (xm s)\<lparr>cw := CEnd\<rparr>\<rparr>)"
| commit_queue: "xbuf s = QueueStore st # b \<Longrightarrow>
    x86_step smap base s (set_wq ((wq (xm s))\<lparr>bq := commit smap st (bq (wq (xm s)))\<rparr>) s\<lparr>xbuf := b\<rparr>)"
| commit_len: "xbuf s = LenStore i v # b \<Longrightarrow>
    x86_step smap base s
      (s\<lparr>xm := (xm s)\<lparr>glob := (glob (xm s))\<lparr>pool := (pool (glob (xm s)))[i := v]\<rparr>\<rparr>, xbuf := b\<rparr>)"
| commit_read: "xcbuf s = st # b \<Longrightarrow>
    x86_step smap base s (set_wq ((wq (xm s))\<lparr>bq := commit smap st (bq (wq (xm s)))\<rparr>) s\<lparr>xcbuf := b\<rparr>)"

definition x86_start :: "workload \<Rightarrow> x86" where
  "x86_start s = \<lparr>xm = s, xbuf = [], xcbuf = []\<rparr>"

text \<open>The program with every store taken as done when it is issued.\<close>

definition x86_view :: "u16 list \<Rightarrow> x86 \<Rightarrow> workload" where
  "x86_view smap s =
     (xm s)\<lparr>wq := sc_view smap (to_tso s),
            glob := (glob (xm s))\<lparr>pool := fold len_commit (xbuf s) (pool (glob (xm s)))\<rparr>\<rparr>"

text \<open>The program whose consumer may find the queue empty too early.\<close>

inductive lenient_step :: "u16 list \<Rightarrow> u64 \<Rightarrow> workload \<Rightarrow> workload \<Rightarrow> bool" for smap base where
  exact: "workload_step smap base s s' \<Longrightarrow> lenient_step smap base s s'"
| early: "cw s = CReading \<Longrightarrow> cpc (wq s) = CIdle \<Longrightarrow> lenient_step smap base s (s\<lparr>cw := CTest\<rparr>)"

lemma lenient_step_inv:
  assumes "lenient_step smap base s s'" "workload_inv smap k base s" "pool_placed k base"
  shows "workload_inv smap k base s'"
  using assms
proof cases
  case early
  then show ?thesis using assms(2)
    by (auto simp: workload_inv_def prod_inv_def cons_inv_def taken_def split: prod_pc.splits)
qed (use workload_step_inv assms(2,3) in blast)

section \<open>The queue inside\<close>

lemma queue_part_snoc [simp]:
  "queue_part (b @ [QueueStore st]) = queue_part b @ [st]" "queue_part (b @ [LenStore i v]) = queue_part b"
  by (induction b rule: queue_part.induct) simp_all

lemma x86_step_tso:
  "x86_step smap base s s' \<Longrightarrow> tso_step smap (to_tso s) (to_tso s') \<or> to_tso s' = to_tso s"
proof (induction rule: x86_step.induct)
  case (x_room s m q)
  then show ?case using t_room [of "to_tso s" q smap m] by (simp add: to_tso_def)
next
  case (x_store s m m' wr nxt)
  then show ?case using t_store [of "to_tso s" m' wr nxt smap] by (simp add: to_tso_def)
next
  case (x_publish s m m' nxt)
  then show ?case using t_publish [of "to_tso s" m' nxt smap] by (simp add: to_tso_def)
next
  case (y_some s q)
  then show ?case using t_some [of "to_tso s" q smap] by (simp add: to_tso_def)
next
  case (y_load s rd q)
  then show ?case using t_load [of "to_tso s" rd q smap] by (simp add: to_tso_def)
next
  case (y_advance s rd m)
  then show ?case using t_advance [of "to_tso s" rd m smap] by (simp add: to_tso_def)
next
  case (commit_queue s st b)
  then show ?case using p_commit [of "to_tso s" st "queue_part b" smap] by (simp add: to_tso_def)
next
  case (commit_read s st b)
  then show ?case using c_commit [of "to_tso s" st b smap] by (simp add: to_tso_def)
qed (simp_all add: to_tso_def)

interpretation x86_queue: stuttering_simulation "x86_step smap base" "tso_step smap" to_tso "\<lambda>_. True"
  for smap base
  using x86_step_tso by unfold_locales auto

section \<open>The invariant\<close>

text \<open>
  The stores of the producer in order: for each packet the length, the slot and the write
  index.  \<open>phase\<close> is how many of the three have been issued for the current packet.
\<close>

fun packet_store :: "nat \<Rightarrow> nat \<Rightarrow> pstore \<Rightarrow> bool" where
  "packet_store k c (LenStore i v) \<longleftrightarrow> c mod 3 = 0 \<and> i = c div 3 mod 2 ^ Suc k"
| "packet_store k c (QueueStore st) \<longleftrightarrow> c mod 3 \<noteq> 0"

definition phase :: "workload \<Rightarrow> nat" where
  "phase s = (case pw s of PWriting m \<Rightarrow> Suc (slot_issued (ppc (wq s))) | _ \<Rightarrow> 0)"

definition x86_inv :: "u16 list \<Rightarrow> nat \<Rightarrow> u64 \<Rightarrow> x86 \<Rightarrow> bool" where
  "x86_inv smap k base s \<longleftrightarrow>
     pool_placed k base \<and> (\<exists>d e. tso_inv smap (2 ^ k) d e (to_tso s)) \<and>
     workload_inv smap k base (x86_view smap s) \<and>
     (\<exists>c. numbered (packet_store k) c (xbuf s) \<and> c + length (xbuf s) = 3 * sent (xm s) + phase (xm s))"

text \<open>How many of the first \<open>c\<close> stores go to the queue.\<close>

definition queue_count :: "nat \<Rightarrow> nat" where
  "queue_count c = 2 * (c div 3) + (c mod 3 - 1)"

lemma queue_count_simps:
  "queue_count (Suc c) = queue_count c + of_bool (c mod 3 \<noteq> 0)" "queue_count c div 2 = c div 3"
  "queue_count (3 * n + Suc i) = 2 * n + i" if "i < 2"
proof -
  have "c mod 3 < 3" by simp
  then consider "c mod 3 = 0" | "c mod 3 = 1" | "c mod 3 = 2" by linarith
  then show "queue_count (Suc c) = queue_count c + of_bool (c mod 3 \<noteq> 0)"
    by cases (auto simp: queue_count_def mod_Suc div_Suc)
  show "queue_count c div 2 = c div 3" using \<open>c mod 3 < 3\<close> by (simp add: queue_count_def)
  show "queue_count (3 * n + Suc i) = 2 * n + i" using that by (simp add: queue_count_def)
qed

lemma queue_part_count:
  "numbered (packet_store k) c b \<Longrightarrow> length (queue_part b) + queue_count c = queue_count (c + length b)"
proof (induction b arbitrary: c)
  case (Cons st b)
  then show ?case using queue_count_simps(1) [of 0 c] Cons.IH [of "Suc c"] by (cases st) auto
qed simp

lemma committed_packets:
  assumes "tso_inv smap n d e (to_tso s)" "numbered (packet_store k) c (xbuf s)"
    and "c + length (xbuf s) = 3 * sent (xm s) + phase (xm s)" "prod_inv k' base (x86_view smap s)"
  shows "received (xm s) \<le> c div 3"
proof -
  have "queue_count (3 * sent (xm s) + phase (xm s)) = 2 * sent (xm s) + slot_issued (ppc (wq (xm s)))"
    using assms(4) queue_count_simps(3) [of "slot_issued (ppc (wq (xm s)))" "sent (xm s)"]
    by (cases "pw (xm s)"; cases "ppc (wq (xm s))")
      (auto simp: phase_def prod_inv_def x86_view_def to_tso_def queue_count_def)
  moreover have "d + length (queue_part (xbuf s)) = 2 * sent (xm s) + slot_issued (ppc (wq (xm s)))"
    using tso_invD(2) [OF assms(1)] by (simp add: to_tso_def)
  ultimately have "d = queue_count c" using queue_part_count [OF assms(2)] assms(3) by simp
  moreover have "received (xm s) \<le> d div 2" using tso_indices(10) [OF assms(1)] by (simp add: to_tso_def)
  ultimately show ?thesis by (simp add: queue_count_simps(2) [of 0])
qed

lemma pending_lens_elsewhere:
  assumes "numbered (packet_store k) c b" "d < c div 3" "(c + length b - 1) div 3 < d + 2 ^ Suc k" "b \<noteq> []"
  shows "fold len_commit b xs ! (d mod 2 ^ Suc k) = xs ! (d mod 2 ^ Suc k)"
  using assms
proof (induction b arbitrary: c xs)
  case (Cons st b)
  have "len_commit st xs ! (d mod 2 ^ Suc k) = xs ! (d mod 2 ^ Suc k)"
  proof (cases st)
    case (LenStore i v)
    have "d mod 2 ^ Suc k \<noteq> c div 3 mod 2 ^ Suc k"
      using Cons.prems(2,3) div_le_mono [of c "c + length (st # b) - 1" 3] by (intro mod_distinct) simp_all
    then show ?thesis using LenStore Cons.prems(1) by simp
  qed simp
  moreover have "fold len_commit b (len_commit st xs) ! (d mod 2 ^ Suc k) = len_commit st xs ! (d mod 2 ^ Suc k)"
  proof (cases "b = []")
    case False
    have "c div 3 \<le> Suc c div 3" by (rule div_le_mono) simp
    then show ?thesis using Cons.prems False by (intro Cons.IH [of "Suc c"]) simp_all
  qed simp
  ultimately show ?case by simp
qed simp

lemma length_len_commits [simp]: "length (fold len_commit b xs) = length xs"
proof (induction b arbitrary: xs)
  case (Cons st b)
  then show ?case by (cases st) simp_all
qed simp

section \<open>Every step is a step of the program\<close>

text \<open>The length the consumer reads has reached memory and is not overwritten.\<close>

lemma length_is_real:
  assumes "x86_inv smap k base s" "cw (xm s) = CPut m"
  shows "mbuf_len base (glob (xm s)) m = mbuf_len base (glob (x86_view smap s)) m"
proof -
  obtain c d e where inv: "tso_inv smap (2 ^ k) d e (to_tso s)" "numbered (packet_store k) c (xbuf s)"
      "c + length (xbuf s) = 3 * sent (xm s) + phase (xm s)" "workload_inv smap k base (x86_view smap s)"
      "pool_placed k base"
    using assms(1) unfolding x86_inv_def by blast
  have "cw (x86_view smap s) = CPut m" "received (x86_view smap s) = received (xm s)"
    "sent (x86_view smap s) = sent (xm s)"
    using assms(2) by (simp_all add: x86_view_def to_tso_def)
  then obtain j where j: "received (xm s) = Suc j" "m = turn_mbuf k base j" "sent (xm s) < Suc j + 2 ^ k"
    using inv(4) by (auto simp: workload_inv_def cons_inv_def)
  have "j < c div 3"
    using committed_packets [OF inv(1-3)] inv(4) j(1) unfolding workload_inv_def by fastforce
  moreover have "phase (xm s) \<le> 2" by (cases "pw (xm s)"; cases "ppc (wq (xm s))") (simp_all add: phase_def)
  then have "(c + length (xbuf s) - 1) div 3 \<le> sent (xm s)" using inv(3) by linarith
  then have "(c + length (xbuf s) - 1) div 3 < j + 2 ^ Suc k"
    using j(3) zero_less_power [of "2 :: nat" k] unfolding power_Suc by linarith
  ultimately have "fold len_commit (xbuf s) (pool (glob (xm s))) ! (j mod 2 ^ Suc k) =
      pool (glob (xm s)) ! (j mod 2 ^ Suc k)"
    using pending_lens_elsewhere [OF inv(2)] by (cases "xbuf s = []") simp_all
  then show ?thesis using turn_mbuf(2) [OF inv(5)] j(2) by (simp add: x86_view_def)
qed

lemma x86_view_simps [simp]:
  "pw (x86_view smap s) = pw (xm s)" "cw (x86_view smap s) = cw (xm s)" "stop (x86_view smap s) = stop (xm s)"
  "pkt_cnt (x86_view smap s) = pkt_cnt (xm s)" "csum (x86_view smap s) = csum (xm s)"
  "trash (x86_view smap s) = trash (xm s)" "wq (x86_view smap s) = sc_view smap (to_tso s)"
  by (simp_all add: x86_view_def)

text \<open>The pool a thread sees does not matter for which mbuf the producer takes next.\<close>

lemma mbuf_get_pool:
  assumes "mbuf_get g 0 = Inr (i, g')" "length xs = length (pool g)"
  shows "mbuf_get (g\<lparr>pool := xs\<rparr>) 0 = Inr (i, g'\<lparr>pool := xs[unat i := pool g' ! unat i]\<rparr>)"
  using assms by (auto simp: mbuf_get_def Let_def split: if_splits)

lemma sim_by:
  "workload_step smap base (x86_view smap s) t \<Longrightarrow> x86_view smap s' = t \<Longrightarrow>
   lenient_step smap base (x86_view smap s) (x86_view smap s') \<or> x86_view smap s' = x86_view smap s"
  using exact by blast

lemmas program_steps =
  sigint [THEN sim_by] p_go [THEN sim_by] p_end [THEN sim_by]
  c_go [THEN sim_by] c_end [THEN sim_by]

lemmas queue_views = x86_view_def to_tso_def sc_view_def pview_def cview_def

lemma x86_step_sim:
  assumes "x86_step smap base s s'" "x86_inv smap k base s"
  shows "lenient_step smap base (x86_view smap s) (x86_view smap s') \<or> x86_view smap s' = x86_view smap s"
proof -
  obtain d e where inv: "tso_inv smap (2 ^ k) d e (to_tso s)" using assms(2) by (auto simp: x86_inv_def)
  from assms(1) show ?thesis
  proof cases
    case (x_mbuf i g)
    have g: "mbuf_get (glob (x86_view smap s)) 0 =
        Inr (i, g\<lparr>pool := (pool (glob (x86_view smap s)))[unat i := pool g ! unat i]\<rparr>)"
      using mbuf_get_pool [OF x_mbuf(3)] by (simp add: x86_view_def)
    show ?thesis by (rule sim_by [OF p_mbuf [OF _ g]]) (simp_all add: x_mbuf x86_view_def to_tso_def)
  next
    case (x_room m q)
    show ?thesis
      by (rule sim_by [OF w_check [where m = m]])
        (use x_room room_is_real(1) [OF inv] in \<open>simp_all add: queue_views\<close>)
  next
    case (x_store m m' wr nxt)
    show ?thesis
      by (rule sim_by [OF w_store [where m = m and m' = m' and wr = wr and nxt = nxt]])
        (simp_all add: x_store queue_views store_slot_read)
  next
    case (x_publish m m' nxt)
    show ?thesis by (rule sim_by [OF w_publish [where m = m and m' = m' and nxt = nxt]]) (simp_all add: x_publish queue_views)
  next
    case (y_empty q)
    then have "x86_view smap s' = (x86_view smap s)\<lparr>cw := CTest\<rparr>" by (simp add: x86_view_def to_tso_def)
    then show ?thesis using early [of "x86_view smap s" smap base] y_empty by (simp add: to_tso_def)
  next
    case (y_some q)
    show ?thesis
      by (rule sim_by [OF r_check])
        (use y_some value_is_real(1) [OF inv] in \<open>simp_all add: queue_views\<close>)
  next
    case (y_load rd q)
    show ?thesis
      by (rule sim_by [OF r_load [where rd = rd]])
        (use y_load loaded_slot [OF inv, of rd] in \<open>simp_all add: queue_views\<close>)
  next
    case (y_advance rd m)
    show ?thesis by (rule sim_by [OF r_advance [where rd = rd and m = m]]) (simp_all add: y_advance queue_views)
  next
    case (y_put m c t)
    show ?thesis
      by (rule sim_by [OF c_put [where m = m and c = c and t = t]])
        (use y_put length_is_real [OF assms(2)] in \<open>simp_all add: x86_view_def to_tso_def\<close>)
  next
    case (commit_queue st b)
    then show ?thesis using commit_hidden(1) [OF inv, of st "queue_part b"] by (simp add: x86_view_def to_tso_def)
  next
    case (commit_read st b)
    then show ?thesis using commit_hidden(2) [OF inv, of st b] by (simp add: x86_view_def to_tso_def)
  next
    case (y_count m)
    show ?thesis by (rule sim_by [OF c_count [where m = m]]) (simp_all add: y_count x86_view_def to_tso_def)
  next
    case (commit_len i v b)
    then show ?thesis by (simp add: x86_view_def to_tso_def)
  next
    case x_sigint
    show ?thesis by (rule program_steps(1)) (simp add: x_sigint x86_view_def to_tso_def)
  next
    case x_go
    show ?thesis by (rule program_steps(2)) (simp_all add: x_go x86_view_def to_tso_def)
  next
    case x_end
    show ?thesis by (rule program_steps(3)) (simp_all add: x_end x86_view_def to_tso_def)
  next
    case y_go
    show ?thesis by (rule program_steps(4)) (simp_all add: y_go x86_view_def to_tso_def)
  next
    case y_end
    show ?thesis by (rule program_steps(5)) (simp_all add: y_end x86_view_def to_tso_def)
  qed simp
qed

text \<open>The stores of the producer stay numbered: what each step issues is the next one.\<close>

lemma next_length_store:
  assumes "x86_inv smap k base s" "pw (xm s) = PGet" "mbuf_get (glob (xm s)) 0 = Inr (i, g)"
  shows "unat i = sent (xm s) mod 2 ^ Suc k"
proof -
  have "pool_inv k (sent (xm s)) (glob (x86_view smap s))" "k < 31"
    using assms(1,2) by (auto simp: x86_inv_def workload_inv_def prod_inv_def taken_def pool_placed_def to_tso_def)
  then have "i = of_nat (sent (xm s)) AND mask (Suc k)"
    using assms(3) by (auto simp: x86_view_def pool_inv_def mbuf_get_def Let_def split: if_splits)
  then show ?thesis using unat_pool_index [of "Suc k" "sent (xm s)"] \<open>k < 31\<close> by simp
qed

lemma x86_step_numbered:
  assumes "x86_step smap base s s'" "x86_inv smap k base s"
  shows "\<exists>c. numbered (packet_store k) c (xbuf s') \<and> c + length (xbuf s') = 3 * sent (xm s') + phase (xm s')"
proof -
  obtain c where c: "numbered (packet_store k) c (xbuf s)" "c + length (xbuf s) = 3 * sent (xm s) + phase (xm s)"
    and prod: "prod_inv k base (x86_view smap s)"
    using assms(2) unfolding x86_inv_def workload_inv_def by blast
  note pc = prod [unfolded prod_inv_def, simplified]
  have keep: ?thesis if "xbuf s' = xbuf s" "sent (xm s') = sent (xm s)" "phase (xm s') = phase (xm s)"
    using c that by auto
  from assms(1) show ?thesis
  proof cases
    case (x_mbuf i g)
    then show ?thesis
      using c next_length_store [OF assms(2) x_mbuf(2,3)] pc
      by (intro exI [of _ c]) (simp add: phase_def to_tso_def)
  next
    case (commit_queue st b)
    then show ?thesis using c by (intro exI [of _ "Suc c"]) (simp add: phase_def split: prod_pc.splits)
  next
    case (commit_len i v b)
    then show ?thesis using c by (intro exI [of _ "Suc c"]) (simp add: phase_def split: prod_pc.splits)
  next
    case (x_room m q)
    then show ?thesis using c by (intro keep) (simp_all add: phase_def)
  next
    case (x_store m m' wr nxt)
    then show ?thesis using c by (intro exI [of _ c]) (simp add: phase_def)
  next
    case (x_publish m m' nxt)
    then show ?thesis using c by (intro exI [of _ c]) (simp add: phase_def mod_Suc)
  qed (rule keep; simp add: phase_def split: prod_pc.splits)+
qed

lemma x86_step_inv:
  assumes "x86_step smap base s s'" "x86_inv smap k base s"
  shows "x86_inv smap k base s'"
proof -
  have "\<exists>d e. tso_inv smap (2 ^ k) d e (to_tso s')"
    using x86_step_tso [OF assms(1)] tso_step_inv [of smap "to_tso s" "to_tso s'"] assms(2)
    unfolding x86_inv_def by fastforce
  moreover have "workload_inv smap k base (x86_view smap s')"
    using x86_step_sim [OF assms] lenient_step_inv assms(2) unfolding x86_inv_def by metis
  ultimately show ?thesis using x86_step_numbered [OF assms] assms(2) unfolding x86_inv_def by blast
qed

interpretation x86_sim: stuttering_simulation "x86_step smap base" "lenient_step smap base" "x86_view smap"
    "x86_inv smap k base" for smap base k
  using x86_step_inv x86_step_sim by unfold_locales blast+

section \<open>The program on the processor's memory\<close>

lemma x86_view_start [simp]: "x86_view smap (x86_start s) = s"
  by (simp add: x86_view_def x86_start_def to_tso_def sc_view_def pview_def cview_def)

lemma x86_start_inv:
  assumes "blq_create n = Some q" "n = 2 ^ k" "k \<le> 16" "pool_placed k base"
  shows "x86_inv (qslotmap_init (2 ^ k)) k base (x86_start (workload_start n q))"
proof -
  have un: "unat n = 2 ^ k" using assms(2,3) by (simp add: unat_pow2)
  then have le: "unat n \<le> 65536" using power_increasing [OF assms(3), of "2 :: nat"] by simp
  have "to_tso (x86_start (workload_start n q)) = tso_start q"
    by (simp add: to_tso_def x86_start_def workload_start_def tso_start_def spsc_start_def)
  then have "tso_inv (qslotmap_init (2 ^ k)) (2 ^ k) 0 0 (to_tso (x86_start (workload_start n q)))"
    using tso_start_inv [OF assms(1) le] un by simp
  then show ?thesis
    using workload_reachable_inv [OF assms rtranclp.rtrancl_refl] assms(4)
    by (auto simp: x86_inv_def) (auto simp: x86_start_def workload_start_def phase_def spsc_start_def)
qed

text \<open>C11.  The checksum survives the processor's store buffers: with the stores to the message
  buffers, the slots and the two indices delayed in a buffer per thread, every run of the
  program is, with each store taken as done when it is issued, a run of the program without
  buffers whose consumer may find the queue empty too early.  Whenever the consumer is between
  two packets it has counted exactly the packets it received and its checksum is the sum of
  their numbers, so it never reads a length that has not reached memory or that a later packet
  has overwritten.\<close>

theorem x86_program_checksum:
  assumes "spscq_main_init shuf g mem1 0 mem2 = Inr (smap, base, Some s0)"
    and "\<not> deceive_hw_data_prefetcher g" "n = g_qlen g" "unat n \<le> 65536" "base \<noteq> 0" "unat base + 2 * unat n * sizeof_Mbuf < 2 ^ 64"
    and "(x86_step smap base)\<^sup>*\<^sup>* (x86_start s0) s"
  shows "(lenient_step smap base)\<^sup>*\<^sup>* s0 (x86_view smap s) \<and>
    (cw (xm s) \<in> {CReading, CTest, CEnd} \<longrightarrow>
       pkt_cnt (xm s) = of_nat (received (xm s)) \<and> csum (xm s) = of_nat (\<Sum>i<received (xm s). i)) \<and>
    received (xm s) \<le> sent (xm s) \<and> sent (xm s) < received (xm s) + unat n"
proof -
  obtain q k where p: "blq_create n = Some q" "n = 2 ^ k" "k \<le> 16" "pool_placed k base"
    "smap = qslotmap_init (2 ^ k)" "s0 = workload_start n q"
    using main_init_params [OF assms(1-6)] .
  have start: "x86_inv smap k base (x86_start s0)" using x86_start_inv [OF p(1-4)] p(5,6) by simp
  note run = x86_sim.run_sim [OF assms(7) start]
  have inv: "workload_inv smap k base (x86_view smap s)" using run(2) by (simp add: x86_inv_def)
  have "sent (x86_view smap s) = sent (xm s)" "received (x86_view smap s) = received (xm s)"
    by (simp_all add: to_tso_def)
  moreover have "unat n = 2 ^ k" using p(2,3) by (simp add: unat_pow2)
  ultimately show ?thesis
    using run(1) inv by (auto simp: workload_inv_def cons_inv_def sum_below_def spsc_inv_def)
qed

text \<open>The consumer finds the queue empty and ends while the first packet is on its way.\<close>

theorem x86_program_checksum_witness:
  "\<exists>s. (x86_step (qslotmap_init 4) 4096)\<^sup>*\<^sup>* (x86_start sample_run) s \<and>
     xbuf s = [LenStore 0 0, QueueStore (SlotStore 0 4096), QueueStore (WriteStore 1)] \<and>
     cw (xm s) = CEnd \<and> sent (xm s) = 1 \<and> pkt_cnt (xm s) = of_nat (received (xm s)) \<and>
     (lenient_step (qslotmap_init 4) 4096)\<^sup>*\<^sup>* sample_run (x86_view (qslotmap_init 4) s)"
proof -
  let ?step = "x86_step (qslotmap_init 4) 4096"
  let ?w = "sample_run\<lparr>glob := (pool_init 4)\<lparr>pool_idx := 1\<rparr>, pw := PWriting 4096\<rparr>"
  let ?w1 = "?w\<lparr>wq := (spsc_start sample_blq)\<lparr>ppc := PChecked 4096 0 1\<rparr>\<rparr>"
  let ?w2 = "?w\<lparr>wq := (spsc_start sample_blq)\<lparr>ppc := PStored 4096 1\<rparr>\<rparr>"
  let ?w3 = "?w\<lparr>pw := PTest, wq := (spsc_start sample_blq)\<lparr>enq := [4096]\<rparr>\<rparr>"
  let ?b = "[LenStore 0 0, QueueStore (SlotStore 0 4096), QueueStore (WriteStore 1)]"
  let ?s = "\<lambda>w i. \<lparr>xm = w, xbuf = take i ?b, xcbuf = []\<rparr>"
  note defs = x86_start_def sample_run_def workload_start_def spsc_start_def to_tso_def pview_def cview_def
    sample_blq_def
  have "?step (x86_start sample_run) (?s (sample_run\<lparr>pw := PGet\<rparr>) 0)"
    using x_go [of "x86_start sample_run"] by (simp add: defs)
  moreover have "?step (?s (sample_run\<lparr>pw := PGet\<rparr>) 0) (?s ?w 1)"
    using x_mbuf [of "?s (sample_run\<lparr>pw := PGet\<rparr>) 0"] by (simp add: defs pool_init_def mbuf_get_def mbuf_addr_def)
  moreover have "?step (?s ?w 1) (?s ?w1 1)"
    using x_room [of "?s ?w 1" 4096 sample_blq] by (simp add: defs)
  moreover have "?step (?s ?w1 1) (?s ?w2 2)"
    using x_store [of "?s ?w1 1"] by (simp add: defs)
  moreover have "?step (?s ?w2 2) (?s ?w3 3)"
    using x_publish [of "?s ?w2 2"] by (simp add: defs)
  moreover have "?step (?s ?w3 3) (?s (?w3\<lparr>cw := CTest\<rparr>) 3)"
    using y_empty [of "?s ?w3 3" sample_blq] by (simp add: defs)
  moreover have "?step (?s (?w3\<lparr>cw := CTest\<rparr>) 3) (?s (?w3\<lparr>cw := CTest, stop := True\<rparr>) 3)"
    using x_sigint [of _ _ "?s (?w3\<lparr>cw := CTest\<rparr>) 3"] by (simp add: defs)
  moreover have "?step (?s (?w3\<lparr>cw := CTest, stop := True\<rparr>) 3) (?s (?w3\<lparr>cw := CEnd, stop := True\<rparr>) 3)"
    using y_end [of "?s (?w3\<lparr>cw := CTest, stop := True\<rparr>) 3"] by (simp add: defs)
  ultimately have r: "?step\<^sup>*\<^sup>* (x86_start sample_run) (?s (?w3\<lparr>cw := CEnd, stop := True\<rparr>) 3)"
    by (meson converse_rtranclp_into_rtranclp rtranclp.rtrancl_refl)
  have "\<not> deceive_hw_data_prefetcher (Global_new\<lparr>g_qlen := 4\<rparr>)" "4 = g_qlen (Global_new\<lparr>g_qlen := 4\<rparr>)"
    "unat (4 :: u32) \<le> 65536" "(4096 :: u64) \<noteq> 0"
    "unat (4096 :: u64) + 2 * unat (4 :: u32) * sizeof_Mbuf < 2 ^ 64"
    by (simp_all add: sizeof_Mbuf_def Global_new_def)
  from x86_program_checksum [OF sample_run_init this r] r show ?thesis
    by (intro exI [of _ "?s (?w3\<lparr>cw := CEnd, stop := True\<rparr>) 3"]) simp
qed

end
