(* ===== verification/Cover.thy ===== *)
theory Cover
  imports C_Double "HOL-Library.Signed_Division"
begin

text \<open>
  The program \<^verbatim>\<open>guestend/simplified-spscq/cover.cpp\<close>: how many cache lines a batch of queue
  slots covers, and the two experiments that compare the count with a formula.  Values of
  type \<^verbatim>\<open>int\<close> are integers; where the operands come from a caller, a result that does not
  fit in 32 bits makes the model \<open>None\<close>, as does a division by zero.  Doubles are those of
  theory \<open>C_Double\<close>.
\<close>

section \<open>Counting cache lines\<close>

definition int_fits :: "int \<Rightarrow> bool" where
  "int_fits x \<longleftrightarrow> - (2 ^ 31) \<le> x \<and> x < 2 ^ 31"

text \<open>The inner loop: is a slot from \<open>s\<close> up to \<open>e\<close> in the batch?\<close>

function scan_line :: "int \<Rightarrow> int \<Rightarrow> int \<Rightarrow> int \<Rightarrow> bool option" where
  "scan_line first b s e =
     (if s < e then
        if first \<le> s then
          if \<not> int_fits (first + b) then None
          else if s < first + b then Some True
          else scan_line first b (s + 1) e
        else scan_line first b (s + 1) e
      else Some False)"
  by pat_completeness auto

termination
  by (relation "measure (\<lambda>(first, b, s, e). nat (e - s))") auto

declare scan_line.simps [simp del]

text \<open>The outer loop over the lines.\<close>

partial_function (option) lines_loop :: "int \<Rightarrow> int \<Rightarrow> int \<Rightarrow> int \<Rightarrow> int \<Rightarrow> int \<Rightarrow> int option" where
  "lines_loop first b L K k lines =
     (if k \<le> L then
        if \<not> int_fits (k + K) then None
        else Option.bind (scan_line first b k (k + K)) (\<lambda>hit.
          lines_loop first b L K (k + K) (if hit then lines + 1 else lines))
      else Some lines)"

definition covered_cachelines :: "int \<Rightarrow> int \<Rightarrow> int \<Rightarrow> int \<Rightarrow> int option" where
  "covered_cachelines first b L K =
     (if K = 0 \<or> \<not> int_fits (first sdiv K) then None
      else lines_loop first b L K (first sdiv K * K) 0)"

section \<open>The two experiments\<close>

text \<open>
  A counting loop whose body may leave the function with a value: \<open>Inl\<close> the returned
  value, \<open>Inr\<close> the state in which the loop goes on.
\<close>

fun for_each :: "'a list \<Rightarrow> ('a \<Rightarrow> 's \<Rightarrow> ('r + 's) option) \<Rightarrow> 's \<Rightarrow> ('r + 's) option" where
  "for_each [] body st = Some (Inr st)"
| "for_each (x # xs) body st =
     (case body x st of
        None \<Rightarrow> None
      | Some (Inl r) \<Rightarrow> Some (Inl r)
      | Some (Inr st') \<Rightarrow> for_each xs body st')"

text \<open>\<open>ceil((b - 1) / K) + 1\<close>\<close>

definition predict_lines :: "int \<Rightarrow> int \<Rightarrow> rat" where
  "predict_lines b K = dadd (dceil (ddiv (of_int (b - 1)) (of_int K))) 1"

text \<open>
  The state of \<open>cover\<close>: the total error and the lines printed (batch, offset, lines,
  difference).
\<close>

type_synonym cover_state = "int \<times> (int \<times> int \<times> int \<times> int) list"

definition cover_body :: "int \<Rightarrow> int \<Rightarrow> cover_state \<Rightarrow> (int \<times> cover_state + cover_state) option" where
  "cover_body b ofs st =
     Option.bind (covered_cachelines ofs b 256 8) (\<lambda>lines.
       let diff = int_of_double (predict_lines b 8) - lines;
           st = (fst st + \<bar>diff\<bar>, snd st @ [(b, ofs, lines, diff)])
       in Some (if diff < 0 \<or> 1 < diff then Inl (- 1, st) else Inr st))"

definition cover :: "(int \<times> cover_state) option" where
  "cover =
     map_option (case_sum id (\<lambda>st. (0, st)))
       (for_each [1..256] (\<lambda>b. for_each [0..7] (cover_body b)) (0, []))"

text \<open>The loop of \<open>roll\<close> over the batches of one pass over the queue.\<close>

partial_function (option) misses_loop :: "int \<Rightarrow> int \<Rightarrow> int \<Rightarrow> int \<Rightarrow> int \<Rightarrow> int option" where
  "misses_loop b L K cur misses =
     (if cur < L then
        Option.bind (covered_cachelines cur b L K) (\<lambda>lines. misses_loop b L K (cur + b) (misses + lines))
      else Some misses)"

text \<open>
  The state of \<open>roll\<close>: the total error, the number of cases and the lines printed (batch,
  offset, rate, prediction, difference).
\<close>

type_synonym roll_state = "rat \<times> int \<times> (int \<times> int \<times> rat \<times> rat \<times> rat) list"

definition roll_body :: "int \<Rightarrow> int \<Rightarrow> roll_state \<Rightarrow> (int \<times> roll_state + roll_state) option" where
  "roll_body b ofs st =
     Option.bind (misses_loop b 4096 8 ofs 0) (\<lambda>misses.
       let rate = ddiv (of_int misses) 4096;
           predict = ddiv (predict_lines b 8) (of_int b);
           diff = dsub predict rate;
           st = (dadd (fst st) \<bar>diff\<bar>, fst (snd st) + 1,
                 snd (snd st) @ [(b, ofs, rate, predict, diff)])
       in Some (if diff < - double_of (1 / 100) then Inl (- 1, st) else Inr st))"

definition roll :: "(int \<times> roll_state) option" where
  "roll =
     map_option (case_sum id (\<lambda>st. (0, st)))
       (for_each [1..64] (\<lambda>b. for_each [0..b - 1] (roll_body b)) (0, 0, []))"

text \<open>\<open>main\<close> returns at the first option; the argument is what \<open>getopt\<close> returns.\<close>

definition cover_main :: "char list \<Rightarrow> int option" where
  "cover_main opts =
     (case opts of
        [] \<Rightarrow> Some 0
      | opt # _ \<Rightarrow>
          if opt = CHR ''h'' then Some 0
          else if opt = CHR ''c'' then map_option fst cover
          else if opt = CHR ''r'' then map_option fst roll
          else Some 0)"

section \<open>What the count means\<close>

text \<open>The lines that hold a slot of the batch.\<close>

definition batch_lines :: "int \<Rightarrow> int \<Rightarrow> int \<Rightarrow> int set" where
  "batch_lines first b K = (\<lambda>s. s div K) ` {first..<first + b}"

lemma finite_batch_lines [simp]: "finite (batch_lines first b K)"
  by (simp add: batch_lines_def)

lemma scan_line_finds:
  assumes "int_fits (first + b)"
  shows "scan_line first b s e = Some (\<exists>x. s \<le> x \<and> x < e \<and> first \<le> x \<and> x < first + b)"
  using assms
proof (induction first b s e rule: scan_line.induct)
  case (1 first b s e)
  show ?case
  proof (cases "s < e \<and> \<not> (first \<le> s \<and> s < first + b)")
    case True
    then have "scan_line first b s e = scan_line first b (s + 1) e"
      using "1.prems" by (subst scan_line.simps) auto
    also have "\<dots> = Some (\<exists>x. s + 1 \<le> x \<and> x < e \<and> first \<le> x \<and> x < first + b)"
      using 1 True by (cases "first \<le> s") auto
    also have "(\<exists>x. s + 1 \<le> x \<and> x < e \<and> first \<le> x \<and> x < first + b) \<longleftrightarrow>
        (\<exists>x. s \<le> x \<and> x < e \<and> first \<le> x \<and> x < first + b)"
      using True by (metis add_le_cancel_right dual_order.order_iff_strict zless_imp_add1_zle zle_add1_eq_le)
    finally show ?thesis .
  next
    case False
    then show ?thesis using "1.prems" by (subst scan_line.simps) auto
  qed
qed

lemma div_eq_iff_int:
  assumes "(0 :: int) < K"
  shows "x div K = q \<longleftrightarrow> q * K \<le> x \<and> x < q * K + K"
proof
  assume "x div K = q"
  then have "x = q * K + x mod K" by (metis div_mult_mod_eq)
  then show "q * K \<le> x \<and> x < q * K + K"
    using assms pos_mod_sign [of K x] pos_mod_bound [of K x] by linarith
next
  assume a: "q * K \<le> x \<and> x < q * K + K"
  then have "x = K * q + (x - q * K)" "0 \<le> x - q * K" "x - q * K < K" by (auto simp: algebra_simps)
  then show "x div K = q" by (metis int_div_pos_eq)
qed

lemma scan_line_batch:
  assumes "0 < K" "int_fits (first + b)"
  shows "scan_line first b (q * K) (q * K + K) = Some (q \<in> batch_lines first b K)"
  using assms(1) by (auto simp: scan_line_finds [OF assms(2)] batch_lines_def image_iff Bex_def div_eq_iff_int
      eq_commute [of q])

lemma le_div_iff_int: "(0 :: int) < K \<Longrightarrow> q \<le> x div K \<longleftrightarrow> q * K \<le> x"
  by (smt (verit) div_eq_iff_int div_le_mono mult_le_cancel_right nonzero_mult_div_cancel_right zdiv_mono1)

lemma lines_loop_counts:
  assumes K: "0 < K" "int_fits (first + b)" "int_fits (L + K)" and "int_fits (q * K)"
  shows "lines_loop first b L K (q * K) n
         = Some (n + int (card (batch_lines first b K \<inter> {q..L div K})))"
  using assms(4)
proof (induction "nat (L div K + 1 - q)" arbitrary: q n)
  case 0
  then have "L < q * K" using le_div_iff_int [OF K(1), of q L] by linarith
  moreover have "{q..L div K} = {}" using 0 by auto
  ultimately show ?case by (subst lines_loop.simps) simp
next
  case (Suc d)
  then have le: "q \<le> L div K" by linarith
  then have qL: "q * K \<le> L" using le_div_iff_int [OF K(1)] by blast
  then have fits: "int_fits ((q + 1) * K)" using K Suc.prems by (auto simp: int_fits_def distrib_right)
  let ?n = "if q \<in> batch_lines first b K then n + 1 else n"
  have "lines_loop first b L K (q * K) n = lines_loop first b L K ((q + 1) * K) ?n"
    using qL fits by (subst lines_loop.simps) (simp add: scan_line_batch [OF K(1,2)] distrib_right)
  also have "\<dots> = Some (?n + int (card (batch_lines first b K \<inter> {q + 1..L div K})))"
    using Suc fits by (intro Suc.hyps) auto
  also have "{q..L div K} = insert q {q + 1..L div K}" using le by auto
  ultimately show ?case by auto
qed

lemma batch_lines_ge: "0 < K \<Longrightarrow> q \<in> batch_lines first b K \<Longrightarrow> first div K \<le> q"
  by (auto simp: batch_lines_def zdiv_mono1)

lemma sdiv_nonneg: "0 \<le> (x :: int) \<Longrightarrow> 0 < y \<Longrightarrow> x sdiv y = x div y"
  by (simp add: signed_divide_int_def sgn_if)

lemma covered_cachelines_card:
  assumes "0 < K" "0 \<le> first" "int_fits first" "int_fits (first + b)" "int_fits (L + K)"
  shows "covered_cachelines first b L K = Some (int (card {q \<in> batch_lines first b K. q * K \<le> L}))"
proof -
  have "first div K * K \<le> first" "0 \<le> first div K" using assms
    by (auto simp: div_eq_iff_int [of K first "first div K", simplified] pos_imp_zdiv_nonneg_iff)
  moreover then have "first div K * 1 \<le> first div K * K" using assms(1) by (intro mult_left_mono) auto
  moreover have "0 \<le> first div K * K" using assms(1) \<open>0 \<le> first div K\<close> by simp
  ultimately have fits: "int_fits (first div K * K)" "int_fits (first div K)"
    using assms(3) unfolding int_fits_def by linarith+
  have "{q \<in> batch_lines first b K. q * K \<le> L} = batch_lines first b K \<inter> {first div K..L div K}"
    using batch_lines_ge [OF assms(1)] le_div_iff_int [OF assms(1)] by auto
  then show ?thesis
    using fits lines_loop_counts [OF assms(1,4,5), of "first div K" 0] assms(1,2)
    by (simp add: covered_cachelines_def sdiv_nonneg)
qed

lemma batch_lines_interval:
  assumes "0 < K" "0 < b"
  shows "batch_lines first b K = {first div K..(first + b - 1) div K}"
proof (intro equalityI subsetI)
  fix q assume "q \<in> {first div K..(first + b - 1) div K}"
  then have "first div K * K \<le> q * K" "q * K \<le> first + b - 1"
    using assms(1) le_div_iff_int [OF assms(1), of q "first + b - 1"] by (auto intro: mult_right_mono)
  moreover have "first < first div K * K + K"
    using div_eq_iff_int [OF assms(1), of first "first div K"] by simp
  ultimately have "q * K \<le> first + b - 1" "first < q * K + K" by linarith+
  then have "max first (q * K) div K = q" "max first (q * K) \<in> {first..<first + b}"
    using assms by (auto simp: div_eq_iff_int)
  then show "q \<in> batch_lines first b K" unfolding batch_lines_def by (metis imageI)
qed (use assms in \<open>auto simp: batch_lines_def zdiv_mono1\<close>)

text \<open>The number of lines when the whole batch lies below the end of the array.\<close>

lemma covered_cachelines_closed:
  assumes "0 < K" "0 < b" "0 \<le> first" "int_fits first" "int_fits (first + b)" "int_fits (L + K)"
  shows "covered_cachelines first b L K
         = Some (max 0 (min ((first + b - 1) div K) (L div K) - first div K + 1))"
proof -
  have "{q \<in> batch_lines first b K. q * K \<le> L}
        = {first div K..min ((first + b - 1) div K) (L div K)}"
    using le_div_iff_int [OF assms(1)] by (auto simp: batch_lines_interval assms)
  then show ?thesis using covered_cachelines_card [OF assms(1,3-6)] by (simp add: max_def)
qed

section \<open>The formula of the experiments\<close>

lemma ceiling_div_8: "\<lceil>of_int n / (8 :: rat)\<rceil> = (n + 7) div 8"
proof -
  have "- ((- n) div 8) = (n + 7) div 8" by presburger
  then show ?thesis
    by (metis ceiling_divide_eq_div minus_divide_left of_int_minus of_int_numeral)
qed

lemma predict_lines_eq:
  assumes "1 \<le> b" "b \<le> 256"
  shows "predict_lines b 8 = of_int ((b + 6) div 8 + 1)"
proof -
  have "ddiv (of_int (b - 1)) 8 = of_int (b - 1) / 8"
    unfolding ddiv_def by (rule double_of_exact [where k = 8 and n = 3 and i = "b - 1"])
      (use assms in auto)
  then have "dceil (ddiv (of_int (b - 1)) (of_int 8)) = of_int ((b + 6) div 8)"
    by (simp only: dceil_def ceiling_div_8 of_int_numeral) simp
  moreover have "double_of (of_int ((b + 6) div 8) + 1) = of_int ((b + 6) div 8) + 1"
    by (rule double_of_exact [where k = 8 and n = 0 and i = "(b + 6) div 8 + 1"])
      (use assms in auto)
  ultimately show ?thesis by (simp add: predict_lines_def dadd_def)
qed

text \<open>A batch of \<open>b\<close> slots covers the predicted number of lines or one less.\<close>

lemma predict_bounds:
  assumes "1 \<le> (b :: int)"
  shows "(first + b - 1) div 8 - first div 8 \<le> (b + 6) div 8"
    and "(b + 6) div 8 \<le> (first + b - 1) div 8 - first div 8 + 1"
  using assms by presburger+

lemma for_each_all:
  assumes "\<And>x st. x \<in> List.set xs \<Longrightarrow> body x st = Some (Inr (g x st))"
  shows "for_each xs body st = Some (Inr (fold g xs st))"
  using assms by (induction xs arbitrary: st) auto

text \<open>A loop that adds to a total and appends to the output.\<close>

lemma for_each_accumulates:
  assumes "\<And>x st. x \<in> List.set xs \<Longrightarrow> body x st = Some (Inr (fst st + d x, snd st @ l x))"
  shows "for_each xs body st
         = Some (Inr (fst st + (\<Sum>x\<leftarrow>xs. d x :: int), snd st @ concat (map l xs)))"
  using assms by (induction xs arbitrary: st) (auto simp: add.assoc)

definition cover_diff :: "int \<Rightarrow> int \<Rightarrow> int" where
  "cover_diff b ofs = (b + 6) div 8 - (ofs + b - 1) div 8"

lemma cover_body_eq:
  assumes "1 \<le> b" "b \<le> 256" "0 \<le> ofs" "ofs \<le> 7"
  shows "cover_body b ofs st
         = Some (Inr (fst st + cover_diff b ofs, snd st @ [(b, ofs, (ofs + b - 1) div 8 + 1, cover_diff b ofs)]))"
proof -
  have "covered_cachelines ofs b 256 8 = Some ((ofs + b - 1) div 8 + 1)"
    using assms by (subst covered_cachelines_closed) (auto simp: int_fits_def)
  moreover have "int_of_double (predict_lines b 8) = (b + 6) div 8 + 1"
    using assms by (simp add: predict_lines_eq int_of_double_def del: of_int_add)
  moreover have "0 \<le> cover_diff b ofs" "cover_diff b ofs \<le> 1"
    using predict_bounds [of b ofs] assms by (auto simp: cover_diff_def)
  ultimately show ?thesis by (simp add: cover_body_def Let_def cover_diff_def)
qed

lemma cover_total: "(\<Sum>b\<leftarrow>[1..256]. \<Sum>ofs\<leftarrow>[0..7]. cover_diff b ofs) = 896"
  by code_simp

lemma cover_returns:
  "cover = Some (0, 896, concat (map (\<lambda>b. map (\<lambda>ofs.
     (b, ofs, (ofs + b - 1) div 8 + 1, cover_diff b ofs)) [0..7]) [1..256]))"
proof -
  have "for_each [0..7] (cover_body b) st
        = Some (Inr (fst st + (\<Sum>ofs\<leftarrow>[0..7]. cover_diff b ofs),
             snd st @ map (\<lambda>ofs. (b, ofs, (ofs + b - 1) div 8 + 1, cover_diff b ofs)) [0..7]))"
    if "b \<in> List.set [1..256]" for b st
    using that by (subst for_each_accumulates
        [where d = "cover_diff b" and l = "\<lambda>ofs. [(b, ofs, (ofs + b - 1) div 8 + 1, cover_diff b ofs)]"])
      (auto simp: cover_body_eq simp del: upto_rec_numeral)
  then have "for_each [1..256] (\<lambda>b. for_each [0..7] (cover_body b)) (0, [])
     = Some (Inr (896, concat (map (\<lambda>b. map (\<lambda>ofs.
         (b, ofs, (ofs + b - 1) div 8 + 1, cover_diff b ofs)) [0..7]) [1..256])))"
    by (subst for_each_accumulates) (auto simp only: cover_total fst_conv snd_conv append_Nil add_0)
  then show ?thesis by (simp only: cover_def option.map sum.case)
qed

section \<open>Rolling over a queue\<close>

lemma misses_loop_bound:
  assumes "1 \<le> b" "b \<le> 64" "0 \<le> cur" "cur \<le> 4095 + b"
  shows "\<exists>m. misses_loop b 4096 8 cur n = Some m \<and> n \<le> m \<and>
             m \<le> n + ((b + 6) div 8 + 1) * ((4095 - cur + b) div b)"
  using assms(3,4)
proof (induction "nat (4096 - cur)" arbitrary: cur n rule: less_induct)
  case less
  show ?case
  proof (cases "cur < 4096")
    case False
    then have "0 \<le> (4095 - cur + b) div b" using less assms by (simp add: pos_imp_zdiv_nonneg_iff)
    then have "0 \<le> ((b + 6) div 8 + 1) * ((4095 - cur + b) div b)" using assms by simp
    then show ?thesis using False by (subst misses_loop.simps) auto
  next
    case True
    define l where "l = max 0 (min ((cur + b - 1) div 8) 512 - cur div 8 + 1)"
    have l: "covered_cachelines cur b 4096 8 = Some l"
      using assms less True by (subst covered_cachelines_closed) (auto simp: int_fits_def l_def)
    have l_le: "0 \<le> l" "l \<le> (b + 6) div 8 + 1"
      using predict_bounds(1) [of b cur] assms by (auto simp: l_def)
    obtain m where m: "misses_loop b 4096 8 (cur + b) (n + l) = Some m" "n + l \<le> m"
      "m \<le> n + l + ((b + 6) div 8 + 1) * ((4095 - (cur + b) + b) div b)"
      using less(1) [of "cur + b" "n + l"] less True assms by auto
    have "(4095 - cur + b) div b = (4095 - (cur + b) + b) div b + 1"
      using assms by (simp add: div_add_self2)
    then have "l + ((b + 6) div 8 + 1) * ((4095 - (cur + b) + b) div b)
               \<le> ((b + 6) div 8 + 1) * ((4095 - cur + b) div b)"
      using l_le by (simp add: distrib_left)
    then have "m \<le> n + ((b + 6) div 8 + 1) * ((4095 - cur + b) div b)" "n \<le> m"
      using m l_le by linarith+
    moreover have "misses_loop b 4096 8 cur n = Some m"
      using m l True by (subst misses_loop.simps) simp
    ultimately show ?thesis by blast
  qed
qed

text \<open>The rate of misses exceeds the prediction by at most \<open>9/4096\<close> before rounding.\<close>

lemma rate_bound:
  assumes "1 \<le> b" "b \<le> 64" "0 \<le> ofs" "ofs < b"
  shows "\<exists>m. misses_loop b 4096 8 ofs 0 = Some m \<and> 0 \<le> m \<and> m \<le> 40960 \<and>
             (of_int m / 4096 :: rat) \<le> of_int ((b + 6) div 8 + 1) / of_int b + 9 / 4096"
proof -
  define P where "P = (b + 6) div 8 + 1"
  obtain m where m: "misses_loop b 4096 8 ofs 0 = Some m" "0 \<le> m" "m \<le> P * ((4095 - ofs + b) div b)"
    using misses_loop_bound [of b ofs 0] assms unfolding P_def by auto
  have P: "0 < P" "P \<le> 9" "P \<le> b + 1" using assms unfolding P_def by presburger+
  have "(4095 - ofs + b) div b * b \<le> 4095 - ofs + b"
    using assms by (subst le_div_iff_int [symmetric]) auto
  then have "P * ((4095 - ofs + b) div b * b) \<le> P * (4095 + b)"
    using P assms by (intro mult_left_mono) auto
  moreover have "m * b \<le> P * ((4095 - ofs + b) div b * b)"
    using mult_right_mono [OF m(3), of b] assms(1) by (simp only: mult.assoc)
  ultimately have mb: "m * b \<le> P * (4095 + b)" by linarith
  then have "m * b \<le> P * 4096 + P * (b - 1)" by (simp add: algebra_simps)
  also have "\<dots> \<le> P * 4096 + 9 * b"
    using P assms mult_mono [of P 9 "b - 1" b] by simp
  finally have "of_int (m * b) \<le> (of_int (P * 4096 + 9 * b) :: rat)" by (simp only: of_int_le_iff)
  then have "(of_int m / 4096 :: rat) \<le> of_int P / of_int b + 9 / 4096"
    using assms by (simp add: field_simps)
  moreover have "m \<le> 40960"
  proof -
    have "m * b \<le> P * (4095 + b)" by (rule mb)
    also have "\<dots> \<le> (b + 1) * 4159" using P assms by (intro mult_mono) auto
    also have "\<dots> \<le> 40960 * b" using assms by simp
    finally show ?thesis using assms by simp
  qed
  ultimately show ?thesis using m unfolding P_def by blast
qed

lemma rounded_diff_bound:
  assumes "0 \<le> r" "r \<le> 10" "0 \<le> p" "p \<le> 10" "r \<le> p + 9 / 4096"
  shows "- (1 / 400) \<le> dsub (double_of p) (double_of r)"
proof -
  define e :: rat where "e = 1 / 2 ^ 40"
  have le: "\<bar>double_of x - x\<bar> \<le> e" if "\<bar>x\<bar> \<le> 30" for x
  proof -
    have "\<bar>double_of x - x\<bar> \<le> \<bar>x\<bar> / 2 ^ 53" by (rule double_of_error)
    also have "\<dots> \<le> 30 / 2 ^ 53" using that by (intro divide_right_mono) auto
    also have "\<dots> \<le> e" by (simp add: e_def)
    finally show ?thesis .
  qed
  define R where "R = double_of r"
  define Q where "Q = double_of p"
  have e: "e \<le> 1 / 100000" by (simp add: e_def)
  have R: "\<bar>R - r\<bar> \<le> e" "\<bar>Q - p\<bar> \<le> e"
    using le [of r] le [of p] assms by (auto simp: R_def Q_def)
  then have "\<bar>Q - R\<bar> \<le> 30" using assms e by linarith
  then have "\<bar>dsub Q R - (Q - R)\<bar> \<le> e" using le [of "Q - R"] by (simp add: dsub_def)
  then have "- (1 / 400) \<le> dsub Q R" using R e assms(5) by linarith
  then show ?thesis by (simp add: R_def Q_def)
qed

text \<open>The state after one round of \<open>roll\<close>, and that no round returns early.\<close>

definition roll_line_ok :: "int \<times> int \<times> rat \<times> rat \<times> rat \<Rightarrow> bool" where
  "roll_line_ok l \<longleftrightarrow> (case l of (b, ofs, rate, predict, diff) \<Rightarrow> - (1 / 400) \<le> diff)"

lemma roll_body_goes_on:
  assumes "1 \<le> b" "b \<le> 64" "0 \<le> ofs" "ofs < b"
  shows "\<exists>tot l. roll_body b ofs st = Some (Inr (tot, fst (snd st) + 1, snd (snd st) @ [l])) \<and> roll_line_ok l"
proof -
  obtain m where m: "misses_loop b 4096 8 ofs 0 = Some m" "0 \<le> m" "m \<le> 40960"
    "(of_int m / 4096 :: rat) \<le> of_int ((b + 6) div 8 + 1) / of_int b + 9 / 4096"
    using rate_bound [OF assms] by blast
  define p :: rat where "p = of_int ((b + 6) div 8 + 1) / of_int b"
  have "(b + 6) div 8 + 1 \<le> 10 * b" using assms by linarith
  then have "of_int ((b + 6) div 8 + 1) \<le> (of_int (10 * b) :: rat)" by (simp only: of_int_le_iff)
  then have p: "0 \<le> p" "p \<le> 10" using assms unfolding p_def by (auto simp: field_simps)
  have r: "(of_int m / 4096 :: rat) \<le> 10" "0 \<le> (of_int m / 4096 :: rat)"
    using m of_int_le_iff [of m 40960, where 'a = rat] by auto
  have diff: "- (1 / 400) \<le> dsub (double_of p) (double_of (of_int m / 4096))"
    by (rule rounded_diff_bound) (use m p r in \<open>auto simp: p_def\<close>)
  moreover have "1 / 400 < double_of (1 / 100)"
  proof -
    have "\<bar>double_of (1 / 100) - 1 / 100\<bar> \<le> 1 / 1000" by (rule order_trans [OF double_of_error]) simp
    then show ?thesis by linarith
  qed
  moreover have "ddiv (predict_lines b 8) (of_int b) = double_of p"
    using assms by (simp add: predict_lines_eq ddiv_def p_def)
  ultimately show ?thesis
    by (auto simp: roll_body_def m(1) Let_def ddiv_def roll_line_ok_def)
qed

lemma for_each_invariant:
  assumes "\<And>x st. x \<in> List.set xs \<Longrightarrow> I st \<Longrightarrow> \<exists>st'. body x st = Some (Inr st') \<and> I st' \<and> cnt st' = cnt st + d x"
    and "I st"
  shows "\<exists>st'. for_each xs body st = Some (Inr st') \<and> I st' \<and> cnt st' = cnt st + (\<Sum>x\<leftarrow>xs. d x :: int)"
  using assms
proof (induction xs arbitrary: st)
  case (Cons x xs)
  obtain st1 where st1: "body x st = Some (Inr st1)" "I st1" "cnt st1 = cnt st + d x"
    using Cons.prems by force
  obtain st' where "for_each xs body st1 = Some (Inr st')" "I st'" "cnt st' = cnt st1 + (\<Sum>x\<leftarrow>xs. d x)"
    using Cons.IH [of st1] Cons.prems(1) st1(2) by force
  then show ?case using st1 by (auto simp: add.assoc)
qed simp

lemma roll_returns:
  "\<exists>total out. roll = Some (0, total, 2080, out) \<and> length out = 2080 \<and> list_all roll_line_ok out"
proof -
  define I :: "roll_state \<Rightarrow> bool" where
    "I = (\<lambda>st. int (length (snd (snd st))) = fst (snd st) \<and> list_all roll_line_ok (snd (snd st)))"
  have inner: "\<exists>st'. for_each [0..b - 1] (roll_body b) st = Some (Inr st') \<and> I st' \<and>
      fst (snd st') = fst (snd st) + b" if "b \<in> List.set [1..64]" "I st" for b st
  proof -
    have "\<exists>st'. for_each [0..b - 1] (roll_body b) st = Some (Inr st') \<and> I st' \<and>
      fst (snd st') = fst (snd st) + (\<Sum>x\<leftarrow>[0..b - 1]. 1)"
    proof (rule for_each_invariant)
      fix ofs st assume "ofs \<in> List.set [0..b - 1]" "I st"
      then show "\<exists>st'. roll_body b ofs st = Some (Inr st') \<and> I st' \<and> fst (snd st') = fst (snd st) + 1"
        using roll_body_goes_on [of b ofs st] that(1) by (fastforce simp: I_def)
    qed (fact that)
    then show ?thesis using that(1) by (auto simp: sum_list_triv)
  qed
  have "\<exists>st'. for_each [1..64] (\<lambda>b. for_each [0..b - 1] (roll_body b)) (0, 0, []) = Some (Inr st') \<and> I st' \<and>
      fst (snd st') = fst (snd (0 :: rat, 0 :: int, [] :: (int \<times> int \<times> rat \<times> rat \<times> rat) list)) + (\<Sum>b\<leftarrow>[1..64]. b)"
    by (rule for_each_invariant) (use inner in \<open>auto simp: I_def\<close>)
  moreover have "(\<Sum>b\<leftarrow>[1..64]. b :: int) = 2080" by code_simp
  ultimately show ?thesis by (auto simp: roll_def I_def simp del: upto_rec_numeral)
qed

section \<open>Properties\<close>

text \<open>C21.  Counting by the two loops agrees with the set of lines: for a positive line size and
  arguments whose sums fit in an \<^verbatim>\<open>int\<close> the function returns, and its result is the number of
  distinct cache lines that hold a slot of the batch and start at or before \<open>L\<close>.\<close>

theorem covered_cachelines_counts_lines:
  assumes "0 < K" "0 \<le> first" "int_fits first" "int_fits (first + b)" "int_fits (L + K)"
  shows "covered_cachelines first b L K
         = Some (int (card {q. q * K \<le> L \<and> (\<exists>s. first \<le> s \<and> s < first + b \<and> s div K = q)}))"
proof -
  have "{q. q * K \<le> L \<and> (\<exists>s. first \<le> s \<and> s < first + b \<and> s div K = q)}
        = {q \<in> batch_lines first b K. q * K \<le> L}"
    by (auto simp: batch_lines_def)
  then show ?thesis using covered_cachelines_card [OF assms] by simp
qed

theorem covered_cachelines_counts_lines_witness:
  "covered_cachelines 6 5 256 8
     = Some (int (card {q. q * 8 \<le> 256 \<and> (\<exists>s. 6 \<le> s \<and> s < 6 + 5 \<and> s div (8 :: int) = q)}))
   \<and> covered_cachelines 6 5 256 8 = Some 2"
proof
  show "covered_cachelines 6 5 256 8
     = Some (int (card {q. q * 8 \<le> 256 \<and> (\<exists>s. 6 \<le> s \<and> s < 6 + 5 \<and> s div (8 :: int) = q)}))"
    by (rule covered_cachelines_counts_lines) (auto simp: int_fits_def)
  show "covered_cachelines 6 5 256 8 = Some 2"
    by (subst covered_cachelines_closed) (auto simp: int_fits_def)
qed

text \<open>C33.  Both experiments end with success: for every batch of at most 256 slots and every offset
  the formula of \<open>cover\<close> is exact or one too high, with a total error of 896 over the 2048
  cases, and in all 2080 cases of \<open>roll\<close>, computed in doubles, the rate of misses exceeds
  the prediction by at most \<open>1/400\<close>, within the tolerated \<open>1/100\<close>.  So \<open>main\<close> returns 0
  whatever its options.\<close>

theorem experiments_confirm_formula:
  "cover = Some (0, 896, concat (map (\<lambda>b. map (\<lambda>ofs.
       (b, ofs, (ofs + b - 1) div 8 + 1, cover_diff b ofs)) [0..7]) [1..256])) \<and>
   (\<exists>total out. roll = Some (0, total, 2080, out) \<and> length out = 2080 \<and> list_all roll_line_ok out) \<and>
   cover_main opts = Some 0"
proof -
  have "map_option fst cover = Some 0" by (simp only: cover_returns option.map fst_conv)
  moreover have "map_option fst roll = Some 0" using roll_returns by force
  ultimately have "cover_main opts = Some 0" by (simp add: cover_main_def split: list.split)
  then show ?thesis using cover_returns roll_returns by blast
qed

end
