(* ===== verification/Testdemo.thy ===== *)
theory Testdemo
  imports Huc_System
begin

text \<open>
  The demo driver of \<^verbatim>\<open>guestend/driver/testdemo-drv.c\<close> (as compiled: neither
  \<^verbatim>\<open>TEST_64BIT_MMIO\<close> nor \<^verbatim>\<open>COPY_BYTE_TO_BYTE\<close> is defined) and the tool
  \<^verbatim>\<open>guestend/rw-testdemo.c\<close> that exercises it.  The demo device is a block of plain
  memory of a given size behind BAR 1.  The events of probe and remove are those of the
  driver theory.
\<close>

section \<open>The driver\<close>

record testdemo =
  td_size :: nat
  td_mem :: mem

text \<open>
  Both calls copy from the start of the BAR whatever the file offset is, and ignore how many
  bytes the copy really moved; \<open>moved\<close> is that number.
\<close>

definition testdemo_read :: "nat \<Rightarrow> testdemo \<Rightarrow> nat \<Rightarrow> c_fault + int \<times> bytes" where
  "testdemo_read moved d len =
     (if len \<le> td_size d then Inr (int len, mem_get (td_mem d) 0 (min moved len))
      else Inl OutOfBounds)"

definition testdemo_write :: "nat \<Rightarrow> testdemo \<Rightarrow> bytes \<Rightarrow> nat \<Rightarrow> c_fault + int \<times> testdemo" where
  "testdemo_write moved d data len =
     (if len \<le> td_size d
      then Inr (int len, d\<lparr>td_mem := mem_put (td_mem d) 0 (take (min moved len) data)\<rparr>)
      else Inl OutOfBounds)"

definition testdemo_ioctl :: "u32 \<Rightarrow> int" where
  "testdemo_ioctl cmd = 0"

definition testdemo_probe :: "probe_env \<Rightarrow> int \<times> drv_event list" where
  "testdemo_probe env =
     (let t = [Acquire ChrdevRegion, Acquire Cdev] in
      if \<not> pe_class_ok env then (- EINVAL, t)
      else let t = t @ [Acquire ClassObj, Acquire DeviceNode] in
      if pe_enable env < 0 then (1, t)
      else let t = t @ [Acquire PciEnabled] in
      if pe_region env \<noteq> 0 then (1, t)
      else let t = t @ [Acquire BarRegion] in
      if \<not> pe_iomap env then (1, t)
      else (0, t @ [Acquire Iomap]))"

definition testdemo_pci_remove :: "drv_event list" where
  "testdemo_pci_remove =
     [Release DeviceNode, Release ClassObj, Release Cdev, Release ChrdevMajor, Release Iomap,
      Release BarRegion]"

text \<open>
  The table of devices and the registration with the PCI core, which probes every device that
  matches.
\<close>

definition TESTDEMO_DEVICE_ID :: u16 where "TESTDEMO_DEVICE_ID = 0x5679"

definition testdemo_pci_ids :: "(u16 \<times> u16) list" where
  "testdemo_pci_ids = [(QEMU_VENDOR_ID, TESTDEMO_DEVICE_ID)]"

definition testdemo_init :: "int \<Rightarrow> (pci_class \<times> probe_env) list \<Rightarrow> int \<times> drv_event list" where
  "testdemo_init register_ret devs =
     (if register_ret < 0 then (1, [])
      else (0, concat (map (\<lambda>(c, env). if pci_match testdemo_pci_ids c then snd (testdemo_probe env) else []) devs)))"

definition testdemo_exit :: "nat \<Rightarrow> drv_event list" where
  "testdemo_exit bound = concat (replicate bound testdemo_pci_remove)"

text \<open>The two drivers never claim the same device.\<close>

lemma drivers_do_not_compete: "\<not> (pci_match pci_ids c \<and> pci_match testdemo_pci_ids c)"
  by (auto simp: pci_match_def pci_ids_def testdemo_pci_ids_def TESTDEMO_DEVICE_ID_def HUC_DEVICE_ID_def)

text \<open>Loading and unloading the module leaves the PCI device enabled and the character
  region registered.\<close>

lemma testdemo_unload_leaves:
  assumes "testdemo_init 0 [(c, env)] = (0, es)" "pci_match testdemo_pci_ids c" "fst (testdemo_probe env) = 0"
  shows "held (es @ testdemo_exit 1) = {ChrdevRegion, PciEnabled}"
  using assms
  by (auto simp: testdemo_init_def testdemo_exit_def testdemo_probe_def testdemo_pci_remove_def held_def
      Let_def EINVAL_def split: if_splits)

section \<open>The tool\<close>

definition SIZE_64BYTE :: nat where "SIZE_64BYTE = 64"

text \<open>
  The result is the exit code, the device afterwards and the 64-byte buffer the tool prints.
  \<open>file\<close> is what \<^verbatim>\<open>fopen(argv[2])\<close> finds; the argument must exist.  A read leaves the
  bytes it does not fill at their initial zero.
\<close>

definition rw_testdemo_main ::
    "string list \<Rightarrow> int \<Rightarrow> bytes option \<Rightarrow> nat \<Rightarrow> testdemo \<Rightarrow> c_fault + int \<times> testdemo \<times> bytes" where
  "rw_testdemo_main argv open_ret file moved d =
     (let zeros = replicate SIZE_64BYTE 0 in
      if length argv < 2 then Inr (0, d, zeros)
      else if open_ret < 0 then Inr (1, d, zeros)
      else if argv ! 1 = ''r'' then
        rbind (testdemo_read moved d SIZE_64BYTE) (\<lambda>(ret, bs). Inr (0, d, bs @ drop (length bs) zeros))
      else if argv ! 1 = ''w'' then
        (if length argv < 3 then Inl NullDeref
         else case file of
           None \<Rightarrow> Inr (-1, d, zeros)
         | Some content \<Rightarrow>
             let tmp = take SIZE_64BYTE content
             in rbind (testdemo_write moved d tmp (length tmp)) (\<lambda>(ret, d). Inr (0, d, zeros)))
      else Inr (0, d, zeros))"

section \<open>Properties of the demo\<close>

lemma testdemo_remove_after_probe:
  "testdemo_probe env = (0, t) \<Longrightarrow> held (t @ testdemo_pci_remove) = {ChrdevRegion, PciEnabled}"
  by (auto simp: testdemo_probe_def testdemo_pci_remove_def held_def Let_def EINVAL_def split: if_splits)



end
