(* ===== verification/Spec2Isabelle.thy ===== *)
theory Spec2Isabelle
  imports Huc_Concurrent Huc_Monitor Huc_Copies Hucdev_Remap Spscq_X86 Cover Testdemo
begin

text \<open>
  A verification library for the hyperupcall project (\<^verbatim>\<open>src/\<close>): a host injects an eBPF
  program into a guest through a QEMU device; the program records the CPU masks that guest
  applications ask for, a daemon forwards them, and the device binds the vCPU threads of
  the guest accordingly.

  \<^bold>\<open>Parts and how they interact.\<close>  The host tools (\<^verbatim>\<open>hostend/\<close>) send messages over TCP
  to the device (\<^verbatim>\<open>qemu-patch/hucdev.c\<close>), which stores them in its buffer and raises an
  interrupt.  The guest driver (\<^verbatim>\<open>guestend/driver/huc-driver.c\<close>) acknowledges it and lets
  a reader of \<^verbatim>\<open>/dev/hucdev\<close> fetch the message word by word.  The daemon
  (\<^verbatim>\<open>guestend/daemon.c\<close>) saves the payload, loads it in a child process, polls the map that
  the eBPF program (\<^verbatim>\<open>guestend/bytecode.c\<close>) fills, and passes each mask back to the device
  by \<^verbatim>\<open>ioctl\<close>.  The queue program of \<^verbatim>\<open>guestend/simplified-spscq/\<close> and the programs of
  \<^verbatim>\<open>guestend/affinity_test/\<close> are the workloads of the experiments; \<^verbatim>\<open>testdemo-drv.c\<close> and
  \<^verbatim>\<open>rw-testdemo.c\<close> are a smaller demo of the same kind.

  \<^bold>\<open>Theories.\<close>

  \<^item> \<open>Huc_Prelude\<close>: C integer types as words, faults as the left side of a sum
    (\<open>rbind\<close> sequences), little-endian bytes, blocks of bytes, words with one bit set,
    simulations between step relations.
  \<^item> \<open>Huc_Msg\<close>: the message header (\<^verbatim>\<open>huc_msg.h\<close>, \<^verbatim>\<open>bpf_injection_msg.h\<close>), its memory
    image as the host, the device and the driver see it, and the functions that build a
    message from a file.
  \<^item> \<open>Huc_Hostend\<close>: \<^verbatim>\<open>injectByteCode\<close>, \<^verbatim>\<open>injectProgram\<close>, \<^verbatim>\<open>pinonsame\<close>, \<^verbatim>\<open>reset\<close> as functions
    from command line and library outcomes to socket calls and exit code.
  \<^item> \<open>Hucdev\<close>: the device.  The record \<open>HucState\<close> is the C struct together with a trace
    of the calls into QEMU and the kernel; one definition per handler.  The lemmas show
    that handlers do not fault, an invariant of the states reachable by \<open>dev_step\<close>, what
    each message type and register does, and that the interrupt logic implements a set of
    pending causes (locale \<open>irq_controller\<close>, interpreted on the device).
  \<^item> \<open>Huc_Driver\<close>: the driver over abstract register accesses.  The locale \<open>huc_bus\<close> is
    what it needs from the device (interpreted on \<open>Hucdev\<close>); the locale
    \<open>message_file\<close> is what it offers to a reader (a sublocale of \<open>huc_bus\<close>).
  \<^item> \<open>Huc_Bytecode\<close>: the eBPF program over a map, the contract of the kernel's array map
    (locale \<open>bpf_array_map\<close>, interpreted on the declared map), and the program on several
    CPUs as a step relation.
  \<^item> \<open>Huc_Daemon\<close>: receiving (against \<open>message_file\<close>), saving, the child's forwarding loop
    (against \<open>bpf_array_map\<close>), the parent's handling of children, the mask helpers.
    \<open>Huc_Daemon_Main\<close>: \<^verbatim>\<open>main\<close> around them, with the life of the payload block (when a turn
    faults, that none does on the driver) and the child's repeated polling.
    \<open>Huc_Monitor\<close>: guest calls on any number of CPUs, their eBPF programs and the polling child
    interleaved at every access to the map (\<open>monitor_step\<close>; without interference the steps
    amount to \<open>bpf_prog1\<close> and \<open>poll_map\<close>).  A mask is passed on at most as often as it was
    asked for; the reset of the counter can leave one behind or turn one into the counter.
  \<^item> \<open>Huc_System\<close>: registration of device and driver, and the composition of device,
    interrupt handler and receiver, which refines a mailbox for one message (locale
    \<open>mailbox_impl\<close>, interpreted on the composition).
    \<open>Huc_Concurrent\<close>: the same parts interleaved (\<open>guest_step\<close>, each step labelled with its
    \<open>actor\<close>): any number of readers, the interrupt handler, \<^verbatim>\<open>ioctl\<close> calls and messages from
    the host.  One step is one device access or one access to \<^verbatim>\<open>flag\<close> or \<^verbatim>\<open>payload_left\<close>,
    with the subtraction taken as one step; a device handler is one step, because QEMU runs
    it under its global lock.  Steps of one reader alone compose to \<open>file_read\<close>, those of the
    interrupt handler alone to \<open>irq_handler\<close>.  The lemmas show that no step is stuck on a
    fault, that a transfer which no second message and no second reader disturbs is exact,
    and what goes wrong in each of the other cases.
  \<^item> \<open>Huc_Copies\<close>: the six declarations of the message header in the repository with their
    structure layout, and the copies of the message and socket helpers that single programs
    carry, with their agreement.  \<open>Hucdev_Remap\<close>: the device's \<^verbatim>\<open>map_hyperthread\<close>, which the
    source compiles out, and for which numbers of CPUs it is a permutation.
  \<^item> \<open>Spscq\<close>: the queue, its refinement of a bounded first-in first-out queue (locale
    \<open>bounded_fifo\<close>, interpreted on \<open>lq_write\<close> and \<open>lq_read\<close>), producer and consumer
    interleaved at every shared access (\<open>spsc_step\<close>), and the pool of message buffers.
    \<open>Spscq_Setup\<close>: allocation, the shuffled slot map over any permutation, bit length,
    statistics and delay.  \<open>Spscq_Main\<close>: the two threads of the program with the pool and the
    signal (\<open>workload_step\<close>, a run of which is a run of \<open>spsc_step\<close>), the checksum invariant,
    and a run that never stops.  \<open>Spscq_Progress\<close>: each thread as a function of the state
    (\<open>producer_turn\<close>, \<open>consumer_turn\<close>, shown to be the steps of \<open>workload_step\<close>) under fair
    schedules (locale \<open>scheduled\<close>, interpreted on the turns): packets keep arriving, and after
    the signal both threads end unless the producer waits at a full queue.  \<open>Spscq_TSO\<close>: the
    queue on the memory of an x86 processor, with a buffer of pending stores per thread; every
    run is a run of \<open>spsc_step\<close> (locale \<open>stuttering_simulation\<close> of the prelude, interpreted
    here and for the thread program), which fails on a memory that reorders stores.
    \<open>Spscq_X86\<close>: the thread program on that memory, with the stores to the message buffers
    delayed too; every run is a run of \<open>lenient_step\<close>, which is \<open>workload_step\<close> with a consumer
    that may find the queue empty too early, so the checksum stays exact.
  \<^item> \<open>C_Double\<close>: arithmetic of \<^verbatim>\<open>double\<close> as rounding of rational numbers, with its relative
    error.  \<open>Mlib\<close>: the tick rate, tick conversions and the CPU set of \<^verbatim>\<open>runon\<close>.
    \<open>Cover\<close>: the count of cache lines, its equivalence with a set of lines, and the two
    experiments of \<^verbatim>\<open>cover.cpp\<close>.
  \<^item> \<open>Affinity_Test\<close>: masks and memory accesses of the test programs, and the threads that
    share a counter, with mutual exclusion, absence of deadlock and the exact final count.
    \<open>Testdemo\<close>: the demo driver, its registration beside the real one, and its tool.
  \<^item> This theory: the two paths through the whole system (a file from the host to the
    guest's file system, a mask from a guest call to the host's scheduler) and which tool
    reaches the device.

  \<^bold>\<open>Correspondence.\<close>  Definitions carry the names of the C functions.  A fault (null or wild
  pointer, access out of bounds, failed assertion, signed overflow) is \<open>Inl\<close>; results of
  library and system calls are arguments; effects on the outside are traces.  Printing is
  modelled only where a helper computes what is printed.  Hypotheses on code outside
  \<^verbatim>\<open>src/\<close>: \<open>cpus_are\<close> (vCPUs are numbered without gaps, what \<^verbatim>\<open>qemu_get_cpu\<close> documents)
  and the laws of \<open>bpf_array_map\<close>; both have concrete instances.  \<^verbatim>\<open>std::shuffle\<close>, \<^verbatim>\<open>rand\<close>
  and the clocks are arguments: a family of permutations and streams of values.

  \<^bold>\<open>Bounds and loops.\<close>  No fuel is used.  Loops that might not end are partial functions into
  \<open>option\<close>: \<open>vcpu_loop\<close>, \<open>recv_payload\<close>, \<open>find_loop\<close>, \<open>lines_loop\<close>, \<open>misses_loop\<close>,
  \<open>ilog2_loop\<close>, \<open>draw\<close>, \<open>tsc_sleep_till\<close> and \<open>spin_loop\<close>, each with a lemma that it returns.
  Messages of up to 65516 payload bytes are covered end to end, because the guest sees 65536
  bytes of the buffer and the payload starts at byte 20.  The queue program is covered for
  lengths up to 65536, the range of its slot map; the code uses 256.

  \<^bold>\<open>Not modelled.\<close>  The loading of the bytecode by the kernel samples library and the verifier's
  view of it (only their outcome); weak memory effects outside the queue (there all accesses
  are taken in program order) and compiler reordering of the driver's plain accesses; infinities and subnormal
  numbers of \<^verbatim>\<open>double\<close>; the enumerations and functions nothing uses (\<^verbatim>\<open>RateLimitMode\<close>,
  \<^verbatim>\<open>EmulatedOverhead\<close>, \<^verbatim>\<open>cpu_stress\<close>); debug output, usage texts and other code that is compiled
  out, apart from \<^verbatim>\<open>map_hyperthread\<close>; patches to other projects, scripts and measurements.

  \<^bold>\<open>Limits.\<close>  What could be added is a model of the kernel's verifier, without which the loading
  of the bytecode stays an outcome.  On the memory with store buffers the packet counter and
  the checksum are not delayed, because only the consumer accesses them before the threads are
  joined, and the store to \<^verbatim>\<open>stop\<close> reaches both threads at once.
\<close>

section \<open>From the host's file to the guest's file\<close>

lemma sent_bytes_inject:
  assumes "1 < argc" "0 \<le> socket_ret env" "hostinfo env = Some a" "0 \<le> connect_ret env"
    and "length content < 65536" "length content \<le> stream_ok"
  shows "sent_bytes (injectByteCode_main argc env (Some content) True stream_ok junk) =
    header_bytes \<lparr>version = DEFAULT_VERSION, msg_type = PROGRAM_INJECTION,
                  payload_len = of_nat (length content)\<rparr> @ content"
  using assms
  by (simp add: injectByteCode_main_def with_connection_ok prepare_huc_message_small send_and_free_def
      send_bpf_injection_message_def unat_file_len sent_bytes_def)

text \<open>What the guest does with a message that waits in the device.\<close>

lemma guest_takes_message:
  assumes "huc_wf s" "irq_status s = 0" "length p = unat (payload_len h)" "length p \<le> 65516"
  shows "\<exists>d drv' r k'.
    irq_handler dev_ioread32 (dev_iowrite32 get_cpu) (major drv) (hucdev_raise_irq (with_message s h p) 1) drv =
      Inr (IRQ_HANDLED, d, drv') \<and>
    recv_bytecode file_lseek (file_read dev_ioread32) True stack heap
      \<lparr>k_dev = d, k_drv = drv', k_off = off\<rparr> = Some (r, k') \<and>
    rm_header r = h \<and> mem_get (rm_mem r) 0 (length p) = p"
proof -
  let ?d = "hucdev_raise_irq (with_message s h p) 1"
  have d: "huc_wf ?d" "irq_status ?d = 1" "dev_word_at ?d = dev_word_at (with_message s h p)"
    using with_message_wf [OF assms(1), of h p] assms(2)
    by (simp_all add: hucdev_raise_irq_def Let_def huc_wf_def dev_word_at_def fun_eq_iff)
  obtain d' where d': "irq_handler dev_ioread32 (dev_iowrite32 get_cpu) (major drv) ?d drv =
      Inr (IRQ_HANDLED, d', drv\<lparr>flag := 2\<rparr>)" "huc_wf d'" "dev_word_at d' = dev_word_at ?d"
    using hucbus.irq_handler_handles [OF d(1) refl, of get_cpu drv] d(2) by (auto simp: flag_after_def)
  with recv_bytecode_from_words [of d' s h p "drv\<lparr>flag := 2\<rparr>" stack heap off] d assms(3,4)
  show ?thesis by fastforce
qed



section \<open>From a guest's affinity call to the host's scheduler\<close>

text \<open>
  The \<^verbatim>\<open>ioctl\<close> calls of one turn of the child, each with a pointer to its 64-bit variable.
\<close>

fun forward_masks :: "('d \<Rightarrow> u64 \<Rightarrow> u32 \<Rightarrow> 'e + 'd) \<Rightarrow> 'd \<Rightarrow> u64 list \<Rightarrow> 'e + 'd" where
  "forward_masks iowrite32 d [] = Inr d"
| "forward_masks iowrite32 d (v # vs) =
     rbind (huc_ioctl iowrite32 False d IOCTL_SCHED_SETAFFINITY (mem_put (\<lambda>_. 0) 0 (le64 v)))
       (\<lambda>(ret, d). forward_masks iowrite32 d vs)"

text \<open>The scheduler calls of the device for a mask.\<close>

definition bind_calls :: "int list \<Rightarrow> u64 \<Rightarrow> dev_event list" where
  "bind_calls tids v =
     map (\<lambda>j. SchedSetAffinity (tids ! j) SET_SIZE v) (filter (\<lambda>j. j < 64 \<and> bit v j) [0..<length tids])"

lemma load32_le64: "load32 (mem_put m a (le64 v)) a = ucast v"
proof -
  have "mem_put m a (le64 v) = mem_put (mem_put m a (le32 (ucast v))) (a + 4) (le32 (ucast (drop_bit 32 v)))"
    using mem_put_append [of m a "le32 (ucast v)" "le32 (ucast (drop_bit 32 v))"] by (simp add: le64_def)
  then show ?thesis by (simp add: load32_put_disjoint load32_put_same)
qed

lemma ucast_low_half: "(ucast (ucast (v :: u64) :: u32) :: u64) = take_bit 32 v"
  by (rule bit_word_eqI) (auto simp: bit_simps)

lemma ioctl_binds:
  assumes "cpus_are get_cpu tids"
  shows "huc_ioctl (dev_iowrite32 get_cpu) False d IOCTL_SCHED_SETAFFINITY (mem_put m 0 (le64 v)) =
    Inr (0, d\<lparr>trace := trace d @ bind_calls tids (take_bit 32 v)\<rparr>)"
proof -
  have "CPU_ISSET_S j w = (j < 64 \<and> bit w j)" for j w
    by (auto simp: CPU_ISSET_S_def SET_SIZE_def)
  then show ?thesis
    using assms by (simp add: huc_ioctl_def drv_simps load32_le64 dev_iowrite32_def ucast_low_half
        hucdev_bufmmio_write_eq hucdev_ops_access_size_def set_vcpu_affinity_cpus_are bind_calls_def)
qed

lemma forward_masks_binds:
  assumes "cpus_are get_cpu tids"
  shows "forward_masks (dev_iowrite32 get_cpu) d vs =
    Inr (d\<lparr>trace := trace d @ concat (map (\<lambda>v. bind_calls tids (take_bit 32 v)) vs)\<rparr>)"
  by (induction vs arbitrary: d) (simp_all add: ioctl_binds [OF assms])

text \<open>The affinity \<^verbatim>\<open>ioctl\<close> with a 64-bit mask reaches the scheduler with the low 32
  bits of the mask only: exactly the vCPU threads with an index below 32 in the mask are
  bound, each to the low half.\<close>

lemma ioctl_truncates_mask:
  assumes "cpus_are get_cpu tids"
  shows "huc_ioctl (dev_iowrite32 get_cpu) False d IOCTL_SCHED_SETAFFINITY (mem_put m 0 (le64 v)) =
    Inr (0, d\<lparr>trace := trace d @
      map (\<lambda>j. SchedSetAffinity (tids ! j) SET_SIZE (take_bit 32 v))
          (filter (\<lambda>j. j < 32 \<and> bit v j) [0..<length tids])\<rparr>)"
proof -
  have "(j < 64 \<and> bit (take_bit 32 v) j) = (j < 32 \<and> bit v j)" for j
    by (auto simp: bit_take_bit_iff)
  then show ?thesis using ioctl_binds [OF assms] by (simp add: bind_calls_def)
qed

text \<open>C2. The path of guest affinity calls: when \<open>vs\<close> are the masks of up to 63 calls that
  did not overlap, one turn of the daemon's child makes the device bind vCPU threads first
  for the number of calls taken as a mask, then for the masks themselves, newest first and
  cut to 32 bits; the map is empty again afterwards.\<close>

theorem affinity_calls_end_to_end:
  assumes "bpf_array_map lookup update cells valid"
    and "valid m" "cells m = cpuindex_mask_maps" "vs \<noteq> []" "length vs \<le> 63"
    and "cpus_are get_cpu tids"
  shows "\<exists>m' masks.
    poll_map lookup update (fold (bpf_prog1 lookup update) vs m) old = (m', 0, masks) \<and>
    cells m' = cpuindex_mask_maps \<and>
    forward_masks (dev_iowrite32 get_cpu) d masks =
      Inr (d\<lparr>trace := trace d @ bind_calls tids (of_nat (length vs)) @
        concat (map (\<lambda>v. bind_calls tids (take_bit 32 v)) (rev (filter (\<lambda>v. v \<noteq> 0) vs)))\<rparr>)"
proof -
  obtain m' where m': "poll_map lookup update (fold (bpf_prog1 lookup update) vs m) old =
      (m', 0, of_nat (length vs) # rev (filter (\<lambda>v. v \<noteq> 0) vs))" "cells m' = cpuindex_mask_maps"
    using child_turn_after_calls [OF assms(1-5)] by blast
  have "take_bit 32 (of_nat (length vs) :: u64) = of_nat (length vs)"
  proof -
    have "unat (of_nat (length vs) :: u64) = length vs"
      using assms(5) by (intro unat_small_count) (simp add: MAX_ENTRIES_def)
    then have "unat (take_bit 32 (of_nat (length vs) :: u64)) = length vs"
      using assms(5) by (simp only: unsigned_take_bit_eq take_bit_eq_mod [of 32 "length vs"]) simp
    then show ?thesis by (simp add: word_unat_eq_iff \<open>unat (of_nat (length vs) :: u64) = length vs\<close>)
  qed
  then show ?thesis using m' forward_masks_binds [OF assms(6)] by simp
qed

theorem affinity_calls_end_to_end_witness:
  "\<exists>m' masks.
    poll_map array_lookup array_update
      (fold (bpf_prog1 array_lookup array_update) [2] cpuindex_mask_maps) 0 = (m', 0, masks) \<and>
    forward_masks (dev_iowrite32 (cpu_of [100, 101])) sample_dev masks =
      Inr (sample_dev\<lparr>trace := trace sample_dev @ [SchedSetAffinity 100 8 1, SchedSetAffinity 101 8 2]\<rparr>)"
  using affinity_calls_end_to_end [OF cpuindex.bpf_array_map_axioms _ _ _ _ cpus_are_cpu_of [of "[100, 101]"],
      where m = cpuindex_mask_maps and vs = "[2]" and old = 0 and d = sample_dev]
  by (simp add: cpuindex_mask_maps_def bind_calls_def upt_rec SET_SIZE_def bit_numeral_rec) blast

section \<open>Which host tool reaches the device\<close>

text \<open>\<^verbatim>\<open>injectByteCode\<close> connects to the port the device listens on;
  \<^verbatim>\<open>injectProgram\<close>, \<^verbatim>\<open>pinonsame\<close> and \<^verbatim>\<open>reset\<close> never do, whatever the outcome of the
  calls they make.\<close>

lemma tools_and_device_port:
  "set (connect_ports (injectByteCode_main argc env file mok sok junk)) \<subseteq> {htons LISTEN_PORT} \<and>
   htons LISTEN_PORT \<notin> set (connect_ports (injectProgram_main env file mok sok junk)) \<and>
   htons LISTEN_PORT \<notin> set (connect_ports (pinonsame_main argv env)) \<and>
   htons LISTEN_PORT \<notin> set (connect_ports (reset_main env))"
proof -
  have ne: "htons PORT_bpf \<noteq> htons LISTEN_PORT" "htons PORT_injectByteCode = htons LISTEN_PORT"
    by (simp_all add: htons_def le16_def host_simps dev_simps)
  have fault: "connect_ports (Inl e) = []" "connect_ports (Inr ([], r)) = []" for e r
    by (simp_all add: connect_ports_def)
  have tool: "htons LISTEN_PORT \<notin> set (connect_ports (rbind x (\<lambda>m. with_connection env PORT_bpf (f m))))"
    if "\<And>m. connect_ports (f m) = []" for x :: "c_fault + huc_msg_t" and f
  proof (cases x)
    case (Inr m)
    then show ?thesis using with_connection_ports [OF that [of m], of env PORT_bpf] ne(1) by auto
  qed (simp add: fault)
  have "set (connect_ports (injectByteCode_main argc env file mok sok junk)) \<subseteq> {htons LISTEN_PORT}"
    using with_connection_ports [OF send_and_free_ports, of env PORT_injectByteCode] ne(2)
    by (simp add: injectByteCode_main_def fault)
  moreover have "htons LISTEN_PORT \<notin> set (connect_ports (injectProgram_main env file mok sok junk))"
    unfolding injectProgram_main_def by (rule tool) (rule send_and_free_ports)
  moreover have "htons LISTEN_PORT \<notin> set (connect_ports (reset_main env))"
    unfolding reset_main_def by (rule tool) (rule send_and_free_ports)
  moreover have "htons LISTEN_PORT \<notin> set (connect_ports (pinonsame_main argv env))"
    unfolding pinonsame_main_def by (simp only: if_distrib fault) (simp add: tool pinonsame_body_ports fault)
  ultimately show ?thesis by blast
qed

end
